(* ===== verification/Prelude.thy ===== *)
theory Prelude
  imports Main
begin

text \<open>
  Shared material of the development: the outcome type of Go code that can panic,
  reachability in a transition system with the invariant principle as a locale,
  quorum systems as a locale, and the list and integer lemmas that several
  components use.
\<close>

named_theorems go_defs \<open>definitions of the model that component proofs unfold\<close>
named_theorems wf_intros \<open>operations keep their well-formedness predicate\<close>

section \<open>Panics as values\<close>

text \<open>
  A run-time panic of the source is the left injection of a sum. Each constructor is
  one way in which modelled code can fail to return.
\<close>

datatype go_panic =
    AppendIndexMismatch int int  \<comment> \<open>the explicit panic in \<open>Log.Append\<close>: got, expected\<close>
  | IndexOutOfRange int int      \<comment> \<open>slice indexing: index, length\<close>
  | NilPointer                   \<comment> \<open>a field of a nil pointer\<close>
  | Diverges                     \<comment> \<open>a loop that never ends\<close>

type_synonym 'a go = "go_panic + 'a"

definition go_bind :: "'a go \<Rightarrow> ('a \<Rightarrow> 'b go) \<Rightarrow> 'b go" where
  "go_bind m f = (case m of Inl p \<Rightarrow> Inl p | Inr x \<Rightarrow> f x)"

lemma go_bind_simps [simp]:
  "go_bind (Inl p) f = Inl p"
  "go_bind (Inr x) f = f x"
  by (simp_all add: go_bind_def)

lemma go_bind_Inr_iff:
  "go_bind m f = Inr y \<longleftrightarrow> (\<exists>x. m = Inr x \<and> f x = Inr y)"
  by (cases m) auto

lemma go_bind_InrE:
  assumes "go_bind m f = Inr y"
  obtains x where "m = Inr x" and "f x = Inr y"
  using assms by (auto simp: go_bind_Inr_iff)

text \<open>Reading \<open>xs[i]\<close> with a signed index.\<close>

definition slice_get :: "'a list \<Rightarrow> int \<Rightarrow> 'a go" where
  "slice_get xs i =
     (if 0 \<le> i \<and> i < int (length xs) then Inr (xs ! nat i)
      else Inl (IndexOutOfRange i (int (length xs))))"

text \<open>Writing \<open>xs[i] = v\<close> with a signed index.\<close>

definition slice_set :: "'a list \<Rightarrow> int \<Rightarrow> 'a \<Rightarrow> 'a list go" where
  "slice_set xs i v =
     (if 0 \<le> i \<and> i < int (length xs) then Inr (xs[nat i := v])
      else Inl (IndexOutOfRange i (int (length xs))))"

text \<open>Taking \<open>xs[i:j]\<close> of a slice whose capacity is its length.\<close>

definition slice_range :: "'a list \<Rightarrow> int \<Rightarrow> int \<Rightarrow> 'a list go" where
  "slice_range xs i j =
     (if 0 \<le> i \<and> i \<le> j \<and> j \<le> int (length xs) then Inr (take (nat (j - i)) (drop (nat i) xs))
      else Inl (IndexOutOfRange (if j < 0 \<or> int (length xs) < j then j else i) (int (length xs))))"

lemma slice_get_in [simp]:
  "0 \<le> i \<Longrightarrow> i < int (length xs) \<Longrightarrow> slice_get xs i = Inr (xs ! nat i)"
  by (simp add: slice_get_def)

lemma slice_set_in [simp]:
  "0 \<le> i \<Longrightarrow> i < int (length xs) \<Longrightarrow> slice_set xs i v = Inr (xs[nat i := v])"
  by (simp add: slice_set_def)

lemma slice_get_InrD:
  "slice_get xs i = Inr v \<Longrightarrow> 0 \<le> i \<and> i < int (length xs) \<and> v = xs ! nat i"
  by (auto simp: slice_get_def split: if_splits)

lemma slice_set_InrD:
  "slice_set xs i v = Inr ys \<Longrightarrow> 0 \<le> i \<and> i < int (length xs) \<and> ys = xs[nat i := v]"
  by (auto simp: slice_set_def split: if_splits)

section \<open>Transition systems and invariants\<close>

inductive reach :: "('s \<Rightarrow> bool) \<Rightarrow> ('s \<Rightarrow> 's \<Rightarrow> bool) \<Rightarrow> 's \<Rightarrow> bool"
  for start :: "'s \<Rightarrow> bool" and step :: "'s \<Rightarrow> 's \<Rightarrow> bool" where
  reach_start: "start s \<Longrightarrow> reach start step s"
| reach_step: "reach start step s \<Longrightarrow> step s t \<Longrightarrow> reach start step t"

text \<open>
  An invariant may lean on one that is already established (\<open>base\<close>): it holds at the
  start and is kept by every step between states where the base holds.
\<close>

locale invariant_of =
  fixes start :: "'s \<Rightarrow> bool" and step :: "'s \<Rightarrow> 's \<Rightarrow> bool"
    and base :: "'s \<Rightarrow> bool" and inv :: "'s \<Rightarrow> bool"
  assumes base_reach: "reach start step s \<Longrightarrow> base s"
    and inv_start: "start s \<Longrightarrow> inv s"
    and inv_step: "base s \<Longrightarrow> inv s \<Longrightarrow> step s t \<Longrightarrow> base t \<Longrightarrow> inv t"
begin

lemma reach_inv: "reach start step s \<Longrightarrow> inv s"
proof (induction rule: reach.induct)
  case (reach_start s)
  then show ?case by (rule inv_start)
next
  case (reach_step s t)
  from reach_step.hyps have "reach start step t" by (rule reach.reach_step)
  then show ?case
    using reach_step by (blast intro: inv_step dest: base_reach)
qed

lemma reach_both: "reach start step s \<Longrightarrow> base s \<and> inv s"
  by (simp add: base_reach reach_inv)

end

section \<open>Quorum systems\<close>

text \<open>
  What the consensus proofs need of a majority: any two quorums share a member.
\<close>

locale quorum_system =
  fixes members :: "'n set" and is_quorum :: "'n set \<Rightarrow> bool"
  assumes quorum_members: "is_quorum Q \<Longrightarrow> Q \<subseteq> members"
    and quorum_meet: "is_quorum P \<Longrightarrow> is_quorum Q \<Longrightarrow> \<exists>v. v \<in> P \<and> v \<in> Q"
begin

lemma quorum_nonempty: "is_quorum Q \<Longrightarrow> Q \<noteq> {}"
  using quorum_meet by blast

text \<open>Two values that each have the votes of a quorum are equal when votes are unique.\<close>

lemma quorum_unique:
  assumes "is_quorum P" and "is_quorum Q"
    and "\<And>v. v \<in> P \<Longrightarrow> votes v a" and "\<And>v. v \<in> Q \<Longrightarrow> votes v b"
    and "\<And>v x y. votes v x \<Longrightarrow> votes v y \<Longrightarrow> x = y"
  shows "a = b"
proof -
  from quorum_meet [OF assms(1,2)] obtain v where "v \<in> P" and "v \<in> Q" by blast
  then show ?thesis using assms(3-5) by blast
qed

end

lemma majorities_share:
  fixes M P Q :: "'a set"
  assumes "finite M" and "P \<subseteq> M" and "Q \<subseteq> M"
    and "card M div 2 + 1 \<le> card P" and "card M div 2 + 1 \<le> card Q"
  shows "\<exists>v. v \<in> P \<and> v \<in> Q"
proof (rule ccontr)
  assume "\<not> ?thesis"
  then have "P \<inter> Q = {}" by blast
  moreover have "finite P" "finite Q"
    using assms(1-3) by (auto intro: finite_subset)
  ultimately have "card (P \<union> Q) = card P + card Q" by (simp add: card_Un_disjoint)
  moreover have "card (P \<union> Q) \<le> card M"
    using assms(1-3) by (intro card_mono) auto
  ultimately show False using assms(4,5) by linarith
qed

section \<open>Codecs\<close>

text \<open>An encoding that its decoder undoes on the valid values.\<close>

locale codec =
  fixes encode :: "'a \<Rightarrow> 'b" and decode :: "'b \<Rightarrow> 'c" and result :: "'a \<Rightarrow> 'c" and valid :: "'a \<Rightarrow> bool"
  assumes decode_encode: "valid x \<Longrightarrow> decode (encode x) = result x"
    and result_inject: "result x = result y \<Longrightarrow> x = y"
begin

lemma encode_inject: "valid x \<Longrightarrow> valid y \<Longrightarrow> encode x = encode y \<Longrightarrow> x = y"
  by (metis decode_encode result_inject)

lemma encode_inj_on: "inj_on encode {x. valid x}"
  by (rule inj_onI) (auto intro: encode_inject)

end

section \<open>Fixed-width integers\<close>

text \<open>The conversion \<open>int32(n)\<close>: the low 32 bits, read as a signed number.\<close>

definition int32 :: "int \<Rightarrow> int" where
  "int32 n = (n + 2 ^ 31) mod 2 ^ 32 - 2 ^ 31"

lemma int32_id: "- (2 ^ 31) \<le> n \<Longrightarrow> n < 2 ^ 31 \<Longrightarrow> int32 n = n"
  by (simp add: int32_def)

section \<open>Lists\<close>

lemma take_Suc_append_nth:
  "n < length xs \<Longrightarrow> take (Suc n) xs = take n xs @ [xs ! n]"
  by (rule take_Suc_conv_app_nth)

lemma take_eq_mono:
  assumes "take n xs = take n ys" and "m \<le> n"
  shows "take m xs = take m ys"
proof -
  have "take m xs = take m (take n xs)" "take m ys = take m (take n ys)"
    using assms(2) by (simp_all add: min_absorb1)
  then show ?thesis using assms(1) by simp
qed

lemma take_eq_nth:
  assumes "take n xs = take n ys" and "i < n"
  shows "xs ! i = ys ! i"
proof -
  have "take n xs ! i = take n ys ! i" using assms(1) by simp
  then show ?thesis using assms(2) by simp
qed

lemma take_eq_length:
  "take n xs = take n ys \<Longrightarrow> n \<le> length xs \<Longrightarrow> n \<le> length ys"
  by (metis length_take min.absorb2 min.cobounded1)

lemma take_of_prefix: "xs = take n ys \<Longrightarrow> m \<le> n \<Longrightarrow> take m xs = take m ys"
  by (simp add: min_absorb1)

lemma take_append_le: "n \<le> length xs \<Longrightarrow> take n (xs @ ys) = take n xs"
  by simp

end
