(* ===== verification/Raft_Log.thy ===== *)
theory Raft_Log
  imports Prelude
begin

text \<open>
  The append-only log of \<^verbatim>\<open>src/internal/log/log.go\<close>. A log is a slice whose
  position 0 holds a sentinel; indices are signed 64-bit in the source and \<open>int\<close> here
  (no index the code computes comes near the bound). The interface
  \<open>indexed_log\<close> states what Raft relies on, in terms of the list of real entries.
\<close>

section \<open>Data and operations\<close>

record LogEntry =
  le_Index :: int
  le_Term :: int
  le_Command :: string

record Log =
  lg_entries :: "LogEntry list"

definition zero_LogEntry :: LogEntry where
  "zero_LogEntry = \<lparr>le_Index = 0, le_Term = 0, le_Command = []\<rparr>"

definition log_New :: Log where
  "log_New = \<lparr>lg_entries = [\<lparr>le_Index = 0, le_Term = 0, le_Command = []\<rparr>]\<rparr>"

definition log_LastIndex :: "Log \<Rightarrow> int" where
  "log_LastIndex l = int (length (lg_entries l)) - 1"

definition log_Append :: "Log \<Rightarrow> LogEntry \<Rightarrow> Log go" where
  "log_Append l entry =
     (let expected = log_LastIndex l + 1
      in if le_Index entry \<noteq> expected then Inl (AppendIndexMismatch (le_Index entry) expected)
         else Inr (l\<lparr>lg_entries := lg_entries l @ [entry]\<rparr>))"

definition log_At :: "Log \<Rightarrow> int \<Rightarrow> LogEntry \<times> bool" where
  "log_At l index =
     (if index \<le> 0 \<or> index \<ge> int (length (lg_entries l)) then (zero_LogEntry, False)
      else (lg_entries l ! nat index, True))"

definition log_LastTerm :: "Log \<Rightarrow> int go" where
  "log_LastTerm l =
     go_bind (slice_get (lg_entries l) (int (length (lg_entries l)) - 1)) (\<lambda>e. Inr (le_Term e))"

definition log_Truncate :: "Log \<Rightarrow> int \<Rightarrow> Log" where
  "log_Truncate l fromIndex =
     (if fromIndex \<le> 0 \<or> fromIndex \<ge> int (length (lg_entries l)) then l
      else l\<lparr>lg_entries := take (nat fromIndex) (lg_entries l)\<rparr>)"

definition log_Entries :: "Log \<Rightarrow> int \<Rightarrow> int \<Rightarrow> LogEntry list" where
  "log_Entries l ifrom ito =
     (let n = int (length (lg_entries l));
          f = (if ifrom \<le> 0 then 1 else ifrom);
          t = (if ito > n then n else ito)
      in if f \<ge> t then [] else take (nat (t - f)) (drop (nat f) (lg_entries l)))"

definition log_Len :: "Log \<Rightarrow> int" where
  "log_Len l = int (length (lg_entries l)) - 1"

section \<open>Well-formedness and the abstract list\<close>

text \<open>
  A log made by \<open>New\<close> and the operations starts with the sentinel and holds at
  position \<open>i\<close> an entry with \<open>Index = i\<close>.
\<close>

definition log_wf :: "Log \<Rightarrow> bool" where
  "log_wf l \<longleftrightarrow> lg_entries l \<noteq> [] \<and> hd (lg_entries l) = zero_LogEntry \<and>
     (\<forall>i < length (lg_entries l). le_Index (lg_entries l ! i) = int i)"

text \<open>The real entries, without the sentinel.\<close>

definition log_list :: "Log \<Rightarrow> LogEntry list" where
  "log_list l = tl (lg_entries l)"

lemma log_wf_Cons: "log_wf l \<Longrightarrow> lg_entries l = zero_LogEntry # log_list l"
  by (cases "lg_entries l") (auto simp: log_wf_def log_list_def)

lemma log_list_update: "log_list (l\<lparr>lg_entries := es\<rparr>) = tl es"
  by (simp add: log_list_def)

lemma length_entries: "log_wf l \<Longrightarrow> length (lg_entries l) = Suc (length (log_list l))"
  by (drule log_wf_Cons) simp

text \<open>Position \<open>i\<close> of the slice is position \<open>i - 1\<close> of the list of real entries.\<close>

lemma nat_pred: "0 < i \<Longrightarrow> nat i = Suc (nat (i - 1))"
  by simp

lemma nth_sentinel:
  assumes "log_wf l" and "0 < i"
  shows "lg_entries l ! nat i = log_list l ! nat (i - 1)"
  unfolding nat_pred [OF assms(2)] log_wf_Cons [OF assms(1)] by simp

lemma log_wf_New [wf_intros, simp]: "log_wf log_New"
  by (simp add: log_wf_def log_New_def zero_LogEntry_def)

lemma log_list_New [simp]: "log_list log_New = []"
  by (simp add: log_list_def log_New_def)

lemma log_LastIndex_list: "log_wf l \<Longrightarrow> log_LastIndex l = int (length (log_list l))"
  by (simp add: log_LastIndex_def length_entries)

lemma log_At_list:
  assumes "log_wf l"
  shows "log_At l i = (if 0 < i \<and> i \<le> int (length (log_list l))
           then (log_list l ! nat (i - 1), True) else (zero_LogEntry, False))"
  using nth_sentinel [OF assms, of i] length_entries [OF assms] by (auto simp: log_At_def)

lemma log_Index_list:
  assumes "log_wf l" and "k < length (log_list l)"
  shows "le_Index (log_list l ! k) = int k + 1"
proof -
  have "le_Index (lg_entries l ! Suc k) = int (Suc k)"
    using assms(2) length_entries [OF assms(1)] assms(1) [unfolded log_wf_def] by simp
  then show ?thesis using log_wf_Cons [OF assms(1)] by simp
qed

lemma log_wf_Append:
  assumes "log_wf l" and "le_Index e = log_LastIndex l + 1"
  shows "log_wf (l\<lparr>lg_entries := lg_entries l @ [e]\<rparr>)"
proof -
  have "le_Index ((lg_entries l @ [e]) ! i) = int i" if "i < length (lg_entries l @ [e])" for i
    using that assms by (cases "i < length (lg_entries l)")
      (auto simp: log_wf_def nth_append log_LastIndex_def less_Suc_eq)
  then show ?thesis using assms(1) by (simp add: log_wf_def)
qed

lemma log_wf_Truncate [wf_intros]: "log_wf l \<Longrightarrow> log_wf (log_Truncate l i)"
  by (auto simp: log_wf_def log_Truncate_def hd_take)

lemma log_list_Truncate:
  assumes "log_wf l"
  shows "log_list (log_Truncate l i) =
    (if 0 < i \<and> i \<le> int (length (log_list l)) then take (nat (i - 1)) (log_list l) else log_list l)"
proof (cases "0 < i \<and> i \<le> int (length (log_list l))")
  case True
  have "tl (take (nat i) (lg_entries l)) = take (nat (i - 1)) (log_list l)"
    unfolding nat_pred [OF conjunct1 [OF True]] log_wf_Cons [OF assms] by simp
  then show ?thesis
    using True length_entries [OF assms] by (simp add: log_Truncate_def log_list_update)
next
  case False
  then show ?thesis
    using assms length_entries [OF assms] by (auto simp: log_Truncate_def)
qed

lemma log_Entries_list:
  assumes "log_wf l" and "0 < f"
  shows "log_Entries l f (log_LastIndex l + 1) = drop (nat (f - 1)) (log_list l)"
proof (cases "f \<le> int (length (log_list l))")
  case True
  have "drop (nat f) (lg_entries l) = drop (nat (f - 1)) (log_list l)"
    unfolding nat_pred [OF assms(2)] log_wf_Cons [OF assms(1)] by simp
  then show ?thesis
    using True assms(2) length_entries [OF assms(1)]
    by (simp add: log_Entries_def log_LastIndex_def Let_def)
next
  case False
  then show ?thesis using assms
    by (auto simp: log_Entries_def log_LastIndex_def length_entries Let_def)
qed

section \<open>The interface Raft relies on\<close>

text \<open>
  \<open>els l\<close> is the list of real entries. The laws give every observer of the log and the
  effect of every operation on that list; \<open>replace_conflict\<close> and
  \<open>append_keeps\<close> are what the replication code uses.
\<close>

locale indexed_log =
  fixes empty :: 'l and append :: "'l \<Rightarrow> LogEntry \<Rightarrow> 'l go"
    and at :: "'l \<Rightarrow> int \<Rightarrow> LogEntry \<times> bool" and last_index :: "'l \<Rightarrow> int"
    and last_term :: "'l \<Rightarrow> int go" and truncate :: "'l \<Rightarrow> int \<Rightarrow> 'l"
    and wf :: "'l \<Rightarrow> bool" and els :: "'l \<Rightarrow> LogEntry list"
  assumes wf_empty: "wf empty" and els_empty: "els empty = []"
    and last_index_els: "wf l \<Longrightarrow> last_index l = int (length (els l))"
    and last_term_els: "wf l \<Longrightarrow>
      last_term l = Inr (if els l = [] then 0 else le_Term (last (els l)))"
    and at_els: "wf l \<Longrightarrow> at l i = (if 0 < i \<and> i \<le> int (length (els l))
      then (els l ! nat (i - 1), True) else (zero_LogEntry, False))"
    and append_ok: "wf l \<Longrightarrow> le_Index e = int (length (els l)) + 1 \<Longrightarrow>
      \<exists>l'. append l e = Inr l' \<and> wf l' \<and> els l' = els l @ [e]"
    and append_bad: "wf l \<Longrightarrow> le_Index e \<noteq> int (length (els l)) + 1 \<Longrightarrow>
      append l e = Inl (AppendIndexMismatch (le_Index e) (int (length (els l)) + 1))"
    and wf_truncate: "wf l \<Longrightarrow> wf (truncate l i)"
    and els_truncate: "wf l \<Longrightarrow> els (truncate l i) =
      (if 0 < i \<and> i \<le> int (length (els l)) then take (nat (i - 1)) (els l) else els l)"
    and index_els: "wf l \<Longrightarrow> k < length (els l) \<Longrightarrow> le_Index (els l ! k) = int k + 1"
begin

lemma append_InrD:
  assumes "wf l" and "append l e = Inr l'"
  shows "le_Index e = int (length (els l)) + 1 \<and> wf l' \<and> els l' = els l @ [e]"
  using assms append_ok [of l e] append_bad [of l e] by fastforce

lemma at_present: "wf l \<Longrightarrow> snd (at l i) \<longleftrightarrow> 0 < i \<and> i \<le> last_index l"
  by (simp add: at_els last_index_els)

lemma at_index: "wf l \<Longrightarrow> at l i = (e, True) \<Longrightarrow> le_Index e = i"
  by (auto simp: at_els index_els split: if_splits)

text \<open>Appending never changes what is already there and makes the new entry the last.\<close>

lemma append_keeps:
  assumes "wf l" and "append l e = Inr l'" and "i \<le> last_index l"
  shows "at l' i = at l i"
  using append_InrD [OF assms(1,2)] assms by (auto simp: at_els last_index_els nth_append)

lemma append_last:
  assumes "wf l" and "append l e = Inr l'"
  shows "at l' (last_index l') = (e, True)" and "last_index l' = last_index l + 1"
  using append_InrD [OF assms] assms(1) by (simp_all add: at_els last_index_els nth_append)

text \<open>Dropping a conflicting suffix and appending the leader's entry in its place.\<close>

lemma replace_conflict:
  assumes "wf l" and "0 < i" and "i \<le> last_index l" and "le_Index e = i"
  shows "\<exists>l'. append (truncate l i) e = Inr l' \<and> wf l' \<and> els l' = take (nat (i - 1)) (els l) @ [e]"
proof -
  have i: "0 < i" "i \<le> int (length (els l))" using assms by (simp_all add: last_index_els)
  then have "els (truncate l i) = take (nat (i - 1)) (els l)"
    using assms(1) by (simp add: els_truncate)
  moreover from this have "int (length (els (truncate l i))) + 1 = i" using i by simp
  ultimately show ?thesis
    using append_ok [OF wf_truncate [OF assms(1)], of e i] assms(4) by auto
qed

end

interpretation lg: indexed_log log_New log_Append log_At log_LastIndex log_LastTerm
    log_Truncate log_wf log_list
proof
  fix l :: Log and e i
  assume wf: "log_wf l"
  show "log_LastIndex l = int (length (log_list l))" using wf by (rule log_LastIndex_list)
  show "log_LastTerm l = Inr (if log_list l = [] then 0 else le_Term (last (log_list l)))"
    unfolding log_LastTerm_def log_wf_Cons [OF wf]
    by (auto simp: zero_LogEntry_def last_conv_nth nth_Cons')
  show "log_At l i = (if 0 < i \<and> i \<le> int (length (log_list l))
      then (log_list l ! nat (i - 1), True) else (zero_LogEntry, False))"
    using wf by (rule log_At_list)
  show "log_wf (log_Truncate l i)" using wf by (rule log_wf_Truncate)
  show "log_list (log_Truncate l i) = (if 0 < i \<and> i \<le> int (length (log_list l))
      then take (nat (i - 1)) (log_list l) else log_list l)"
    using wf by (rule log_list_Truncate)
next
  fix l :: Log and e :: LogEntry
  assume wf: "log_wf l" and ix: "le_Index e = int (length (log_list l)) + 1"
  then show "\<exists>l'. log_Append l e = Inr l' \<and> log_wf l' \<and> log_list l' = log_list l @ [e]"
    using log_wf_Append [OF wf, of e] log_wf_Cons [OF wf]
    by (simp add: log_Append_def log_LastIndex_list log_list_update)
next
  fix l :: Log and e :: LogEntry
  assume wf: "log_wf l" and ix: "le_Index e \<noteq> int (length (log_list l)) + 1"
  then show "log_Append l e =
      Inl (AppendIndexMismatch (le_Index e) (int (length (log_list l)) + 1))"
    by (simp add: log_Append_def log_LastIndex_list)
next
  fix l :: Log and k
  assume "log_wf l" and "k < length (log_list l)"
  then show "le_Index (log_list l ! k) = int k + 1" by (rule log_Index_list)
qed simp_all

end
