(* ===== verification/Config.thy ===== *)
theory Config
  imports Prelude
begin

text \<open>
  The cluster configuration of \<^verbatim>\<open>src/config/config.go\<close>: node descriptors and the two
  lookups. \<open>int32\<close> identifiers are \<open>int\<close> (they are only compared and used as indices).
\<close>

record NodeConfig =
  nc_ID :: int
  nc_ClientAddr :: string
  nc_PeerAddr :: string

record ClusterConfig =
  cc_Nodes :: "NodeConfig list"

datatype config_error =
    ReadError string           \<comment> \<open>\<open>config: read path: ...\<close>\<close>
  | ParseError string          \<comment> \<open>\<open>config: parse path: ...\<close>\<close>
  | NoNodes string             \<comment> \<open>\<open>config: path contains no nodes\<close>\<close>
  | NoNodeWithId int           \<comment> \<open>\<open>config: no node with id n\<close>\<close>

text \<open>
  \<open>Load\<close> takes what the operating system returns for the path and the JSON decoder as
  arguments; its own logic is the order of the checks.
\<close>

definition Load ::
  "(string \<Rightarrow> string option) \<Rightarrow> (string \<Rightarrow> ClusterConfig option) \<Rightarrow> string \<Rightarrow> config_error + ClusterConfig" where
  "Load readFile unmarshal path =
     (case readFile path of
        None \<Rightarrow> Inl (ReadError path)
      | Some data \<Rightarrow>
          (case unmarshal data of
             None \<Rightarrow> Inl (ParseError path)
           | Some cfg \<Rightarrow> if length (cc_Nodes cfg) = 0 then Inl (NoNodes path) else Inr cfg))"

fun self_loop :: "int \<Rightarrow> NodeConfig list \<Rightarrow> config_error + NodeConfig" where
  "self_loop i [] = Inl (NoNodeWithId i)"
| "self_loop i (n # ns) = (if nc_ID n = i then Inr n else self_loop i ns)"

definition Self :: "ClusterConfig \<Rightarrow> int \<Rightarrow> config_error + NodeConfig" where
  "Self c i = self_loop i (cc_Nodes c)"

definition Peers :: "ClusterConfig \<Rightarrow> int \<Rightarrow> NodeConfig list" where
  "Peers c i = filter (\<lambda>n. nc_ID n \<noteq> i) (cc_Nodes c)"

text \<open>
  What the rest of the code needs of a configuration: node \<open>k\<close> of the list has
  identifier \<open>k\<close> (the code indexes \<open>cfg.Nodes\<close>, \<open>nextIndex\<close> and
  \<open>matchIndex\<close> by identifier), as both shipped configuration files have.
\<close>

definition wf_cfg :: "ClusterConfig \<Rightarrow> bool" where
  "wf_cfg c \<longleftrightarrow> cc_Nodes c \<noteq> [] \<and> map nc_ID (cc_Nodes c) = map int [0..<length (cc_Nodes c)]"

definition node_ids :: "ClusterConfig \<Rightarrow> int set" where
  "node_ids c = nc_ID ` set (cc_Nodes c)"

lemma wf_cfg_nth: "wf_cfg c \<Longrightarrow> k < length (cc_Nodes c) \<Longrightarrow> nc_ID (cc_Nodes c ! k) = int k"
  by (metis (no_types, lifting) add.left_neutral length_map length_upt minus_nat.diff_0 nth_map
      nth_upt wf_cfg_def)

lemma node_ids_wf: "wf_cfg c \<Longrightarrow> node_ids c = {0..<int (length (cc_Nodes c))}"
proof -
  assume wf: "wf_cfg c"
  have "node_ids c = set (map nc_ID (cc_Nodes c))" by (simp add: node_ids_def)
  also have "\<dots> = int ` {0..<length (cc_Nodes c)}" using wf by (simp add: wf_cfg_def)
  finally show ?thesis by (simp add: image_int_atLeastLessThan)
qed

lemma finite_node_ids [simp]: "finite (node_ids c)"
  by (simp add: node_ids_def)

lemma card_node_ids: "wf_cfg c \<Longrightarrow> card (node_ids c) = length (cc_Nodes c)"
  by (simp add: node_ids_wf)

lemma self_loop_sound: "self_loop i ns = Inr n \<Longrightarrow> n \<in> set ns \<and> nc_ID n = i"
  by (induction ns) (auto split: if_splits)

lemma self_loop_complete: "n \<in> set ns \<Longrightarrow> \<exists>m. self_loop (nc_ID n) ns = Inr m"
  by (induction ns) auto

lemma self_loop_distinct:
  "distinct (map nc_ID ns) \<Longrightarrow> n \<in> set ns \<Longrightarrow> self_loop (nc_ID n) ns = Inr n"
  by (induction ns) force+

lemma distinct_ids: "wf_cfg c \<Longrightarrow> distinct (map nc_ID (cc_Nodes c))"
  by (simp add: wf_cfg_def distinct_map)

lemma set_Peers: "nc_ID ` set (Peers c i) = node_ids c - {i}"
  by (auto simp: Peers_def node_ids_def)

end
