(* ===== verification/Raft.thy ===== *)
theory Raft
  imports Raft_Log Config
begin

text \<open>
  One Raft node: \<^verbatim>\<open>src/raft/raft.go\<close>. The struct is the record \<open>Raft\<close>; each section of
  code that runs under the node's mutex is one function from the node before to the
  node after, with its reply or the messages it causes. A goroutine that gives the
  mutex up around a remote call is split at that call (\<open>startElection\<close> and
  \<open>voteReply\<close>, \<open>sendAppendEntries_send\<close> and \<open>sendAppendEntries_recv\<close>). Terms
  and indices are \<open>int64\<close> in the source and \<open>int\<close> here. Random draws are arguments.
  Log output is left out.
\<close>

section \<open>Data\<close>

datatype RaftState = Follower | Candidate | Leader

text \<open>Durations in nanoseconds.\<close>

definition HeartbeatInterval :: int where "HeartbeatInterval = 100 * 1000000"
definition ElectionTimeoutMin :: int where "ElectionTimeoutMin = 150 * 1000000"
definition ElectionTimeoutMax :: int where "ElectionTimeoutMax = 300 * 1000000"
definition RPCTimeout :: int where "RPCTimeout = 50 * 1000000"

record ApplyMsg =
  am_Index :: int
  am_Term :: int
  am_Command :: string

text \<open>The messages of \<^verbatim>\<open>src/proto/raft.pb.go\<close>.\<close>

record RequestVoteArgs =
  rv_Term :: int
  rv_CandidateId :: int
  rv_LastLogIndex :: int
  rv_LastLogTerm :: int

record RequestVoteReply =
  rvr_Term :: int
  rvr_VoteGranted :: bool

record pb_LogEntry =
  pe_Index :: int
  pe_Term :: int
  pe_Command :: string

record AppendEntriesArgs =
  ae_Term :: int
  ae_LeaderId :: int
  ae_PrevLogIndex :: int
  ae_PrevLogTerm :: int
  ae_Entries :: "pb_LogEntry list"
  ae_LeaderCommit :: int

record AppendEntriesReply =
  aer_Term :: int
  aer_Success :: bool
  aer_ConflictIndex :: int
  aer_ConflictTerm :: int

record InstallSnapshotArgs =
  is_Term :: int
  is_LeaderId :: int
  is_LastIncludedIndex :: int
  is_LastIncludedTerm :: int
  is_Data :: string

record InstallSnapshotReply =
  isr_Term :: int

text \<open>
  The election timer: not yet created, running with a duration, or fired and not reset.
  The apply goroutine: not started, at the head of its outer or inner loop, blocked on
  the channel, parked in \<open>applyCond.Wait\<close>, or returned.
\<close>

datatype Timer = TimerNil | TimerArmed int | TimerFired

datatype ApplyPc =
    ApplyNotStarted | ApplyOuter | ApplyInner | ApplySending ApplyMsg | ApplyParked | ApplyExited

text \<open>
  \<open>rf_peerConns\<close> is the key set of the client map, \<open>rf_commitCh\<close> the sequence of
  messages sent on the channel so far, \<open>rf_applyPc\<close> stands for the goroutine that
  waits on \<open>applyCond\<close>.
\<close>

record Raft =
  rf_currentTerm :: int
  rf_votedFor :: int
  rf_log :: Log
  rf_commitIndex :: int
  rf_lastApplied :: int
  rf_nextIndex :: "int list"
  rf_matchIndex :: "int list"
  rf_id :: int
  rf_peers :: "NodeConfig list"
  rf_state :: RaftState
  rf_electionTimer :: Timer
  rf_peerConns :: "int list"
  rf_commitCh :: "ApplyMsg list"
  rf_applyPc :: ApplyPc
  rf_dead :: bool

section \<open>Helpers called with the mutex held\<close>

definition rand_Int63n :: "int \<Rightarrow> int \<Rightarrow> int" where
  "rand_Int63n r n = r mod n"  \<comment> \<open>\<open>r\<close> is the generator's draw\<close>

definition resetElectionTimer :: "int \<Rightarrow> Raft \<Rightarrow> Raft" where
  "resetElectionTimer r rf =
     rf\<lparr>rf_electionTimer :=
       TimerArmed (ElectionTimeoutMin + rand_Int63n r (ElectionTimeoutMax - ElectionTimeoutMin))\<rparr>"

definition becomeFollower :: "int \<Rightarrow> int \<Rightarrow> Raft \<Rightarrow> Raft" where
  "becomeFollower r term rf =
     resetElectionTimer r
       (rf\<lparr>rf_currentTerm := term, rf_state := Follower, rf_votedFor := - 1\<rparr>)"

definition applyCond_Signal :: "Raft \<Rightarrow> Raft" where
  "applyCond_Signal rf =
     rf\<lparr>rf_applyPc := (if rf_applyPc rf = ApplyParked then ApplyOuter else rf_applyPc rf)\<rparr>"

definition quorum :: "Raft \<Rightarrow> int" where
  "quorum rf = int (length (rf_peers rf) div 2 + 1)"

text \<open>The identifiers of the peers that the loops over \<open>rf.peers\<close> reach.\<close>

definition other_peers :: "Raft \<Rightarrow> int list" where
  "other_peers rf = map nc_ID (filter (\<lambda>p. nc_ID p \<noteq> rf_id rf) (rf_peers rf))"

definition becomeLeader :: "Raft \<Rightarrow> Raft go" where
  "becomeLeader rf =
     (let lastIndex = log_LastIndex (rf_log rf);
          n = length (rf_nextIndex rf)
      in if length (rf_matchIndex rf) < n
         then Inl (IndexOutOfRange (int (length (rf_matchIndex rf))) (int (length (rf_matchIndex rf))))
         else
           let rf1 = rf\<lparr>rf_state := Leader,
                        rf_nextIndex := replicate n (lastIndex + 1),
                        rf_matchIndex := replicate n 0 @ drop n (rf_matchIndex rf)\<rparr>;
               noop = \<lparr>le_Index = log_LastIndex (rf_log rf) + 1,
                       le_Term = rf_currentTerm rf, le_Command = ''noop''\<rparr>
           in go_bind (log_Append (rf_log rf1) noop) (\<lambda>l. Inr (rf1\<lparr>rf_log := l\<rparr>)))"

text \<open>The inner loop of \<open>advanceCommitIndex\<close>, with the running count.\<close>

fun count_replicas :: "int \<Rightarrow> Raft \<Rightarrow> NodeConfig list \<Rightarrow> int \<Rightarrow> int go" where
  "count_replicas n rf [] count = Inr count"
| "count_replicas n rf (p # ps) count =
     (if nc_ID p \<noteq> rf_id rf then
        (case slice_get (rf_matchIndex rf) (nc_ID p) of
           Inl e \<Rightarrow> Inl e
         | Inr m \<Rightarrow> count_replicas n rf ps (if m \<ge> n then count + 1 else count))
      else count_replicas n rf ps count)"

function advance_from :: "int \<Rightarrow> Raft \<Rightarrow> Raft go" where
  "advance_from n rf =
     (if n > rf_commitIndex rf then
        (case log_At (rf_log rf) n of (entry, ok) \<Rightarrow>
           if \<not> ok \<or> le_Term entry \<noteq> rf_currentTerm rf then advance_from (n - 1) rf
           else
             (case count_replicas n rf (rf_peers rf) 1 of
                Inl e \<Rightarrow> Inl e
              | Inr count \<Rightarrow>
                  if count \<ge> quorum rf
                  then Inr (applyCond_Signal (rf\<lparr>rf_commitIndex := n\<rparr>))
                  else advance_from (n - 1) rf))
      else Inr rf)"
  by pat_completeness auto
termination
  by (relation "measure (\<lambda>(n, rf). nat (n - rf_commitIndex rf))") auto

declare advance_from.simps [simp del]

definition advanceCommitIndex :: "Raft \<Rightarrow> Raft go" where
  "advanceCommitIndex rf = advance_from (log_LastIndex (rf_log rf)) rf"

definition peerClient :: "Raft \<Rightarrow> int \<Rightarrow> bool" where
  "peerClient rf i \<longleftrightarrow> i \<in> set (rf_peerConns rf)"

section \<open>Public API\<close>

definition NewPaused :: "int \<Rightarrow> ClusterConfig \<Rightarrow> Raft" where
  "NewPaused i cfg =
     (let n = length (cc_Nodes cfg)
      in \<lparr>rf_currentTerm = 0, rf_votedFor = - 1, rf_log = log_New, rf_commitIndex = 0,
          rf_lastApplied = 0, rf_nextIndex = replicate n 0, rf_matchIndex = replicate n 0,
          rf_id = i, rf_peers = cc_Nodes cfg, rf_state = Follower,
          rf_electionTimer = TimerNil, rf_peerConns = [], rf_commitCh = [],
          rf_applyPc = ApplyNotStarted, rf_dead = False\<rparr>)"

definition Resume :: "int \<Rightarrow> Raft \<Rightarrow> Raft" where
  "Resume r rf = (resetElectionTimer r rf)\<lparr>rf_applyPc := ApplyOuter\<rparr>"

definition SetPeerClient :: "int \<Rightarrow> Raft \<Rightarrow> Raft" where
  "SetPeerClient i rf = rf\<lparr>rf_peerConns := i # rf_peerConns rf\<rparr>"

text \<open>
  \<open>New\<close>: \<open>dial\<close> says whether \<open>grpc.NewClient\<close> accepts an address; a refusal ends
  the process (\<open>log.Fatalf\<close>), which is \<open>None\<close>.
\<close>

fun dial_peers :: "(string \<Rightarrow> bool) \<Rightarrow> NodeConfig list \<Rightarrow> Raft \<Rightarrow> Raft option" where
  "dial_peers dial [] rf = Some rf"
| "dial_peers dial (p # ps) rf =
     (if dial (nc_PeerAddr p) then dial_peers dial ps (SetPeerClient (nc_ID p) rf) else None)"

definition New :: "int \<Rightarrow> (string \<Rightarrow> bool) \<Rightarrow> int \<Rightarrow> ClusterConfig \<Rightarrow> Raft option" where
  "New r dial i cfg =
     map_option (Resume r) (dial_peers dial (Peers cfg i) (NewPaused i cfg))"

text \<open>
  \<open>Start\<close> returns the node after, the three results, and the peers for which a
  replication goroutine is started.
\<close>

definition Start :: "string \<Rightarrow> Raft \<Rightarrow> (Raft \<times> (int \<times> int \<times> bool) \<times> int list) go" where
  "Start command rf =
     (if rf_state rf \<noteq> Leader then Inr (rf, (0, rf_currentTerm rf, False), [])
      else
        let entry = \<lparr>le_Index = log_LastIndex (rf_log rf) + 1, le_Term = rf_currentTerm rf,
                     le_Command = command\<rparr>
        in go_bind (log_Append (rf_log rf) entry)
             (\<lambda>l. Inr (rf\<lparr>rf_log := l\<rparr>, (le_Index entry, le_Term entry, True), other_peers rf)))"

definition GetState :: "Raft \<Rightarrow> int \<times> bool" where
  "GetState rf = (rf_currentTerm rf, rf_state rf = Leader)"

definition Kill :: "Raft \<Rightarrow> Raft" where
  "Kill rf = applyCond_Signal (rf\<lparr>rf_dead := True\<rparr>)"

definition killed :: "Raft \<Rightarrow> bool" where
  "killed rf = rf_dead rf"

section \<open>RPC handlers\<close>

definition RequestVote ::
  "int \<Rightarrow> int \<Rightarrow> RequestVoteArgs \<Rightarrow> Raft \<Rightarrow> (Raft \<times> RequestVoteReply) go" where
  "RequestVote r1 r2 req rf =
     (if rv_Term req < rf_currentTerm rf
      then Inr (rf, \<lparr>rvr_Term = rf_currentTerm rf, rvr_VoteGranted = False\<rparr>)
      else
        let rf1 = (if rv_Term req > rf_currentTerm rf then becomeFollower r1 (rv_Term req) rf else rf);
            alreadyVoted = (rf_votedFor rf1 \<noteq> - 1 \<and> rf_votedFor rf1 \<noteq> rv_CandidateId req)
        in go_bind (log_LastTerm (rf_log rf1)) (\<lambda>lastTerm.
             let logOK = (rv_LastLogTerm req > lastTerm \<or>
                   (rv_LastLogTerm req = lastTerm \<and>
                    rv_LastLogIndex req \<ge> log_LastIndex (rf_log rf1)))
             in if alreadyVoted
                then Inr (rf1, \<lparr>rvr_Term = rf_currentTerm rf1, rvr_VoteGranted = False\<rparr>)
                else if \<not> logOK
                then Inr (rf1, \<lparr>rvr_Term = rf_currentTerm rf1, rvr_VoteGranted = False\<rparr>)
                else
                  let rf2 = resetElectionTimer r2 (rf1\<lparr>rf_votedFor := rv_CandidateId req\<rparr>)
                  in Inr (rf2, \<lparr>rvr_Term = rf_currentTerm rf2, rvr_VoteGranted = True\<rparr>)))"

definition from_pb :: "pb_LogEntry \<Rightarrow> LogEntry" where
  "from_pb e = \<lparr>le_Index = pe_Index e, le_Term = pe_Term e, le_Command = pe_Command e\<rparr>"

definition to_pb :: "LogEntry \<Rightarrow> pb_LogEntry" where
  "to_pb e = \<lparr>pe_Index = le_Index e, pe_Term = le_Term e, pe_Command = le_Command e\<rparr>"

text \<open>The merge loop of \<open>AppendEntries\<close>; \<open>idx\<close> is \<open>PrevLogIndex + i + 1\<close>.\<close>

fun merge_entries :: "int \<Rightarrow> pb_LogEntry list \<Rightarrow> Log \<Rightarrow> Log go" where
  "merge_entries idx [] l = Inr l"
| "merge_entries idx (pbEntry # rest) l =
     (case log_At l idx of (existing, ok) \<Rightarrow>
        if ok \<and> le_Term existing = pe_Term pbEntry then merge_entries (idx + 1) rest l
        else
          (case log_Append (if ok then log_Truncate l idx else l) (from_pb pbEntry) of
             Inl e \<Rightarrow> Inl e
           | Inr l' \<Rightarrow> merge_entries (idx + 1) rest l'))"

definition AppendEntries ::
  "int \<Rightarrow> AppendEntriesArgs \<Rightarrow> Raft \<Rightarrow> (Raft \<times> AppendEntriesReply) go" where
  "AppendEntries r req rf =
     (let reply = (\<lambda>t ok. \<lparr>aer_Term = t, aer_Success = ok, aer_ConflictIndex = 0, aer_ConflictTerm = 0\<rparr>)
      in if ae_Term req < rf_currentTerm rf then Inr (rf, reply (rf_currentTerm rf) False)
         else
           let rf1 = (if ae_Term req > rf_currentTerm rf then becomeFollower r (ae_Term req) rf
                      else resetElectionTimer r rf);
               inconsistent = (ae_PrevLogIndex req > 0 \<and>
                 (case log_At (rf_log rf1) (ae_PrevLogIndex req) of (existing, ok) \<Rightarrow>
                    \<not> ok \<or> le_Term existing \<noteq> ae_PrevLogTerm req))
           in if inconsistent then Inr (rf1, reply (rf_currentTerm rf1) False)
              else
                go_bind (merge_entries (ae_PrevLogIndex req + 1) (ae_Entries req) (rf_log rf1)) (\<lambda>l.
                  let rf2 = rf1\<lparr>rf_log := l\<rparr>;
                      rf3 = (if ae_LeaderCommit req > rf_commitIndex rf2
                             then applyCond_Signal
                               (rf2\<lparr>rf_commitIndex :=
                                  (if log_LastIndex l < ae_LeaderCommit req
                                   then log_LastIndex l else ae_LeaderCommit req)\<rparr>)
                             else rf2)
                  in Inr (rf3, reply (rf_currentTerm rf3) True)))"

definition InstallSnapshot :: "InstallSnapshotArgs \<Rightarrow> Raft \<Rightarrow> Raft \<times> InstallSnapshotReply" where
  "InstallSnapshot req rf = (rf, \<lparr>isr_Term = rf_currentTerm rf\<rparr>)"

section \<open>Elections\<close>

text \<open>
  \<open>startElection\<close> up to the point where the goroutines run: the node after, and the
  request with the peers it goes to (none when the call returns early).
\<close>

definition startElection :: "int \<Rightarrow> Raft \<Rightarrow> (Raft \<times> (RequestVoteArgs \<times> int list) option) go" where
  "startElection r rf =
     (if rf_state rf = Leader \<or> rf_dead rf then Inr (rf, None)
      else
        let rf1 = resetElectionTimer r
              (rf\<lparr>rf_currentTerm := rf_currentTerm rf + 1, rf_state := Candidate,
                  rf_votedFor := rf_id rf\<rparr>)
        in go_bind (log_LastTerm (rf_log rf1)) (\<lambda>lastTerm.
             Inr (rf1, Some (\<lparr>rv_Term = rf_currentTerm rf1, rv_CandidateId = rf_id rf1,
                             rv_LastLogIndex = log_LastIndex (rf_log rf1),
                             rv_LastLogTerm = lastTerm\<rparr>, other_peers rf1))))"

text \<open>
  The goroutine of one peer once its reply is in: \<open>term\<close> and \<open>votes\<close> are the captured
  variables. Returns the node, the new count, and whether the node became leader.
\<close>

definition voteReply ::
  "int \<Rightarrow> int \<Rightarrow> RequestVoteReply \<Rightarrow> int \<Rightarrow> Raft \<Rightarrow> (Raft \<times> int \<times> bool) go" where
  "voteReply r term reply votes rf =
     (if rvr_Term reply > rf_currentTerm rf
      then Inr (becomeFollower r (rvr_Term reply) rf, votes, False)
      else if rf_state rf \<noteq> Candidate \<or> rf_currentTerm rf \<noteq> term then Inr (rf, votes, False)
      else if rvr_VoteGranted reply then
        (if votes + 1 \<ge> quorum rf
         then go_bind (becomeLeader rf) (\<lambda>rf'. Inr (rf', votes + 1, True))
         else Inr (rf, votes + 1, False))
      else Inr (rf, votes, False))"

section \<open>Replication\<close>

text \<open>One round of \<open>sendHeartbeats\<close>: the peers to send to, or none when the loop ends.\<close>

definition sendHeartbeats :: "Raft \<Rightarrow> int list option" where
  "sendHeartbeats rf =
     (if killed rf then None
      else if rf_state rf \<noteq> Leader then None
      else Some (other_peers rf))"

text \<open>
  One iteration of \<open>sendAppendEntries\<close> up to the remote call. The variables that
  survive the call (\<open>prevLogIndex\<close>, the number of entries, \<open>sentTerm\<close>) are fields of
  the request.
\<close>

definition sendAppendEntries_send :: "int \<Rightarrow> Raft \<Rightarrow> AppendEntriesArgs option go" where
  "sendAppendEntries_send peerID rf =
     (if rf_state rf \<noteq> Leader then Inr None
      else
        go_bind (slice_get (rf_nextIndex rf) peerID) (\<lambda>ni.
          let prevLogIndex = ni - 1;
              prevLogTerm =
                (if prevLogIndex > 0 then
                   (case log_At (rf_log rf) prevLogIndex of (e, ok) \<Rightarrow> if ok then le_Term e else 0)
                 else 0);
              ilogEntries = log_Entries (rf_log rf) ni (log_LastIndex (rf_log rf) + 1)
          in Inr (Some \<lparr>ae_Term = rf_currentTerm rf, ae_LeaderId = rf_id rf,
                       ae_PrevLogIndex = prevLogIndex, ae_PrevLogTerm = prevLogTerm,
                       ae_Entries = map to_pb ilogEntries,
                       ae_LeaderCommit = rf_commitIndex rf\<rparr>)))"

text \<open>The rest of the iteration; the flag says whether the loop goes round again.\<close>

definition sendAppendEntries_recv ::
  "int \<Rightarrow> int \<Rightarrow> AppendEntriesArgs \<Rightarrow> AppendEntriesReply \<Rightarrow> Raft \<Rightarrow> (Raft \<times> bool) go" where
  "sendAppendEntries_recv r peerID args reply rf =
     (if aer_Term reply > rf_currentTerm rf
      then Inr (becomeFollower r (aer_Term reply) rf, False)
      else if rf_state rf \<noteq> Leader \<or> rf_currentTerm rf \<noteq> ae_Term args then Inr (rf, False)
      else if aer_Success reply then
        (let newMatch = ae_PrevLogIndex args + int (length (ae_Entries args))
         in go_bind (slice_get (rf_matchIndex rf) peerID) (\<lambda>m.
              go_bind
                (if newMatch > m
                 then go_bind (slice_set (rf_matchIndex rf) peerID newMatch) (\<lambda>mi.
                        go_bind (slice_set (rf_nextIndex rf) peerID (newMatch + 1)) (\<lambda>nx.
                          Inr (rf\<lparr>rf_matchIndex := mi, rf_nextIndex := nx\<rparr>)))
                 else Inr rf) (\<lambda>rf1.
              let oldCommit = rf_commitIndex rf1
              in go_bind (advanceCommitIndex rf1) (\<lambda>rf2.
                   Inr (rf2, rf_commitIndex rf2 > oldCommit)))))
      else
        go_bind (slice_get (rf_nextIndex rf) peerID) (\<lambda>ni.
          if ni > 1
          then go_bind (slice_set (rf_nextIndex rf) peerID (ni - 1)) (\<lambda>nx.
                 Inr (rf\<lparr>rf_nextIndex := nx\<rparr>, True))
          else Inr (rf, True)))"

text \<open>
  The whole loop against a peer that answers each request by \<open>rpc\<close>, with a bound on
  the number of rounds; \<open>None\<close> when the bound is used up. \<open>rpc\<close> threads the peer's
  state and returns no reply when the call fails.
\<close>

fun sendAppendEntries ::
  "nat \<Rightarrow> int \<Rightarrow> int \<Rightarrow> (AppendEntriesArgs \<Rightarrow> 'p \<Rightarrow> 'p \<times> AppendEntriesReply option) \<Rightarrow> Raft \<times> 'p
     \<Rightarrow> (Raft \<times> 'p) go option" where
  "sendAppendEntries 0 r peerID rpc (rf, p) = None"
| "sendAppendEntries (Suc fuel) r peerID rpc (rf, p) =
     (case sendAppendEntries_send peerID rf of
        Inl e \<Rightarrow> Some (Inl e)
      | Inr None \<Rightarrow> Some (Inr (rf, p))
      | Inr (Some args) \<Rightarrow>
          (case rpc args p of
             (p', None) \<Rightarrow> Some (Inr (rf, p'))
           | (p', Some reply) \<Rightarrow>
               (case sendAppendEntries_recv r peerID args reply rf of
                  Inl e \<Rightarrow> Some (Inl e)
                | Inr (rf', again) \<Rightarrow>
                    if again then sendAppendEntries fuel r peerID rpc (rf', p')
                    else Some (Inr (rf', p')))))"

section \<open>Remote calls\<close>

text \<open>
  \<open>client\<close> is what the connection to a peer returns: an error (a timeout included) or
  the peer's reply. Without a client for the peer the call returns no reply and no error.
\<close>

definition callRequestVote ::
  "(int \<Rightarrow> RequestVoteArgs \<Rightarrow> string + RequestVoteReply) \<Rightarrow> Raft \<Rightarrow> int \<Rightarrow> RequestVoteArgs
     \<Rightarrow> string + RequestVoteReply option" where
  "callRequestVote client rf peerID args =
     (if \<not> peerClient rf peerID then Inr None else map_sum id Some (client peerID args))"

definition callAppendEntries ::
  "(int \<Rightarrow> AppendEntriesArgs \<Rightarrow> string + AppendEntriesReply) \<Rightarrow> Raft \<Rightarrow> int \<Rightarrow> AppendEntriesArgs
     \<Rightarrow> string + AppendEntriesReply option" where
  "callAppendEntries client rf peerID args =
     (if \<not> peerClient rf peerID then Inr None else map_sum id Some (client peerID args))"

section \<open>The apply goroutine\<close>

text \<open>What the goroutine does from where it is to where it gives the mutex up or loops.\<close>

definition apply_park :: "Raft \<Rightarrow> Raft" where
  "apply_park rf = rf\<lparr>rf_applyPc := (if \<not> rf_dead rf then ApplyParked else ApplyOuter)\<rparr>"

definition applyLoop :: "Raft \<Rightarrow> Raft" where
  "applyLoop rf =
     (case rf_applyPc rf of
        ApplyOuter \<Rightarrow> rf\<lparr>rf_applyPc := (if \<not> rf_dead rf then ApplyInner else ApplyExited)\<rparr>
      | ApplyInner \<Rightarrow>
          (if rf_lastApplied rf < rf_commitIndex rf then
             let rf1 = rf\<lparr>rf_lastApplied := rf_lastApplied rf + 1\<rparr>
             in (case log_At (rf_log rf1) (rf_lastApplied rf1) of (entry, ok) \<Rightarrow>
                   if \<not> ok then apply_park rf1
                   else rf1\<lparr>rf_applyPc := ApplySending
                          \<lparr>am_Index = le_Index entry, am_Term = le_Term entry,
                           am_Command = le_Command entry\<rparr>\<rparr>)
           else apply_park rf)
      | ApplySending msg \<Rightarrow> rf\<lparr>rf_commitCh := rf_commitCh rf @ [msg], rf_applyPc := ApplyInner\<rparr>
      | _ \<Rightarrow> rf)"

end
