(* ===== verification/Raft_Node.thy ===== *)
theory Raft_Node
  imports Raft
begin

text \<open>
  What one Raft node guarantees on its own, whatever messages it receives: the
  replication merge against a list-level specification, how each operation changes
  the node, and the invariants that the comments of \<^verbatim>\<open>src/raft/raft.go\<close> state for a
  single node.
\<close>

section \<open>The merge loop against its specification\<close>

text \<open>
  The log that the leader's entries ask for: keep what agrees by term, and at the first
  position that disagrees or is missing put all remaining entries in place of the rest.
\<close>

fun merge_spec :: "nat \<Rightarrow> LogEntry list \<Rightarrow> LogEntry list \<Rightarrow> LogEntry list" where
  "merge_spec p [] L = L"
| "merge_spec p (e # es) L =
     (if p < length L \<and> le_Term (L ! p) = le_Term e then merge_spec (Suc p) es L
      else take p L @ e # es)"

text \<open>The entries carry the indices that follow position \<open>p\<close>.\<close>

definition consecutive :: "nat \<Rightarrow> pb_LogEntry list \<Rightarrow> bool" where
  "consecutive p es \<longleftrightarrow> (\<forall>k < length es. pe_Index (es ! k) = int (p + k) + 1)"

lemma consecutive_Cons:
  "consecutive p (e # es) \<longleftrightarrow> pe_Index e = int p + 1 \<and> consecutive (Suc p) es"
  by (auto simp: consecutive_def All_less_Suc2)

lemma from_pb_simps [simp]:
  "le_Index (from_pb e) = pe_Index e" "le_Term (from_pb e) = pe_Term e"
  "le_Command (from_pb e) = pe_Command e" "from_pb (to_pb x) = x"
  by (simp_all add: from_pb_def to_pb_def)

lemma from_to_pb_id [simp]: "from_pb \<circ> to_pb = id"
  by (rule ext) simp

lemma merge_spec_at_end: "merge_spec (length L) es L = L @ es"
  by (cases es) simp_all

lemma merge_entries_at_end:
  assumes "log_wf l" and "consecutive (length (log_list l)) es"
  shows "\<exists>l'. merge_entries (int (length (log_list l)) + 1) es l = Inr l' \<and> log_wf l' \<and>
    log_list l' = log_list l @ map from_pb es"
  using assms
proof (induction es arbitrary: l)
  case Nil
  then show ?case by simp
next
  case (Cons e es)
  from Cons.prems obtain l1 where l1: "log_Append l (from_pb e) = Inr l1" "log_wf l1"
      "log_list l1 = log_list l @ [from_pb e]"
    using lg.append_ok [of l "from_pb e"] by (auto simp: consecutive_Cons)
  have "consecutive (length (log_list l1)) es"
    using Cons.prems(2) l1(3) by (simp add: consecutive_Cons)
  from Cons.IH [OF l1(2) this] show ?case
    using Cons.prems(1) l1 by (auto simp: lg.at_els algebra_simps)
qed

lemma merge_entries_spec:
  assumes "log_wf l" and "p \<le> length (log_list l)" and "consecutive p es"
  shows "\<exists>l'. merge_entries (int p + 1) es l = Inr l' \<and> log_wf l' \<and>
    log_list l' = merge_spec p (map from_pb es) (log_list l)"
  using assms(2,3)
proof (induction es arbitrary: p)
  case Nil
  then show ?case using assms(1) by simp
next
  case (Cons e es)
  note cons = Cons.prems(2) [unfolded consecutive_Cons]
  show ?case
  proof (cases "p < length (log_list l)")
    case False
    then have "p = length (log_list l)" using Cons.prems(1) by simp
    then show ?thesis
      using merge_entries_at_end [OF assms(1), of "e # es"] Cons.prems(2)
      by (simp add: merge_spec_at_end)
  next
    case True
    then have at: "log_At l (int p + 1) = (log_list l ! p, True)"
      using assms(1) by (simp add: lg.at_els)
    show ?thesis
    proof (cases "le_Term (log_list l ! p) = pe_Term e")
      case match: True
      then show ?thesis
        using Cons.IH [of "Suc p"] True cons at by (simp add: algebra_simps)
    next
      case conflict: False
      obtain l1 where l1: "log_Append (log_Truncate l (int p + 1)) (from_pb e) = Inr l1"
          "log_wf l1" "log_list l1 = take p (log_list l) @ [from_pb e]"
        using lg.replace_conflict [OF assms(1), of "int p + 1" "from_pb e"] True cons assms(1)
        by (auto simp: lg.last_index_els)
      have "length (log_list l1) = Suc p" using l1(3) True by simp
      then show ?thesis
        using merge_entries_at_end [OF l1(2), of es] cons l1 True conflict at
        by (auto simp: algebra_simps)
    qed
  qed
qed

text \<open>
  If the log agrees with a reference log \<open>M\<close> up to \<open>p\<close> and every common term forces
  agreement below it, merging \<open>M\<close>'s next entries yields a log that agrees with \<open>M\<close> up
  to their end, and is either the old log or a prefix of \<open>M\<close>.
\<close>

lemma merge_spec_agrees:
  assumes "p \<le> length L" and "take p L = take p M" and "p + length es \<le> length M"
    and "es = take (length es) (drop p M)"
    and "\<And>k. k < length L \<Longrightarrow> k < length M \<Longrightarrow> le_Term (L ! k) = le_Term (M ! k) \<Longrightarrow>
      take (Suc k) L = take (Suc k) M"
  shows "take (p + length es) (merge_spec p es L) = take (p + length es) M \<and>
    (merge_spec p es L = L \<or> merge_spec p es L = take (p + length es) M)"
  using assms(1-4)
proof (induction es arbitrary: p)
  case Nil
  then show ?case by simp
next
  case (Cons e es)
  have pM: "p < length M" using Cons.prems(3) by simp
  have "e # es = M ! p # take (length es) (drop (Suc p) M)"
    using Cons.prems(4) Cons_nth_drop_Suc [OF pM] by (metis length_Cons take_Suc_Cons)
  then have e: "e = M ! p" and rest: "es = take (length es) (drop (Suc p) M)" by simp_all
  show ?case
  proof (cases "p < length L \<and> le_Term (L ! p) = le_Term e")
    case True
    then have "take (Suc p) L = take (Suc p) M" using assms(5) pM e by blast
    with True Cons.IH [of "Suc p"] rest Cons.prems(3) show ?thesis by simp
  next
    case False
    have "take p L @ e # es = take p M @ take (Suc (length es)) (drop p M)"
      using Cons.prems(2,4) by simp
    also have "\<dots> = take (p + length (e # es)) M" by (simp only: take_add length_Cons)
    finally have "merge_spec p (e # es) L = take (p + length (e # es)) M"
      using False by (simp only: merge_spec.simps if_False)
    then show ?thesis by simp
  qed
qed

text \<open>An up-to-date log is left alone: replaying a request changes nothing.\<close>

lemma merge_spec_present:
  assumes "p + length es \<le> length L" and "\<And>k. k < length es \<Longrightarrow> le_Term (L ! (p + k)) = le_Term (es ! k)"
  shows "merge_spec p es L = L"
  using assms
proof (induction es arbitrary: p)
  case (Cons e es)
  have "le_Term (L ! p) = le_Term e" using Cons.prems(2) [of 0] by simp
  moreover have "merge_spec (Suc p) es L = L"
    using Cons.prems(1) Cons.prems(2) [of "Suc _"] by (intro Cons.IH) simp_all
  ultimately show ?case using Cons.prems(1) by simp
qed simp

lemma length_merge_spec: "p \<le> length L \<Longrightarrow> p + length es \<le> length (merge_spec p es L)"
proof (induction es arbitrary: p)
  case (Cons e es)
  then show ?case using Cons.IH [of "Suc p"] by auto
qed simp

section \<open>How each operation changes the node\<close>

lemmas timer_defs = resetElectionTimer_def becomeFollower_def applyCond_Signal_def

text \<open>
  The part of the node that elections leave alone, as one equation between nodes.
\<close>

definition same_data :: "Raft \<Rightarrow> Raft \<Rightarrow> bool" where
  "same_data rf rf' \<longleftrightarrow> rf_log rf' = rf_log rf \<and> rf_commitIndex rf' = rf_commitIndex rf \<and>
     rf_lastApplied rf' = rf_lastApplied rf \<and> rf_nextIndex rf' = rf_nextIndex rf \<and>
     rf_matchIndex rf' = rf_matchIndex rf \<and> rf_id rf' = rf_id rf \<and> rf_peers rf' = rf_peers rf \<and>
     rf_commitCh rf' = rf_commitCh rf \<and> rf_applyPc rf' = rf_applyPc rf \<and> rf_dead rf' = rf_dead rf"

lemma same_data_refl [simp]: "same_data rf rf"
  by (simp add: same_data_def)

lemma same_data_becomeFollower [simp]: "same_data rf (becomeFollower r t rf)"
  by (simp add: same_data_def timer_defs)

lemma becomeFollower_simps [simp]:
  "rf_currentTerm (becomeFollower r t rf) = t" "rf_state (becomeFollower r t rf) = Follower"
  "rf_votedFor (becomeFollower r t rf) = - 1" "rf_log (becomeFollower r t rf) = rf_log rf"
  "rf_commitIndex (becomeFollower r t rf) = rf_commitIndex rf"
  "rf_lastApplied (becomeFollower r t rf) = rf_lastApplied rf"
  "rf_nextIndex (becomeFollower r t rf) = rf_nextIndex rf"
  "rf_matchIndex (becomeFollower r t rf) = rf_matchIndex rf"
  "rf_id (becomeFollower r t rf) = rf_id rf" "rf_peers (becomeFollower r t rf) = rf_peers rf"
  "rf_commitCh (becomeFollower r t rf) = rf_commitCh rf"
  "rf_applyPc (becomeFollower r t rf) = rf_applyPc rf"
  "rf_dead (becomeFollower r t rf) = rf_dead rf"
  by (simp_all add: timer_defs)

lemma resetElectionTimer_simps [simp]:
  "rf_currentTerm (resetElectionTimer r rf) = rf_currentTerm rf"
  "rf_state (resetElectionTimer r rf) = rf_state rf"
  "rf_votedFor (resetElectionTimer r rf) = rf_votedFor rf"
  "rf_log (resetElectionTimer r rf) = rf_log rf"
  "rf_commitIndex (resetElectionTimer r rf) = rf_commitIndex rf"
  "rf_lastApplied (resetElectionTimer r rf) = rf_lastApplied rf"
  "rf_nextIndex (resetElectionTimer r rf) = rf_nextIndex rf"
  "rf_matchIndex (resetElectionTimer r rf) = rf_matchIndex rf"
  "rf_id (resetElectionTimer r rf) = rf_id rf" "rf_peers (resetElectionTimer r rf) = rf_peers rf"
  "rf_commitCh (resetElectionTimer r rf) = rf_commitCh rf"
  "rf_applyPc (resetElectionTimer r rf) = rf_applyPc rf"
  "rf_dead (resetElectionTimer r rf) = rf_dead rf"
  by (simp_all add: timer_defs)

lemma applyCond_Signal_simps [simp]:
  "rf_currentTerm (applyCond_Signal rf) = rf_currentTerm rf"
  "rf_state (applyCond_Signal rf) = rf_state rf"
  "rf_votedFor (applyCond_Signal rf) = rf_votedFor rf"
  "rf_log (applyCond_Signal rf) = rf_log rf"
  "rf_commitIndex (applyCond_Signal rf) = rf_commitIndex rf"
  "rf_lastApplied (applyCond_Signal rf) = rf_lastApplied rf"
  "rf_nextIndex (applyCond_Signal rf) = rf_nextIndex rf"
  "rf_matchIndex (applyCond_Signal rf) = rf_matchIndex rf"
  "rf_id (applyCond_Signal rf) = rf_id rf" "rf_peers (applyCond_Signal rf) = rf_peers rf"
  "rf_commitCh (applyCond_Signal rf) = rf_commitCh rf"
  "rf_dead (applyCond_Signal rf) = rf_dead rf"
  "rf_electionTimer (applyCond_Signal rf) = rf_electionTimer rf"
  by (simp_all add: timer_defs)

text \<open>
  The order on nodes that every operation respects: identity and configuration are
  fixed, the term never goes down, and within a term a vote stays where it is and the
  only change of role is from candidate to leader.
\<close>

definition raft_evolves :: "Raft \<Rightarrow> Raft \<Rightarrow> bool" where
  "raft_evolves rf rf' \<longleftrightarrow>
     rf_id rf' = rf_id rf \<and> rf_peers rf' = rf_peers rf \<and> rf_currentTerm rf \<le> rf_currentTerm rf' \<and>
     (rf_currentTerm rf' = rf_currentTerm rf \<longrightarrow>
        (rf_votedFor rf \<noteq> - 1 \<longrightarrow> rf_votedFor rf' = rf_votedFor rf) \<and>
        (rf_state rf' = rf_state rf \<or> rf_state rf = Candidate \<and> rf_state rf' = Leader)) \<and>
     (rf_currentTerm rf < rf_currentTerm rf' \<longrightarrow> rf_state rf' \<noteq> Leader)"

lemma raft_evolves_refl [simp]: "raft_evolves rf rf"
  by (simp add: raft_evolves_def)

lemma raft_evolves_trans_term:
  "raft_evolves a b \<Longrightarrow> raft_evolves b c \<Longrightarrow> rf_currentTerm a \<le> rf_currentTerm c"
  by (auto simp: raft_evolves_def)

lemma raft_evolves_becomeFollower:
  "rf_currentTerm rf < t \<Longrightarrow> raft_evolves rf (becomeFollower r t rf)"
  by (simp add: raft_evolves_def)

text \<open>The candidate's log is at least as up to date (section 5.4 of the Raft paper).\<close>

definition last_term :: "LogEntry list \<Rightarrow> int" where
  "last_term L = (if L = [] then 0 else le_Term (last L))"

definition up_to_date :: "int \<Rightarrow> int \<Rightarrow> LogEntry list \<Rightarrow> bool" where
  "up_to_date lastIndex lastTerm L \<longleftrightarrow>
     lastTerm > last_term L \<or> lastTerm = last_term L \<and> lastIndex \<ge> int (length L)"

lemma log_LastTerm_last_term: "log_wf l \<Longrightarrow> log_LastTerm l = Inr (last_term (log_list l))"
  by (simp add: lg.last_term_els last_term_def)

lemma RequestVote_total: "log_wf (rf_log rf) \<Longrightarrow> \<exists>rf' reply. RequestVote r1 r2 req rf = Inr (rf', reply)"
  by (auto simp: RequestVote_def Let_def log_LastTerm_last_term)

lemma RequestVote_effect:
  assumes "RequestVote r1 r2 req rf = Inr (rf', reply)" and "log_wf (rf_log rf)"
  shows "same_data rf rf' \<and> raft_evolves rf rf' \<and> rvr_Term reply = rf_currentTerm rf' \<and>
    (rvr_VoteGranted reply \<longrightarrow> rf_currentTerm rf' = rv_Term req \<and>
       rf_votedFor rf' = rv_CandidateId req \<and>
       up_to_date (rv_LastLogIndex req) (rv_LastLogTerm req) (log_list (rf_log rf)))"
  using assms by (auto simp: RequestVote_def Let_def same_data_def raft_evolves_def
      log_LastTerm_last_term up_to_date_def lg.last_index_els split: if_splits)

lemma RequestVote_state:
  assumes "RequestVote r1 r2 req rf = Inr (rf', reply)" and "log_wf (rf_log rf)"
  shows "rf_state rf' = (if rf_currentTerm rf < rv_Term req then Follower else rf_state rf) \<and>
    rf_currentTerm rf' = max (rf_currentTerm rf) (rv_Term req) \<and>
    (rf_votedFor rf' = rf_votedFor rf \<or> rf_votedFor rf' = - 1 \<or> rf_votedFor rf' = rv_CandidateId req)"
  using assms by (auto simp: RequestVote_def Let_def log_LastTerm_last_term split: if_splits)

lemma startElection_effect:
  assumes "startElection r rf = Inr (rf', out)" and "log_wf (rf_log rf)"
  shows "same_data rf rf' \<and> raft_evolves rf rf' \<and>
    (out = None \<and> rf' = rf \<or>
     out = Some (\<lparr>rv_Term = rf_currentTerm rf + 1, rv_CandidateId = rf_id rf,
       rv_LastLogIndex = int (length (log_list (rf_log rf))),
       rv_LastLogTerm = last_term (log_list (rf_log rf))\<rparr>, other_peers rf) \<and>
     rf_currentTerm rf' = rf_currentTerm rf + 1 \<and> rf_state rf' = Candidate \<and>
     rf_votedFor rf' = rf_id rf)"
  using assms by (auto simp: startElection_def Let_def same_data_def raft_evolves_def
      log_LastTerm_last_term lg.last_index_els other_peers_def resetElectionTimer_def split: if_splits)

lemma becomeLeader_effect:
  assumes "log_wf (rf_log rf)" and "length (rf_matchIndex rf) = length (rf_nextIndex rf)"
  shows "\<exists>l. becomeLeader rf = Inr (rf\<lparr>rf_state := Leader,
      rf_nextIndex := replicate (length (rf_nextIndex rf)) (int (length (log_list (rf_log rf))) + 1),
      rf_matchIndex := replicate (length (rf_nextIndex rf)) 0, rf_log := l\<rparr>) \<and> log_wf l \<and>
    log_list l = log_list (rf_log rf) @
      [\<lparr>le_Index = int (length (log_list (rf_log rf))) + 1, le_Term = rf_currentTerm rf,
        le_Command = ''noop''\<rparr>]"
  using lg.append_ok [OF assms(1), of "\<lparr>le_Index = int (length (log_list (rf_log rf))) + 1,
      le_Term = rf_currentTerm rf, le_Command = ''noop''\<rparr>"] assms
  by (auto simp: becomeLeader_def Let_def lg.last_index_els)

lemma voteReply_effect:
  assumes "voteReply r term reply votes rf = Inr (rf', votes', won)"
    and "log_wf (rf_log rf)" and "length (rf_matchIndex rf) = length (rf_nextIndex rf)"
  shows "raft_evolves rf rf' \<and>
    (won \<and> votes' = votes + 1 \<and> rvr_VoteGranted reply \<and> quorum rf \<le> votes' \<and>
       rf_state rf = Candidate \<and> rf_currentTerm rf = term \<and> becomeLeader rf = Inr rf' \<or>
     \<not> won \<and> same_data rf rf' \<and> rf_state rf' \<noteq> Leader \<and> rf_currentTerm rf < rf_currentTerm rf' \<and>
       votes' = votes \<and> rf' = becomeFollower r (rvr_Term reply) rf \<or>
     \<not> won \<and> rf' = rf \<and> (votes' = votes \<or> votes' = votes + 1 \<and> rvr_VoteGranted reply \<and>
       rf_state rf = Candidate \<and> rf_currentTerm rf = term))"
  using assms becomeLeader_effect [OF assms(2,3)]
  by (auto simp: voteReply_def raft_evolves_def split: if_splits)

lemma voteReply_total:
  assumes "log_wf (rf_log rf)" and "length (rf_matchIndex rf) = length (rf_nextIndex rf)"
  shows "\<exists>rf' votes' won. voteReply r term reply votes rf = Inr (rf', votes', won)"
  using becomeLeader_effect [OF assms] by (auto simp: voteReply_def)

lemma Start_effect:
  assumes "log_wf (rf_log rf)"
  shows "\<exists>rf' res ps. Start c rf = Inr (rf', res, ps) \<and>
    (rf_state rf \<noteq> Leader \<and> rf' = rf \<and> res = (0, rf_currentTerm rf, False) \<and> ps = [] \<or>
     rf_state rf = Leader \<and>
       res = (int (length (log_list (rf_log rf))) + 1, rf_currentTerm rf, True) \<and>
       ps = other_peers rf \<and>
       (\<exists>l. rf' = rf\<lparr>rf_log := l\<rparr> \<and> log_wf l \<and> log_list l = log_list (rf_log rf) @
         [\<lparr>le_Index = int (length (log_list (rf_log rf))) + 1, le_Term = rf_currentTerm rf,
           le_Command = c\<rparr>]))"
  using lg.append_ok [OF assms, of "\<lparr>le_Index = int (length (log_list (rf_log rf))) + 1,
      le_Term = rf_currentTerm rf, le_Command = c\<rparr>"] assms
  by (auto simp: Start_def Let_def lg.last_index_els)

text \<open>
  \<open>AppendEntries\<close> for a request whose entries carry consecutive indices: it never
  panics, a rejection leaves the data alone, and an acceptance merges.
\<close>

definition ae_wf :: "AppendEntriesArgs \<Rightarrow> bool" where
  "ae_wf req \<longleftrightarrow> 0 \<le> ae_PrevLogIndex req \<and> consecutive (nat (ae_PrevLogIndex req)) (ae_Entries req)"

definition ae_prev :: "AppendEntriesArgs \<Rightarrow> nat" where
  "ae_prev req = nat (ae_PrevLogIndex req)"

text \<open>The log passes the consistency check at \<open>PrevLogIndex\<close>.\<close>

definition prev_matches :: "AppendEntriesArgs \<Rightarrow> LogEntry list \<Rightarrow> bool" where
  "prev_matches req L \<longleftrightarrow> ae_prev req = 0 \<or>
     ae_prev req \<le> length L \<and> le_Term (L ! (ae_prev req - 1)) = ae_PrevLogTerm req"

lemma prev_matches_le: "prev_matches req L \<Longrightarrow> ae_prev req \<le> length L"
  by (auto simp: prev_matches_def)

lemma prev_check:
  assumes "log_wf l" and "0 \<le> ae_PrevLogIndex req"
  shows "(ae_PrevLogIndex req > 0 \<and> (case log_At l (ae_PrevLogIndex req) of (existing, ok) \<Rightarrow>
       \<not> ok \<or> le_Term existing \<noteq> ae_PrevLogTerm req)) \<longleftrightarrow> \<not> prev_matches req (log_list l)"
  using assms by (auto simp: lg.at_els prev_matches_def ae_prev_def nat_diff_distrib)

lemma AppendEntries_stale:
  "ae_Term req < rf_currentTerm rf \<Longrightarrow> AppendEntries r req rf =
     Inr (rf, \<lparr>aer_Term = rf_currentTerm rf, aer_Success = False, aer_ConflictIndex = 0,
              aer_ConflictTerm = 0\<rparr>)"
  by (simp add: AppendEntries_def)

lemma AppendEntries_accept:
  assumes wf: "log_wf (rf_log rf)" and req: "ae_wf req" and "rf_currentTerm rf \<le> ae_Term req"
    and prev: "prev_matches req (log_list (rf_log rf))"
  shows "\<exists>rf'. AppendEntries r req rf =
      Inr (rf', \<lparr>aer_Term = ae_Term req, aer_Success = True, aer_ConflictIndex = 0, aer_ConflictTerm = 0\<rparr>) \<and>
    rf_currentTerm rf' = ae_Term req \<and> log_wf (rf_log rf') \<and>
    log_list (rf_log rf') = merge_spec (ae_prev req) (map from_pb (ae_Entries req)) (log_list (rf_log rf)) \<and>
    rf_commitIndex rf' = (if ae_LeaderCommit req > rf_commitIndex rf
      then min (ae_LeaderCommit req) (int (length (log_list (rf_log rf')))) else rf_commitIndex rf) \<and>
    rf_lastApplied rf' = rf_lastApplied rf \<and> rf_nextIndex rf' = rf_nextIndex rf \<and>
    rf_matchIndex rf' = rf_matchIndex rf \<and> rf_commitCh rf' = rf_commitCh rf \<and>
    rf_dead rf' = rf_dead rf \<and> raft_evolves rf rf' \<and>
    (rf_applyPc rf' = rf_applyPc rf \<or> rf_applyPc rf = ApplyParked \<and> rf_applyPc rf' = ApplyOuter) \<and>
    (rf_applyPc rf' = ApplyParked \<longrightarrow> rf_commitIndex rf' = rf_commitIndex rf)"
proof -
  obtain l where l: "merge_entries (ae_PrevLogIndex req + 1) (ae_Entries req) (rf_log rf) = Inr l"
      "log_wf l"
      "log_list l = merge_spec (ae_prev req) (map from_pb (ae_Entries req)) (log_list (rf_log rf))"
    using merge_entries_spec [OF wf prev_matches_le [OF prev], of "ae_Entries req"] req
    by (auto simp: ae_wf_def ae_prev_def)
  have "\<not> (ae_PrevLogIndex req > 0 \<and> (case log_At (rf_log rf) (ae_PrevLogIndex req) of
      (existing, ok) \<Rightarrow> \<not> ok \<or> le_Term existing \<noteq> ae_PrevLogTerm req))"
    using prev_check [OF wf] req prev by (simp add: ae_wf_def)
  then show ?thesis
    using l assms(3) by (auto simp: AppendEntries_def Let_def lg.last_index_els raft_evolves_def
        applyCond_Signal_def resetElectionTimer_def becomeFollower_def)
qed

lemma AppendEntries_reject:
  assumes wf: "log_wf (rf_log rf)" and req: "ae_wf req" and "rf_currentTerm rf \<le> ae_Term req"
    and prev: "\<not> prev_matches req (log_list (rf_log rf))"
  shows "\<exists>rf'. AppendEntries r req rf =
      Inr (rf', \<lparr>aer_Term = ae_Term req, aer_Success = False, aer_ConflictIndex = 0, aer_ConflictTerm = 0\<rparr>) \<and>
    rf_currentTerm rf' = ae_Term req \<and> same_data rf rf' \<and> raft_evolves rf rf'"
proof -
  have "ae_PrevLogIndex req > 0 \<and> (case log_At (rf_log rf) (ae_PrevLogIndex req) of
      (existing, ok) \<Rightarrow> \<not> ok \<or> le_Term existing \<noteq> ae_PrevLogTerm req)"
    using prev_check [OF wf] req prev by (simp add: ae_wf_def)
  then show ?thesis
    using assms(3) by (auto simp: AppendEntries_def Let_def raft_evolves_def same_data_def)
qed

text \<open>The peers, other than the node itself, that are known to hold index \<open>n\<close>.\<close>

definition replicas :: "int \<Rightarrow> Raft \<Rightarrow> NodeConfig list \<Rightarrow> NodeConfig list" where
  "replicas n rf ps = filter (\<lambda>p. nc_ID p \<noteq> rf_id rf \<and> rf_matchIndex rf ! nat (nc_ID p) \<ge> n) ps"

lemma count_replicas_eq:
  assumes "\<forall>p \<in> set ps. 0 \<le> nc_ID p \<and> nc_ID p < int (length (rf_matchIndex rf))"
  shows "count_replicas n rf ps c = Inr (c + int (length (replicas n rf ps)))"
  using assms by (induction ps arbitrary: c) (auto simp: replicas_def)

text \<open>
  The scan either keeps the commit index or moves it to an index that is inside the
  log, was written in the current term and is held by a quorum.
\<close>

definition commit_point :: "Raft \<Rightarrow> int \<Rightarrow> bool" where
  "commit_point rf n \<longleftrightarrow> rf_commitIndex rf < n \<and> n \<le> int (length (log_list (rf_log rf))) \<and>
     0 < n \<and> le_Term (log_list (rf_log rf) ! nat (n - 1)) = rf_currentTerm rf \<and>
     quorum rf \<le> 1 + int (length (replicas n rf (rf_peers rf)))"

lemma advance_from_effect:
  assumes "log_wf (rf_log rf)"
    and "\<forall>p \<in> set (rf_peers rf). 0 \<le> nc_ID p \<and> nc_ID p < int (length (rf_matchIndex rf))"
  shows "(\<exists>m. m \<le> n \<and> commit_point rf m \<and> (\<forall>k. m < k \<and> k \<le> n \<longrightarrow> \<not> commit_point rf k) \<and>
      advance_from n rf = Inr (applyCond_Signal (rf\<lparr>rf_commitIndex := m\<rparr>))) \<or>
    (\<forall>k \<le> n. \<not> commit_point rf k) \<and> advance_from n rf = Inr rf"
  using assms
proof (induction n rf rule: advance_from.induct)
  case (1 n rf)
  note wf = "1.prems"(1) and cnt = count_replicas_eq [OF "1.prems"(2), of n 1]
  show ?case
  proof (cases "n > rf_commitIndex rf")
    case False
    then show ?thesis by (auto simp: advance_from.simps [of n rf] commit_point_def)
  next
    case True
    show ?thesis
    proof (cases "commit_point rf n")
      case point: True
      then show ?thesis
        using True wf cnt by (intro disjI1 exI [of _ n])
          (simp add: advance_from.simps [of n rf] lg.at_els commit_point_def)
    next
      case no: False
      have eq: "advance_from n rf = advance_from (n - 1) rf"
        using no True wf cnt by (auto simp: advance_from.simps [of n rf] lg.at_els commit_point_def)
      have IH: "(\<exists>m. m \<le> n - 1 \<and> commit_point rf m \<and>
            (\<forall>k. m < k \<and> k \<le> n - 1 \<longrightarrow> \<not> commit_point rf k) \<and>
            advance_from (n - 1) rf = Inr (applyCond_Signal (rf\<lparr>rf_commitIndex := m\<rparr>))) \<or>
          (\<forall>k \<le> n - 1. \<not> commit_point rf k) \<and> advance_from (n - 1) rf = Inr rf"
        using "1.IH" "1.prems" True no cnt
        by (cases "\<not> snd (log_At (rf_log rf) n) \<or>
            le_Term (fst (log_At (rf_log rf) n)) \<noteq> rf_currentTerm rf")
          (auto simp: lg.at_els commit_point_def split: if_splits)
      have split: "k \<le> n \<longleftrightarrow> k \<le> n - 1 \<or> k = n" for k :: int by linarith
      show ?thesis using IH no unfolding eq split by (smt (verit))
    qed
  qed
qed

lemma commit_point_in_log: "commit_point rf k \<Longrightarrow> k \<le> int (length (log_list (rf_log rf)))"
  by (simp add: commit_point_def)

lemma advanceCommitIndex_effect:
  assumes "log_wf (rf_log rf)"
    and "\<forall>p \<in> set (rf_peers rf). 0 \<le> nc_ID p \<and> nc_ID p < int (length (rf_matchIndex rf))"
  shows "(\<exists>m. commit_point rf m \<and> (\<forall>k > m. \<not> commit_point rf k) \<and>
      advanceCommitIndex rf = Inr (applyCond_Signal (rf\<lparr>rf_commitIndex := m\<rparr>))) \<or>
    (\<forall>k. \<not> commit_point rf k) \<and> advanceCommitIndex rf = Inr rf"
proof -
  have "advanceCommitIndex rf = advance_from (int (length (log_list (rf_log rf)))) rf"
    using assms(1) by (simp add: advanceCommitIndex_def lg.last_index_els)
  then show ?thesis
    using advance_from_effect [OF assms, of "int (length (log_list (rf_log rf)))"]
      commit_point_in_log [of rf] by (metis linorder_not_less)
qed

text \<open>What a leader sends: the whole of its log after \<open>PrevLogIndex\<close>.\<close>

lemma sendAppendEntries_send_effect:
  assumes "log_wf (rf_log rf)" and "0 \<le> p" and "p < int (length (rf_nextIndex rf))"
    and "1 \<le> rf_nextIndex rf ! nat p" and "rf_state rf = Leader"
  shows "\<exists>args. sendAppendEntries_send p rf = Inr (Some args) \<and> ae_wf args \<and>
    ae_Term args = rf_currentTerm rf \<and> ae_LeaderId args = rf_id rf \<and>
    ae_PrevLogIndex args = rf_nextIndex rf ! nat p - 1 \<and>
    map from_pb (ae_Entries args) = drop (ae_prev args) (log_list (rf_log rf)) \<and>
    ae_PrevLogTerm args = (if 0 < ae_prev args \<and> ae_prev args \<le> length (log_list (rf_log rf))
      then le_Term (log_list (rf_log rf) ! (ae_prev args - 1)) else 0) \<and>
    ae_LeaderCommit args = rf_commitIndex rf"
proof -
  let ?L = "log_list (rf_log rf)"
  obtain m where m: "rf_nextIndex rf ! nat p = int m + 1"
    using assms(4) by (metis add.commute le_add_diff_inverse nat_int zero_le_imp_eq_int
        diff_ge_0_iff_ge)
  have "log_Entries (rf_log rf) (int m + 1) (log_LastIndex (rf_log rf) + 1) = drop m ?L"
    using log_Entries_list [OF assms(1), of "int m + 1"] by simp
  moreover have "consecutive m (map to_pb (drop m ?L))"
    using assms(1) by (auto simp: consecutive_def to_pb_def lg.index_els)
  moreover have "log_At (rf_log rf) (int m) = (if 0 < m \<and> m \<le> length ?L
      then (?L ! (m - 1), True) else (zero_LogEntry, False))"
    using assms(1) by (auto simp: lg.at_els nat_diff_distrib)
  ultimately show ?thesis
    using assms m by (auto simp: sendAppendEntries_send_def Let_def ae_wf_def ae_prev_def)
qed

lemma sendAppendEntries_send_nonleader:
  "rf_state rf \<noteq> Leader \<Longrightarrow> sendAppendEntries_send p rf = Inr None"
  by (simp add: sendAppendEntries_send_def)

text \<open>The leader's bookkeeping for one peer after an accepted request.\<close>

definition record_match :: "nat \<Rightarrow> int \<Rightarrow> Raft \<Rightarrow> Raft" where
  "record_match p newMatch rf =
     (if newMatch > rf_matchIndex rf ! p
      then rf\<lparr>rf_matchIndex := (rf_matchIndex rf)[p := newMatch],
              rf_nextIndex := (rf_nextIndex rf)[p := newMatch + 1]\<rparr>
      else rf)"

lemma record_match_simps [simp]:
  "rf_currentTerm (record_match p n rf) = rf_currentTerm rf"
  "rf_state (record_match p n rf) = rf_state rf" "rf_votedFor (record_match p n rf) = rf_votedFor rf"
  "rf_log (record_match p n rf) = rf_log rf"
  "rf_commitIndex (record_match p n rf) = rf_commitIndex rf"
  "rf_lastApplied (record_match p n rf) = rf_lastApplied rf"
  "rf_id (record_match p n rf) = rf_id rf" "rf_peers (record_match p n rf) = rf_peers rf"
  "rf_commitCh (record_match p n rf) = rf_commitCh rf"
  "rf_applyPc (record_match p n rf) = rf_applyPc rf" "rf_dead (record_match p n rf) = rf_dead rf"
  "length (rf_matchIndex (record_match p n rf)) = length (rf_matchIndex rf)"
  "length (rf_nextIndex (record_match p n rf)) = length (rf_nextIndex rf)"
  by (simp_all add: record_match_def)

lemma sendAppendEntries_recv_success:
  assumes "log_wf (rf_log rf)"
    and "\<forall>q \<in> set (rf_peers rf). 0 \<le> nc_ID q \<and> nc_ID q < int (length (rf_matchIndex rf))"
    and "0 \<le> p" and "p < int (length (rf_matchIndex rf))"
    and "length (rf_nextIndex rf) = length (rf_matchIndex rf)"
    and "aer_Term reply \<le> rf_currentTerm rf" and "rf_state rf = Leader"
    and "rf_currentTerm rf = ae_Term args" and "aer_Success reply"
  shows "let rf1 = record_match (nat p) (ae_PrevLogIndex args + int (length (ae_Entries args))) rf
    in (\<exists>m. commit_point rf1 m \<and> sendAppendEntries_recv r p args reply rf =
          Inr (applyCond_Signal (rf1\<lparr>rf_commitIndex := m\<rparr>), True)) \<or>
       (\<forall>k. \<not> commit_point rf1 k) \<and> sendAppendEntries_recv r p args reply rf = Inr (rf1, False)"
proof -
  let ?nm = "ae_PrevLogIndex args + int (length (ae_Entries args))"
  let ?rf1 = "record_match (nat p) ?nm rf"
  have "sendAppendEntries_recv r p args reply rf =
      go_bind (advanceCommitIndex ?rf1) (\<lambda>rf2. Inr (rf2, rf_commitIndex rf2 > rf_commitIndex ?rf1))"
    using assms(3-9) by (auto simp: sendAppendEntries_recv_def record_match_def Let_def)
  moreover have "(\<exists>m. commit_point ?rf1 m \<and> (\<forall>k > m. \<not> commit_point ?rf1 k) \<and>
      advanceCommitIndex ?rf1 = Inr (applyCond_Signal (?rf1\<lparr>rf_commitIndex := m\<rparr>))) \<or>
    (\<forall>k. \<not> commit_point ?rf1 k) \<and> advanceCommitIndex ?rf1 = Inr ?rf1"
    using assms(1,2) by (intro advanceCommitIndex_effect) simp_all
  ultimately show ?thesis by (auto simp: Let_def commit_point_def)
qed

lemma sendAppendEntries_recv_reject:
  assumes "0 \<le> p" and "p < int (length (rf_nextIndex rf))"
    and "aer_Term reply \<le> rf_currentTerm rf" and "rf_state rf = Leader"
    and "rf_currentTerm rf = ae_Term args" and "\<not> aer_Success reply"
  shows "sendAppendEntries_recv r p args reply rf =
    Inr (if rf_nextIndex rf ! nat p > 1
         then rf\<lparr>rf_nextIndex := (rf_nextIndex rf)[nat p := rf_nextIndex rf ! nat p - 1]\<rparr> else rf, True)"
  using assms by (simp add: sendAppendEntries_recv_def)

lemma sendAppendEntries_recv_other:
  "aer_Term reply > rf_currentTerm rf \<Longrightarrow>
    sendAppendEntries_recv r p args reply rf = Inr (becomeFollower r (aer_Term reply) rf, False)"
  "aer_Term reply \<le> rf_currentTerm rf \<Longrightarrow> rf_state rf \<noteq> Leader \<or> rf_currentTerm rf \<noteq> ae_Term args \<Longrightarrow>
    sendAppendEntries_recv r p args reply rf = Inr (rf, False)"
  by (auto simp: sendAppendEntries_recv_def)

lemma applyLoop_frame [simp]:
  "rf_currentTerm (applyLoop rf) = rf_currentTerm rf" "rf_votedFor (applyLoop rf) = rf_votedFor rf"
  "rf_state (applyLoop rf) = rf_state rf" "rf_log (applyLoop rf) = rf_log rf"
  "rf_commitIndex (applyLoop rf) = rf_commitIndex rf" "rf_id (applyLoop rf) = rf_id rf"
  "rf_peers (applyLoop rf) = rf_peers rf" "rf_nextIndex (applyLoop rf) = rf_nextIndex rf"
  "rf_matchIndex (applyLoop rf) = rf_matchIndex rf" "rf_dead (applyLoop rf) = rf_dead rf"
  by (auto simp: applyLoop_def apply_park_def Let_def split: ApplyPc.splits prod.splits)

lemma Kill_frame [simp]:
  "rf_currentTerm (Kill rf) = rf_currentTerm rf" "rf_votedFor (Kill rf) = rf_votedFor rf"
  "rf_state (Kill rf) = rf_state rf" "rf_log (Kill rf) = rf_log rf"
  "rf_commitIndex (Kill rf) = rf_commitIndex rf" "rf_id (Kill rf) = rf_id rf"
  "rf_lastApplied (Kill rf) = rf_lastApplied rf"  "rf_commitCh (Kill rf) = rf_commitCh rf"
  "rf_peers (Kill rf) = rf_peers rf" "rf_nextIndex (Kill rf) = rf_nextIndex rf"
  "rf_matchIndex (Kill rf) = rf_matchIndex rf"
  by (simp_all add: Kill_def)

end
