(* ===== verification/Raft_Cluster.thy ===== *)
theory Raft_Cluster
  imports Raft_Node
begin

text \<open>
  A cluster of Raft nodes and the network between them. The network keeps every message
  ever sent and never takes one away, so a message can be delivered late, in any order,
  repeatedly or not at all. A step is one critical section of one node: a timer that
  fires, a handler, a reply that a goroutine receives, a client's \<open>Start\<close>, a round of
  the apply goroutine, or \<open>Kill\<close>. The loop of \<open>sendAppendEntries\<close> is cut at its
  remote call, and an iteration may start at any time at a leader; this includes every
  schedule of the heartbeat goroutine, of the goroutines \<open>Start\<close> spawns and of the retry
  loop. A node that stops for good is one that takes no more steps.

  Three history variables record the past for the proofs (the log and identity of the
  leader of each term, and the log a node had when it voted); no step reads them.
\<close>

section \<open>State\<close>

datatype msg =
    MRequestVote int RequestVoteArgs                           \<comment> \<open>candidate, request\<close>
  | MVoteReply int int int RequestVoteReply                    \<comment> \<open>candidate, term, voter, reply\<close>
  | MAppend int int AppendEntriesArgs                          \<comment> \<open>leader, peer, request\<close>
  | MAppendReply int int AppendEntriesArgs AppendEntriesReply  \<comment> \<open>leader, peer, request, reply\<close>

text \<open>
  \<open>cl_waiting\<close> holds the election goroutines that still wait for a reply (candidate,
  term, peer); \<open>cl_votes\<close> is the variable \<open>votes\<close> that the goroutines of one
  election share.
\<close>

record Cluster =
  cl_nodes :: "int \<Rightarrow> Raft"
  cl_net :: "msg list"
  cl_waiting :: "(int \<times> int \<times> int) list"
  cl_votes :: "int \<Rightarrow> int \<Rightarrow> int"
  h_tlog :: "int \<Rightarrow> LogEntry list"
  h_leader :: "int \<Rightarrow> int option"
  h_voter :: "int \<Rightarrow> int \<Rightarrow> LogEntry list"

abbreviation node_log :: "Cluster \<Rightarrow> int \<Rightarrow> LogEntry list" where
  "node_log s i \<equiv> log_list (rf_log (cl_nodes s i))"

abbreviation node_term :: "Cluster \<Rightarrow> int \<Rightarrow> int" where
  "node_term s i \<equiv> rf_currentTerm (cl_nodes s i)"

abbreviation node_state :: "Cluster \<Rightarrow> int \<Rightarrow> RaftState" where
  "node_state s i \<equiv> rf_state (cl_nodes s i)"

abbreviation node_commit :: "Cluster \<Rightarrow> int \<Rightarrow> int" where
  "node_commit s i \<equiv> rf_commitIndex (cl_nodes s i)"

abbreviation sent :: "Cluster \<Rightarrow> msg set" where
  "sent s \<equiv> set (cl_net s)"

definition boot_node :: "int \<Rightarrow> int \<Rightarrow> ClusterConfig \<Rightarrow> Raft" where
  "boot_node r i cfg = (case New r (\<lambda>_. True) i cfg of Some rf \<Rightarrow> rf | None \<Rightarrow> NewPaused i cfg)"

definition init_cluster :: "(int \<Rightarrow> int) \<Rightarrow> ClusterConfig \<Rightarrow> Cluster" where
  "init_cluster rs cfg =
     \<lparr>cl_nodes = (\<lambda>i. boot_node (rs i) i cfg), cl_net = [], cl_waiting = [],
      cl_votes = (\<lambda>_ _. 0), h_tlog = (\<lambda>_. []), h_leader = (\<lambda>_. None), h_voter = (\<lambda>_ _. [])\<rparr>"

definition cluster_start :: "ClusterConfig \<Rightarrow> Cluster \<Rightarrow> bool" where
  "cluster_start cfg s \<longleftrightarrow> wf_cfg cfg \<and> (\<exists>rs. s = init_cluster rs cfg)"

section \<open>Steps\<close>

definition set_node :: "int \<Rightarrow> Raft \<Rightarrow> Cluster \<Rightarrow> Cluster" where
  "set_node i rf s = s\<lparr>cl_nodes := (cl_nodes s)(i := rf)\<rparr>"

text \<open>
  The history notes, each made when its flag is set: node \<open>i\<close> leads its term with its
  log; node \<open>v\<close> votes in term \<open>t\<close> with its log.
\<close>

definition note_leader :: "bool \<Rightarrow> int \<Rightarrow> Cluster \<Rightarrow> Cluster" where
  "note_leader flag i s =
     s\<lparr>h_tlog := (if flag then (h_tlog s)(node_term s i := node_log s i) else h_tlog s),
       h_leader := (if flag then (h_leader s)(node_term s i := Some i) else h_leader s)\<rparr>"

definition note_vote :: "bool \<Rightarrow> int \<Rightarrow> int \<Rightarrow> Cluster \<Rightarrow> Cluster" where
  "note_vote flag t v s =
     s\<lparr>h_voter := (if flag then (h_voter s)(t := (h_voter s t)(v := node_log s v)) else h_voter s)\<rparr>"

definition post :: "msg \<Rightarrow> Cluster \<Rightarrow> Cluster" where
  "post m s = s\<lparr>cl_net := cl_net s @ [m]\<rparr>"

definition begin_election :: "int \<Rightarrow> RequestVoteArgs \<Rightarrow> int list \<Rightarrow> Cluster \<Rightarrow> Cluster" where
  "begin_election i args ps s =
     (let t = rv_Term args
      in s\<lparr>cl_waiting := cl_waiting s @ map (\<lambda>p. (i, t, p)) ps,
           cl_votes := (cl_votes s)(i := (cl_votes s i)(t := 1))\<rparr>)"

definition end_wait :: "int \<Rightarrow> int \<Rightarrow> int \<Rightarrow> int \<Rightarrow> Cluster \<Rightarrow> Cluster" where
  "end_wait c t v votes s =
     s\<lparr>cl_waiting := removeAll (c, t, v) (cl_waiting s),
       cl_votes := (cl_votes s)(c := (cl_votes s c)(t := votes))\<rparr>"

definition fire_timer :: "Raft \<Rightarrow> Raft" where
  "fire_timer rf = rf\<lparr>rf_electionTimer := TimerFired\<rparr>"

inductive cluster_step :: "ClusterConfig \<Rightarrow> Cluster \<Rightarrow> Cluster \<Rightarrow> bool" for cfg where
  timeout_quiet: "i \<in> node_ids cfg \<Longrightarrow>
    startElection r (fire_timer (cl_nodes s i)) = Inr (rf', None) \<Longrightarrow>
    cluster_step cfg s (set_node i rf' s)"
| timeout: "i \<in> node_ids cfg \<Longrightarrow>
    startElection r (fire_timer (cl_nodes s i)) = Inr (rf', Some (args, ps)) \<Longrightarrow>
    cluster_step cfg s (post (MRequestVote i args)
      (begin_election i args ps (note_vote True (rv_Term args) i (set_node i rf' s))))"
| recv_vote: "MRequestVote c args \<in> sent s \<Longrightarrow> v \<in> node_ids cfg \<Longrightarrow> v \<noteq> c \<Longrightarrow>
    RequestVote r1 r2 args (cl_nodes s v) = Inr (rf', reply) \<Longrightarrow>
    cluster_step cfg s (post (MVoteReply c (rv_Term args) v reply)
      (note_vote (rvr_VoteGranted reply) (rv_Term args) v (set_node v rf' s)))"
| vote_reply: "(c, t, v) \<in> set (cl_waiting s) \<Longrightarrow> MVoteReply c t v reply \<in> sent s \<Longrightarrow>
    voteReply r t reply (cl_votes s c t) (cl_nodes s c) = Inr (rf', votes', won) \<Longrightarrow>
    cluster_step cfg s (end_wait c t v votes'
      (note_leader won c (set_node c rf' s)))"
| vote_lost: "(c, t, v) \<in> set (cl_waiting s) \<Longrightarrow>
    cluster_step cfg s (end_wait c t v (cl_votes s c t) s)"
| append_send: "i \<in> node_ids cfg \<Longrightarrow> p \<in> node_ids cfg \<Longrightarrow> p \<noteq> i \<Longrightarrow>
    sendAppendEntries_send p (cl_nodes s i) = Inr (Some args) \<Longrightarrow>
    cluster_step cfg s (post (MAppend i p args) s)"
| recv_append: "MAppend i p args \<in> sent s \<Longrightarrow>
    AppendEntries r args (cl_nodes s p) = Inr (rf', reply) \<Longrightarrow>
    cluster_step cfg s (post (MAppendReply i p args reply) (set_node p rf' s))"
| append_reply: "MAppendReply i p args reply \<in> sent s \<Longrightarrow>
    sendAppendEntries_recv r p args reply (cl_nodes s i) = Inr (rf', again) \<Longrightarrow>
    cluster_step cfg s (set_node i rf' s)"
| client: "i \<in> node_ids cfg \<Longrightarrow> Start command (cl_nodes s i) = Inr (rf', (index, term, isLeader), ps) \<Longrightarrow>
    cluster_step cfg s (note_leader isLeader i (set_node i rf' s))"
| apply_round: "i \<in> node_ids cfg \<Longrightarrow> cluster_step cfg s (set_node i (applyLoop (cl_nodes s i)) s)"
| kill: "i \<in> node_ids cfg \<Longrightarrow> cluster_step cfg s (set_node i (Kill (cl_nodes s i)) s)"

abbreviation cluster_reach :: "ClusterConfig \<Rightarrow> Cluster \<Rightarrow> bool" where
  "cluster_reach cfg \<equiv> reach (cluster_start cfg) (cluster_step cfg)"

lemma set_node_simps [simp]:
  "cl_nodes (set_node i rf s) = (cl_nodes s)(i := rf)" "cl_net (set_node i rf s) = cl_net s"
  "cl_waiting (set_node i rf s) = cl_waiting s" "cl_votes (set_node i rf s) = cl_votes s"
  "h_voter (set_node i rf s) = h_voter s" "h_tlog (set_node i rf s) = h_tlog s"
  "h_leader (set_node i rf s) = h_leader s" "set_node i (cl_nodes s i) s = s"
  by (simp_all add: set_node_def)

lemma note_leader_simps [simp]:
  "cl_nodes (note_leader f i s) = cl_nodes s" "cl_net (note_leader f i s) = cl_net s"
  "cl_waiting (note_leader f i s) = cl_waiting s" "cl_votes (note_leader f i s) = cl_votes s"
  "h_voter (note_leader f i s) = h_voter s"
  "h_tlog (note_leader f i s) = (if f then (h_tlog s)(node_term s i := node_log s i) else h_tlog s)"
  "h_leader (note_leader f i s) = (if f then (h_leader s)(node_term s i := Some i) else h_leader s)"
  "note_leader False i s = s"
  by (simp_all add: note_leader_def)

lemma post_simps [simp]:
  "cl_nodes (post m s) = cl_nodes s" "cl_net (post m s) = cl_net s @ [m]"
  "cl_waiting (post m s) = cl_waiting s" "cl_votes (post m s) = cl_votes s"
  "h_tlog (post m s) = h_tlog s" "h_leader (post m s) = h_leader s" "h_voter (post m s) = h_voter s"
  by (simp_all add: post_def)

lemma note_vote_simps [simp]:
  "cl_nodes (note_vote f t v s) = cl_nodes s" "cl_net (note_vote f t v s) = cl_net s"
  "cl_waiting (note_vote f t v s) = cl_waiting s" "cl_votes (note_vote f t v s) = cl_votes s"
  "h_tlog (note_vote f t v s) = h_tlog s" "h_leader (note_vote f t v s) = h_leader s"
  "h_voter (note_vote f t v s) =
     (if f then (h_voter s)(t := (h_voter s t)(v := node_log s v)) else h_voter s)"
  by (simp_all add: note_vote_def)

lemma begin_election_simps [simp]:
  "cl_nodes (begin_election i a ps s) = cl_nodes s" "cl_net (begin_election i a ps s) = cl_net s"
  "cl_waiting (begin_election i a ps s) = cl_waiting s @ map (\<lambda>p. (i, rv_Term a, p)) ps"
  "cl_votes (begin_election i a ps s) = (cl_votes s)(i := (cl_votes s i)(rv_Term a := 1))"
  "h_tlog (begin_election i a ps s) = h_tlog s" "h_leader (begin_election i a ps s) = h_leader s"
  "h_voter (begin_election i a ps s) = h_voter s"
  by (simp_all add: begin_election_def Let_def)

lemma end_wait_simps [simp]:
  "cl_nodes (end_wait c t v n s) = cl_nodes s" "cl_net (end_wait c t v n s) = cl_net s"
  "cl_waiting (end_wait c t v n s) = removeAll (c, t, v) (cl_waiting s)"
  "cl_votes (end_wait c t v n s) = (cl_votes s)(c := (cl_votes s c)(t := n))"
  "h_tlog (end_wait c t v n s) = h_tlog s" "h_leader (end_wait c t v n s) = h_leader s"
  "h_voter (end_wait c t v n s) = h_voter s"
  by (simp_all add: end_wait_def)

lemma fire_timer_simps [simp]:
  "rf_currentTerm (fire_timer rf) = rf_currentTerm rf" "rf_votedFor (fire_timer rf) = rf_votedFor rf"
  "rf_state (fire_timer rf) = rf_state rf" "rf_log (fire_timer rf) = rf_log rf"
  "rf_commitIndex (fire_timer rf) = rf_commitIndex rf" "rf_id (fire_timer rf) = rf_id rf"
  "rf_lastApplied (fire_timer rf) = rf_lastApplied rf"  "rf_commitCh (fire_timer rf) = rf_commitCh rf"
  "rf_peers (fire_timer rf) = rf_peers rf" "rf_nextIndex (fire_timer rf) = rf_nextIndex rf"
  "rf_matchIndex (fire_timer rf) = rf_matchIndex rf" "rf_applyPc (fire_timer rf) = rf_applyPc rf"
  "rf_dead (fire_timer rf) = rf_dead rf" "other_peers (fire_timer rf) = other_peers rf"
  by (simp_all add: fire_timer_def other_peers_def)

lemma same_data_fire: "same_data (fire_timer rf) rf' \<longleftrightarrow> same_data rf rf'"
  by (simp add: same_data_def)

lemma raft_evolves_fire: "raft_evolves (fire_timer rf) rf' \<longleftrightarrow> raft_evolves rf rf'"
  by (simp add: raft_evolves_def)

section \<open>The type invariant\<close>

text \<open>
  What is true of every node and every message, without regard to how they relate:
  configuration and slice lengths, a well-formed log whose terms lie between 1 and the
  current term, positive \<open>nextIndex\<close> at a leader, and requests that their senders
  could have built.
\<close>

definition node_ok :: "ClusterConfig \<Rightarrow> int \<Rightarrow> Raft \<Rightarrow> bool" where
  "node_ok cfg i rf \<longleftrightarrow> rf_id rf = i \<and> rf_peers rf = cc_Nodes cfg \<and> log_wf (rf_log rf) \<and>
     length (rf_nextIndex rf) = length (cc_Nodes cfg) \<and>
     length (rf_matchIndex rf) = length (cc_Nodes cfg) \<and>
     0 \<le> rf_currentTerm rf \<and> (rf_votedFor rf = - 1 \<or> rf_votedFor rf \<in> node_ids cfg) \<and>
     (rf_state rf \<noteq> Follower \<longrightarrow> 1 \<le> rf_currentTerm rf) \<and>
     (rf_state rf = Leader \<longrightarrow> (\<forall>x \<in> set (rf_nextIndex rf). 1 \<le> x)) \<and>
     (\<forall>e \<in> set (log_list (rf_log rf)). 1 \<le> le_Term e \<and> le_Term e \<le> rf_currentTerm rf)"

definition msg_ok :: "ClusterConfig \<Rightarrow> Cluster \<Rightarrow> msg \<Rightarrow> bool" where
  "msg_ok cfg s m = (case m of
     MRequestVote c args \<Rightarrow> c \<in> node_ids cfg \<and> rv_CandidateId args = c \<and> 1 \<le> rv_Term args \<and>
       rv_Term args \<le> node_term s c
   | MVoteReply c t v reply \<Rightarrow> c \<in> node_ids cfg \<and> v \<in> node_ids cfg \<and> v \<noteq> c \<and>
       (\<exists>args. MRequestVote c args \<in> sent s \<and> rv_Term args = t) \<and>
       (rvr_VoteGranted reply \<longrightarrow> rvr_Term reply = t) \<and> rvr_Term reply \<le> node_term s v
   | MAppend i p args \<Rightarrow> i \<in> node_ids cfg \<and> p \<in> node_ids cfg \<and> p \<noteq> i \<and> ae_wf args \<and>
       ae_LeaderId args = i \<and> 1 \<le> ae_Term args \<and> ae_Term args \<le> node_term s i \<and>
       (\<forall>e \<in> set (ae_Entries args). 1 \<le> pe_Term e \<and> pe_Term e \<le> ae_Term args)
   | MAppendReply i p args reply \<Rightarrow> MAppend i p args \<in> sent s \<and>
       (aer_Success reply \<longrightarrow> aer_Term reply = ae_Term args) \<and> ae_Term args \<le> node_term s p \<and>
       aer_Term reply \<le> node_term s p)"

definition type_inv :: "ClusterConfig \<Rightarrow> Cluster \<Rightarrow> bool" where
  "type_inv cfg s \<longleftrightarrow> wf_cfg cfg \<and> (\<forall>i \<in> node_ids cfg. node_ok cfg i (cl_nodes s i)) \<and>
     (\<forall>m \<in> sent s. msg_ok cfg s m) \<and>
     (\<forall>(c, t, v) \<in> set (cl_waiting s). c \<in> node_ids cfg \<and> v \<in> node_ids cfg \<and> v \<noteq> c)"

lemma msg_ok_mono:
  assumes "msg_ok cfg s m" and "sent s \<subseteq> sent s'" and "\<And>i. node_term s i \<le> node_term s' i"
  shows "msg_ok cfg s' m"
proof (cases m)
  case (MVoteReply c t v reply)
  then show ?thesis using assms(1,2) assms(3) [of v] by (auto simp: msg_ok_def)
next
  case (MAppendReply i p args reply)
  then show ?thesis using assms(1,2) assms(3) [of p] by (auto simp: msg_ok_def)
qed (use assms(1) assms(3) order_trans in \<open>fastforce simp: msg_ok_def\<close>)+

lemma node_ok_ids:
  assumes "wf_cfg cfg" and "node_ok cfg i rf"
  shows "\<forall>p \<in> set (rf_peers rf). 0 \<le> nc_ID p \<and> nc_ID p < int (length (rf_matchIndex rf))"
proof
  fix p
  assume "p \<in> set (rf_peers rf)"
  then have "nc_ID p \<in> node_ids cfg" using assms(2) by (simp add: node_ok_def node_ids_def)
  then show "0 \<le> nc_ID p \<and> nc_ID p < int (length (rf_matchIndex rf))"
    using assms by (simp add: node_ids_wf node_ok_def)
qed

lemma node_ok_same_data:
  assumes "node_ok cfg i rf" and "same_data rf rf'" and "raft_evolves rf rf'"
    and "rf_votedFor rf' = - 1 \<or> rf_votedFor rf' \<in> node_ids cfg"
    and "rf_state rf' = Candidate \<longrightarrow> 1 \<le> rf_currentTerm rf'"
    and "rf_state rf' = Leader \<longrightarrow> rf_state rf = Leader"
  shows "node_ok cfg i rf'"
proof -
  have up: "rf_currentTerm rf \<le> rf_currentTerm rf'" using assms(3) by (simp add: raft_evolves_def)
  have eqs: "rf_log rf' = rf_log rf" "rf_nextIndex rf' = rf_nextIndex rf" "rf_id rf' = rf_id rf"
      "rf_matchIndex rf' = rf_matchIndex rf" "rf_peers rf' = rf_peers rf"
    using assms(2) by (simp_all add: same_data_def)
  note ok = assms(1) [unfolded node_ok_def]
  have "rf_state rf' \<noteq> Follower \<longrightarrow> 1 \<le> rf_currentTerm rf'"
    using assms(5,6) ok up by (cases "rf_state rf'") auto
  moreover have "\<forall>e \<in> set (log_list (rf_log rf)). 1 \<le> le_Term e \<and> le_Term e \<le> rf_currentTerm rf'"
    using ok up by (meson order_trans)
  ultimately show ?thesis
    unfolding node_ok_def eqs using ok assms(4,6) up by simp
qed

lemma node_ok_becomeFollower:
  "node_ok cfg i rf \<Longrightarrow> rf_currentTerm rf < t \<Longrightarrow> node_ok cfg i (becomeFollower r t rf)"
  by (rule node_ok_same_data [OF _ same_data_becomeFollower raft_evolves_becomeFollower]) simp_all

lemma set_merge_spec: "set (merge_spec p es L) \<subseteq> set L \<union> set es"
  by (induction es arbitrary: p) (auto dest: in_set_takeD)

lemma node_ok_becomeLeader:
  assumes "node_ok cfg i rf" and "becomeLeader rf = Inr rf'" and "rf_state rf = Candidate"
  shows "node_ok cfg i rf'"
proof -
  have "log_wf (rf_log rf)" "length (rf_matchIndex rf) = length (rf_nextIndex rf)"
    using assms(1) by (simp_all add: node_ok_def)
  from becomeLeader_effect [OF this] show ?thesis
    using assms by (auto simp: node_ok_def)
qed

lemma node_ok_AppendEntries:
  assumes ok: "node_ok cfg i rf" and wf: "ae_wf req" and t: "1 \<le> ae_Term req"
    and es: "\<forall>e \<in> set (ae_Entries req). 1 \<le> pe_Term e \<and> pe_Term e \<le> ae_Term req"
    and ae: "AppendEntries r req rf = Inr (rf', reply)"
  shows "node_ok cfg i rf' \<and> raft_evolves rf rf' \<and> aer_Term reply = rf_currentTerm rf' \<and>
    ae_Term req \<le> rf_currentTerm rf' \<and> (aer_Success reply \<longrightarrow> aer_Term reply = ae_Term req)"
proof (cases "ae_Term req < rf_currentTerm rf")
  case True
  then show ?thesis using ok ae by (auto simp: AppendEntries_stale)
next
  case False
  then have le: "rf_currentTerm rf \<le> ae_Term req" by simp
  have lw: "log_wf (rf_log rf)" using ok by (simp add: node_ok_def)
  have vote: "rf_votedFor rf' = - 1 \<or> rf_votedFor rf' = rf_votedFor rf"
    using ae by (auto simp: AppendEntries_def Let_def go_bind_Inr_iff split: if_splits)
  show ?thesis
  proof (cases "prev_matches req (log_list (rf_log rf))")
    case True
    have "\<forall>e \<in> set (merge_spec (ae_prev req) (map from_pb (ae_Entries req)) (log_list (rf_log rf))).
        1 \<le> le_Term e \<and> le_Term e \<le> ae_Term req"
      using ok es le set_merge_spec [of "ae_prev req" "map from_pb (ae_Entries req)" "log_list (rf_log rf)"]
      by (fastforce simp: node_ok_def)
    moreover obtain ev: "raft_evolves rf rf'" and rep: "aer_Term reply = ae_Term req"
        "rf_currentTerm rf' = ae_Term req" and new: "log_wf (rf_log rf')" "log_list (rf_log rf') =
          merge_spec (ae_prev req) (map from_pb (ae_Entries req)) (log_list (rf_log rf))"
        "rf_nextIndex rf' = rf_nextIndex rf" "rf_matchIndex rf' = rf_matchIndex rf"
      using AppendEntries_accept [OF lw wf le True, of r] ae by auto
    moreover have "rf_state rf' = Leader \<longrightarrow> rf_state rf = Leader"
      using ae by (auto simp: AppendEntries_def Let_def go_bind_Inr_iff split: if_splits)
    ultimately have "node_ok cfg i rf'"
      using ok vote t unfolding node_ok_def by (simp add: raft_evolves_def) force
    then show ?thesis using ev rep by simp
  next
    case False
    then obtain ev: "same_data rf rf'" "raft_evolves rf rf'" and
        rep: "rf_currentTerm rf' = ae_Term req" "aer_Term reply = ae_Term req"
      using AppendEntries_reject [OF lw wf le False, of r] ae by auto
    have "rf_state rf' = Leader \<longrightarrow> rf_state rf = Leader"
      using ae by (auto simp: AppendEntries_def Let_def go_bind_Inr_iff split: if_splits)
    moreover have "rf_votedFor rf' = - 1 \<or> rf_votedFor rf' \<in> node_ids cfg"
      using vote ok by (auto simp: node_ok_def)
    ultimately have "node_ok cfg i rf'"
      using ok ev t rep by (intro node_ok_same_data [OF ok ev]) simp_all
    then show ?thesis using ev rep by simp
  qed
qed

lemma node_ok_recv:
  assumes wf: "wf_cfg cfg" and ok: "node_ok cfg i rf" and p: "p \<in> node_ids cfg" and ae: "ae_wf args"
  shows "\<exists>rf' again. sendAppendEntries_recv r p args reply rf = Inr (rf', again) \<and>
    node_ok cfg i rf' \<and> raft_evolves rf rf'"
proof -
  have p': "0 \<le> p" "p < int (length (rf_matchIndex rf))"
      "length (rf_nextIndex rf) = length (rf_matchIndex rf)" "p < int (length (rf_nextIndex rf))"
    using p ok wf by (simp_all add: node_ids_wf node_ok_def)
  have lw: "log_wf (rf_log rf)" using ok by (simp add: node_ok_def)
  have nn: "0 \<le> ae_PrevLogIndex args" using ae by (simp add: ae_wf_def)
  consider (up) "aer_Term reply > rf_currentTerm rf"
    | (stale) "aer_Term reply \<le> rf_currentTerm rf" "rf_state rf \<noteq> Leader \<or> rf_currentTerm rf \<noteq> ae_Term args"
    | (yes) "aer_Term reply \<le> rf_currentTerm rf" "rf_state rf = Leader" "rf_currentTerm rf = ae_Term args"
        "aer_Success reply"
    | (no) "aer_Term reply \<le> rf_currentTerm rf" "rf_state rf = Leader" "rf_currentTerm rf = ae_Term args"
        "\<not> aer_Success reply"
    by linarith
  then show ?thesis
  proof cases
    case up
    then show ?thesis using ok
      by (auto simp: sendAppendEntries_recv_other intro: node_ok_becomeFollower raft_evolves_becomeFollower)
  next
    case stale
    then show ?thesis using ok sendAppendEntries_recv_other(2) [OF stale, of r p] by auto
  next
    case yes
    let ?rf1 = "record_match (nat p) (ae_PrevLogIndex args + int (length (ae_Entries args))) rf"
    have "node_ok cfg i ?rf1" using ok nn
      by (auto simp: node_ok_def record_match_def dest!: set_update_subset_insert [THEN subsetD])
    moreover from this have "node_ok cfg i (applyCond_Signal (?rf1\<lparr>rf_commitIndex := m\<rparr>))" for m
      by (simp add: node_ok_def)
    moreover have "raft_evolves rf ?rf1" "raft_evolves rf (applyCond_Signal (?rf1\<lparr>rf_commitIndex := m\<rparr>))" for m
      by (simp_all add: raft_evolves_def)
    ultimately show ?thesis
      using sendAppendEntries_recv_success [OF lw node_ok_ids [OF wf ok] p'(1-3) yes, of r]
      unfolding Let_def by blast
  next
    case no
    then show ?thesis
      using sendAppendEntries_recv_reject [OF p'(1,4) no] ok
      by (auto simp: node_ok_def raft_evolves_def dest!: set_update_subset_insert [THEN subsetD])
  qed
qed

text \<open>
  A step that puts back one node and perhaps posts messages keeps the invariant when the
  node and the new messages are right.
\<close>

lemma type_inv_update:
  assumes inv: "type_inv cfg s" and nodes: "cl_nodes s' = (cl_nodes s)(i := rf')"
    and ok: "node_ok cfg i rf'" and up: "node_term s i \<le> rf_currentTerm rf'"
    and net: "cl_net s' = cl_net s @ ms"
    and new: "\<And>m. m \<in> set ms \<Longrightarrow> msg_ok cfg s' m"
    and wait: "\<And>c t v. (c, t, v) \<in> set (cl_waiting s') \<Longrightarrow> (c, t, v) \<in> set (cl_waiting s) \<or>
      c \<in> node_ids cfg \<and> v \<in> node_ids cfg \<and> v \<noteq> c"
  shows "type_inv cfg s'"
proof -
  have "msg_ok cfg s' m" if "m \<in> sent s" for m
  proof (rule msg_ok_mono)
    show "msg_ok cfg s m" using inv that by (simp add: type_inv_def)
  qed (simp_all add: nodes net up)
  moreover have "\<forall>j \<in> node_ids cfg. node_ok cfg j (cl_nodes s' j)"
    using inv ok by (simp add: type_inv_def nodes)
  moreover have "\<forall>(c, t, v) \<in> set (cl_waiting s'). c \<in> node_ids cfg \<and> v \<in> node_ids cfg \<and> v \<noteq> c"
    using inv wait by (fastforce simp: type_inv_def)
  ultimately show ?thesis using inv new by (auto simp: type_inv_def net)
qed

lemma node_ok_startElection:
  assumes ok: "node_ok cfg i rf" and i: "i \<in> node_ids cfg"
    and st: "startElection r (fire_timer rf) = Inr (rf', out)"
  shows "node_ok cfg i rf' \<and> raft_evolves rf rf' \<and> same_data rf rf' \<and>
    (out = None \<longrightarrow> rf_currentTerm rf' = rf_currentTerm rf \<and> rf_state rf' = rf_state rf \<and>
       rf_votedFor rf' = rf_votedFor rf) \<and>
    (\<forall>args ps. out = Some (args, ps) \<longrightarrow> rv_Term args = rf_currentTerm rf + 1 \<and>
       rv_CandidateId args = i \<and> rf_currentTerm rf' = rv_Term args \<and> rf_state rf' = Candidate \<and>
       rf_votedFor rf' = i \<and> set ps = node_ids cfg - {i} \<and>
       rv_LastLogIndex args = int (length (log_list (rf_log rf))) \<and>
       rv_LastLogTerm args = last_term (log_list (rf_log rf)))"
proof -
  have lw: "log_wf (rf_log (fire_timer rf))" using ok by (simp add: node_ok_def)
  note eff = startElection_effect [OF st lw, unfolded same_data_fire raft_evolves_fire]
  have ps: "set (other_peers rf) = node_ids cfg - {i}"
    using ok by (auto simp: other_peers_def node_ok_def node_ids_def)
  have "rf_votedFor rf' = - 1 \<or> rf_votedFor rf' \<in> node_ids cfg"
    and "rf_state rf' = Candidate \<longrightarrow> 1 \<le> rf_currentTerm rf'"
    and "rf_state rf' = Leader \<longrightarrow> rf_state rf = Leader"
    using eff i ok [unfolded node_ok_def] by (elim conjE disjE; simp)+
  then have "node_ok cfg i rf'"
    by (rule node_ok_same_data [OF ok conjunct1 [OF eff] conjunct1 [OF conjunct2 [OF eff]]])
  moreover have "rf_id rf = i" using ok by (simp add: node_ok_def)
  ultimately show ?thesis using eff ps by (elim conjE disjE; simp)
qed

lemma node_ok_RequestVote:
  assumes ok: "node_ok cfg v rf" and c: "rv_CandidateId args \<in> node_ids cfg" and "1 \<le> rv_Term args"
    and rv: "RequestVote r1 r2 args rf = Inr (rf', reply)"
  shows "node_ok cfg v rf'"
proof -
  have lw: "log_wf (rf_log rf)" using ok by (simp add: node_ok_def)
  note eff = RequestVote_effect [OF rv lw] and st = RequestVote_state [OF rv lw]
  show ?thesis
    using eff st ok c assms(3)
    by (intro node_ok_same_data [OF ok]) (auto simp: node_ok_def split: if_splits)
qed

lemma node_ok_voteReply:
  assumes ok: "node_ok cfg c rf" and vr: "voteReply r t reply n rf = Inr (rf', n', won)"
  shows "node_ok cfg c rf' \<and> raft_evolves rf rf'"
proof -
  have "log_wf (rf_log rf)" "length (rf_matchIndex rf) = length (rf_nextIndex rf)"
    using ok by (simp_all add: node_ok_def)
  note eff = voteReply_effect [OF vr this]
  then show ?thesis using ok by (auto intro: node_ok_becomeLeader node_ok_becomeFollower)
qed

lemma node_ok_Start:
  assumes ok: "node_ok cfg i rf" and st: "Start c rf = Inr (rf', res, ps)"
  shows "node_ok cfg i rf' \<and> raft_evolves rf rf'"
proof -
  have "log_wf (rf_log rf)" using ok by (simp add: node_ok_def)
  from Start_effect [OF this, of c] show ?thesis
    using ok st by (auto simp: node_ok_def raft_evolves_def)
qed

lemma node_ok_frame:
  "node_ok cfg i rf \<Longrightarrow> node_ok cfg i (applyLoop rf) \<and> node_ok cfg i (Kill rf)"
  by (simp add: node_ok_def)

text \<open>What is sent is what its sender could build.\<close>

lemma append_send_ok:
  assumes wf: "wf_cfg cfg" and ok: "node_ok cfg i rf" and p: "p \<in> node_ids cfg"
    and snd: "sendAppendEntries_send p rf = Inr (Some args)"
  shows "rf_state rf = Leader \<and> ae_wf args \<and> ae_Term args = rf_currentTerm rf \<and> ae_LeaderId args = i \<and>
    ae_PrevLogIndex args = rf_nextIndex rf ! nat p - 1 \<and>
    map from_pb (ae_Entries args) = drop (ae_prev args) (log_list (rf_log rf)) \<and>
    ae_PrevLogTerm args = (if 0 < ae_prev args \<and> ae_prev args \<le> length (log_list (rf_log rf))
      then le_Term (log_list (rf_log rf) ! (ae_prev args - 1)) else 0) \<and>
    ae_LeaderCommit args = rf_commitIndex rf"
proof -
  have st: "rf_state rf = Leader"
    using snd sendAppendEntries_send_nonleader [of rf p] by force
  have p': "0 \<le> p" "p < int (length (rf_nextIndex rf))" "log_wf (rf_log rf)" "rf_id rf = i"
    using p ok wf by (simp_all add: node_ids_wf node_ok_def)
  have "1 \<le> rf_nextIndex rf ! nat p"
    using st ok p'(1,2) by (simp add: node_ok_def)
  from sendAppendEntries_send_effect [OF p'(3,1,2) this st] show ?thesis
    using snd st p'(4) by auto
qed

lemma from_pb_terms:
  assumes "map from_pb es = drop n L" and "\<forall>e \<in> set L. 1 \<le> le_Term e \<and> le_Term e \<le> (t::int)"
  shows "\<forall>e \<in> set es. 1 \<le> pe_Term e \<and> pe_Term e \<le> t"
proof
  fix e
  assume "e \<in> set es"
  then have "from_pb e \<in> set (drop n L)" unfolding assms(1) [symmetric] by simp
  then have "from_pb e \<in> set L" by (rule in_set_dropD)
  from assms(2) [rule_format, OF this] show "1 \<le> pe_Term e \<and> pe_Term e \<le> t" by simp
qed

lemma type_inv_step:
  assumes inv: "type_inv cfg s" and step: "cluster_step cfg s t"
  shows "type_inv cfg t"
proof -
  have wf: "wf_cfg cfg" and nodes: "\<And>i. i \<in> node_ids cfg \<Longrightarrow> node_ok cfg i (cl_nodes s i)"
    and msgs: "\<And>m. m \<in> sent s \<Longrightarrow> msg_ok cfg s m"
    and waits: "\<And>c t v. (c, t, v) \<in> set (cl_waiting s) \<Longrightarrow> c \<in> node_ids cfg \<and> v \<in> node_ids cfg \<and> v \<noteq> c"
    using inv by (auto simp: type_inv_def)
  show ?thesis
    using step
  proof cases
    case (timeout_quiet i r rf')
    with node_ok_startElection [OF nodes timeout_quiet(2,3)] show ?thesis
      by (intro type_inv_update [OF inv, of _ i rf' "[]"]) simp_all
  next
    case (timeout i r rf' args ps)
    note eff = node_ok_startElection [OF nodes timeout(2,3)]
    have "0 \<le> node_term s i" using nodes [OF timeout(2)] by (simp add: node_ok_def)
    then have "msg_ok cfg t (MRequestVote i args)"
      using eff timeout(1,2) by (simp add: msg_ok_def)
    with eff timeout show ?thesis
      by (intro type_inv_update [OF inv, of _ i rf' "[MRequestVote i args]"]) auto
  next
    case (recv_vote c args v r1 r2 rf' reply)
    have m: "c \<in> node_ids cfg" "rv_CandidateId args = c" "1 \<le> rv_Term args"
      using msgs [OF recv_vote(2)] by (simp_all add: msg_ok_def)
    have lw: "log_wf (rf_log (cl_nodes s v))" using nodes [OF recv_vote(3)] by (simp add: node_ok_def)
    note eff = RequestVote_effect [OF recv_vote(5) lw]
    have "msg_ok cfg t (MVoteReply c (rv_Term args) v reply)"
      using eff m recv_vote by (auto simp: msg_ok_def raft_evolves_def)
    moreover have "node_ok cfg v rf'"
      using node_ok_RequestVote [OF nodes [OF recv_vote(3)] _ m(3) recv_vote(5)] m by simp
    ultimately show ?thesis
      using eff recv_vote(1)
      by (intro type_inv_update [OF inv, of _ v rf' "[MVoteReply c (rv_Term args) v reply]"])
        (auto simp: raft_evolves_def)
  next
    case (vote_reply c tm v reply r rf' votes' won)
    have "node_ok cfg c rf' \<and> raft_evolves (cl_nodes s c) rf'"
      using node_ok_voteReply [OF nodes vote_reply(4)] waits [OF vote_reply(2)] by blast
    then show ?thesis
      using vote_reply(1) by (intro type_inv_update [OF inv, of _ c rf' "[]"]) (auto simp: raft_evolves_def)
  next
    case (vote_lost c tm v)
    then show ?thesis
      using nodes waits by (intro type_inv_update [OF inv, of _ c "cl_nodes s c" "[]"]) auto
  next
    case (append_send i p args)
    note eff = append_send_ok [OF wf nodes [OF append_send(2)] append_send(3,5)]
    have ok: "node_ok cfg i (cl_nodes s i)" using nodes [OF append_send(2)] .
    have "\<forall>e \<in> set (ae_Entries args). 1 \<le> pe_Term e \<and> pe_Term e \<le> ae_Term args"
      using from_pb_terms [of "ae_Entries args" "ae_prev args" "node_log s i" "node_term s i"] eff ok
      by (simp add: node_ok_def)
    then have "msg_ok cfg t (MAppend i p args)"
      using eff ok append_send by (simp add: msg_ok_def node_ok_def)
    then show ?thesis
      using append_send(1) ok
      by (intro type_inv_update [OF inv, of _ i "cl_nodes s i" "[MAppend i p args]"]) auto
  next
    case (recv_append i p args r rf' reply)
    have m: "p \<in> node_ids cfg" "ae_wf args" "1 \<le> ae_Term args"
        "\<forall>e \<in> set (ae_Entries args). 1 \<le> pe_Term e \<and> pe_Term e \<le> ae_Term args"
      using msgs [OF recv_append(2)] by (simp_all add: msg_ok_def)
    note eff = node_ok_AppendEntries [OF nodes [OF m(1)] m(2-4) recv_append(3)]
    have "msg_ok cfg t (MAppendReply i p args reply)"
      using eff recv_append by (auto simp: msg_ok_def)
    then show ?thesis
      using eff recv_append(1)
      by (intro type_inv_update [OF inv, of _ p rf' "[MAppendReply i p args reply]"])
        (auto simp: raft_evolves_def)
  next
    case (append_reply i p args reply r rf' again)
    have "MAppend i p args \<in> sent s" using msgs [OF append_reply(2)] by (simp add: msg_ok_def)
    then have m: "i \<in> node_ids cfg" "p \<in> node_ids cfg" "ae_wf args"
      using msgs by (fastforce simp: msg_ok_def)+
    then show ?thesis
      using node_ok_recv [OF wf nodes [OF m(1)] m(2,3), of r reply] append_reply(1,3)
      by (intro type_inv_update [OF inv, of _ i rf' "[]"]) (auto simp: raft_evolves_def)
  next
    case (client i command rf' index tm isLeader ps)
    with node_ok_Start [OF nodes [OF client(2)] client(3)] show ?thesis
      by (intro type_inv_update [OF inv, of _ i rf' "[]"]) (auto simp: raft_evolves_def)
  next
    case (apply_round i)
    with node_ok_frame [OF nodes [OF apply_round(2)]] show ?thesis
      by (intro type_inv_update [OF inv, of _ i "applyLoop (cl_nodes s i)" "[]"]) simp_all
  next
    case (kill i)
    with node_ok_frame [OF nodes [OF kill(2)]] show ?thesis
      by (intro type_inv_update [OF inv, of _ i "Kill (cl_nodes s i)" "[]"]) simp_all
  qed
qed

lemma dial_peers_True: "dial_peers (\<lambda>_. True) ps rf = Some (fold (\<lambda>p. SetPeerClient (nc_ID p)) ps rf)"
  by (induction ps arbitrary: rf) simp_all

lemma fold_SetPeerClient:
  "\<exists>cs. fold (\<lambda>p. SetPeerClient (nc_ID p)) ps rf = rf\<lparr>rf_peerConns := cs\<rparr>"
proof (induction ps arbitrary: rf)
  case Nil
  show ?case by (rule exI [of _ "rf_peerConns rf"]) simp
next
  case (Cons p ps)
  show ?case using Cons.IH [of "SetPeerClient (nc_ID p) rf"] by (auto simp: SetPeerClient_def)
qed

lemma boot_node_fields:
  "\<exists>cs tm. boot_node r i cfg = (NewPaused i cfg)\<lparr>rf_peerConns := cs, rf_electionTimer := tm,
     rf_applyPc := ApplyOuter\<rparr>"
proof -
  obtain cs where "fold (\<lambda>p. SetPeerClient (nc_ID p)) (Peers cfg i) (NewPaused i cfg) =
      (NewPaused i cfg)\<lparr>rf_peerConns := cs\<rparr>"
    using fold_SetPeerClient by blast
  then have "boot_node r i cfg = (NewPaused i cfg)\<lparr>rf_peerConns := cs, rf_electionTimer :=
      TimerArmed (ElectionTimeoutMin + rand_Int63n r (ElectionTimeoutMax - ElectionTimeoutMin)),
      rf_applyPc := ApplyOuter\<rparr>"
    by (simp add: boot_node_def New_def dial_peers_True Resume_def resetElectionTimer_def)
  then show ?thesis by blast
qed

lemma boot_node_simps [simp]:
  "rf_currentTerm (boot_node r i cfg) = 0" "rf_votedFor (boot_node r i cfg) = - 1"
  "rf_log (boot_node r i cfg) = log_New" "rf_commitIndex (boot_node r i cfg) = 0"
  "rf_lastApplied (boot_node r i cfg) = 0" "rf_id (boot_node r i cfg) = i"
  "rf_peers (boot_node r i cfg) = cc_Nodes cfg" "rf_state (boot_node r i cfg) = Follower"
  "rf_commitCh (boot_node r i cfg) = []" "rf_dead (boot_node r i cfg) = False"
  "rf_applyPc (boot_node r i cfg) = ApplyOuter"
  "rf_nextIndex (boot_node r i cfg) = replicate (length (cc_Nodes cfg)) 0"
  "rf_matchIndex (boot_node r i cfg) = replicate (length (cc_Nodes cfg)) 0"
  using boot_node_fields [of r i cfg] by (auto simp: NewPaused_def Let_def)

lemma node_ok_boot: "node_ok cfg i (boot_node r i cfg)"
  by (simp add: node_ok_def)

lemma type_inv_start: "cluster_start cfg s \<Longrightarrow> type_inv cfg s"
  by (auto simp: cluster_start_def type_inv_def init_cluster_def node_ok_boot)

interpretation typed: invariant_of "cluster_start cfg" "cluster_step cfg" "\<lambda>_. True" "type_inv cfg" for cfg
  by unfold_locales (auto intro: type_inv_start type_inv_step)

end
