(* ===== verification/Raft_Steps.thy ===== *)
theory Raft_Steps
  imports Raft_Cluster
begin

text \<open>
  The steps of a well-typed cluster, sorted by what they mean for the protocol, with the
  effect on the node spelled out. Every invariant of the later theories is proved by
  these cases.
\<close>

text \<open>The node kept its role, term, vote, log, commit index and match indices, and no \<open>nextIndex\<close> grew.\<close>

definition quiet :: "Raft \<Rightarrow> Raft \<Rightarrow> bool" where
  "quiet rf rf' \<longleftrightarrow> rf_log rf' = rf_log rf \<and> rf_currentTerm rf' = rf_currentTerm rf \<and>
     rf_votedFor rf' = rf_votedFor rf \<and> rf_state rf' = rf_state rf \<and>
     rf_commitIndex rf' = rf_commitIndex rf \<and> rf_matchIndex rf' = rf_matchIndex rf \<and>
     list_all2 (\<le>) (rf_nextIndex rf') (rf_nextIndex rf)"

lemma list_all2_le_refl [simp]: "list_all2 (\<le>) (xs :: int list) xs"
  by (simp add: list.rel_refl)

lemma list_all2_decrement: "list_all2 (\<le>) ((xs :: int list)[k := xs ! k - 1]) xs"
  by (cases "k < length xs")
    (auto simp: list_all2_conv_all_nth nth_list_update list_update_beyond)

lemma list_all2_le_bound:
  "list_all2 (\<le>) (xs :: int list) ys \<Longrightarrow> x \<in> set xs \<Longrightarrow> \<exists>y \<in> set ys. x \<le> y"
  unfolding list_all2_conv_all_nth by (metis in_set_conv_nth)

text \<open>The role after a request of a possibly higher term.\<close>

definition role_after :: "Raft \<Rightarrow> int \<Rightarrow> Raft \<Rightarrow> bool" where
  "role_after rf t rf' \<longleftrightarrow> rf_currentTerm rf' = max (rf_currentTerm rf) t \<and>
     rf_state rf' = (if rf_currentTerm rf < t then Follower else rf_state rf)"

definition entry_of :: "nat \<Rightarrow> int \<Rightarrow> string \<Rightarrow> LogEntry" where
  "entry_of n t c = \<lparr>le_Index = int n + 1, le_Term = t, le_Command = c\<rparr>"

lemma entry_of_simps [simp]: "le_Term (entry_of n t c) = t" "le_Index (entry_of n t c) = int n + 1"
  by (simp_all add: entry_of_def)

definition new_match :: "AppendEntriesArgs \<Rightarrow> int" where
  "new_match args = ae_PrevLogIndex args + int (length (ae_Entries args))"

lemma type_inv_nodeD: "type_inv cfg s \<Longrightarrow> i \<in> node_ids cfg \<Longrightarrow> node_ok cfg i (cl_nodes s i)"
  by (simp add: type_inv_def)

lemma type_inv_msgD: "type_inv cfg s \<Longrightarrow> m \<in> sent s \<Longrightarrow> msg_ok cfg s m"
  by (simp add: type_inv_def)

lemma type_inv_waitD:
  "type_inv cfg s \<Longrightarrow> (c, t, v) \<in> set (cl_waiting s) \<Longrightarrow> c \<in> node_ids cfg \<and> v \<in> node_ids cfg \<and> v \<noteq> c"
  by (auto simp: type_inv_def)

lemma AppendEntries_role:
  assumes "AppendEntries r req rf = Inr (rf', reply)"
  shows "role_after rf (ae_Term req) rf'"
  using assms by (auto simp: AppendEntries_def Let_def go_bind_Inr_iff role_after_def
      split: if_splits)

lemma recv_cases:
  assumes wf: "wf_cfg cfg" and ok: "node_ok cfg i rf" and p: "p \<in> node_ids cfg"
    and rcv: "sendAppendEntries_recv r p args reply rf = Inr (rf', again)"
  obtains (down) "rf_currentTerm rf < aer_Term reply" "rf' = becomeFollower r (aer_Term reply) rf"
  | (quiet) "quiet rf rf'"
  | (ack) "aer_Success reply" "rf_state rf = Leader" "rf_currentTerm rf = ae_Term args"
      "rf_log rf' = rf_log rf" "rf_currentTerm rf' = rf_currentTerm rf" "rf_votedFor rf' = rf_votedFor rf"
      "rf_state rf' = Leader"
      "rf_matchIndex rf' = rf_matchIndex (record_match (nat p) (new_match args) rf)"
      "rf_nextIndex rf' = rf_nextIndex (record_match (nat p) (new_match args) rf)"
      "rf_commitIndex rf' = rf_commitIndex rf \<or>
       commit_point (record_match (nat p) (new_match args) rf) (rf_commitIndex rf')"
proof -
  have lw: "log_wf (rf_log rf)" and p': "0 \<le> p" "p < int (length (rf_matchIndex rf))"
      "length (rf_nextIndex rf) = length (rf_matchIndex rf)" "p < int (length (rf_nextIndex rf))"
    using ok p wf by (simp_all add: node_ok_def node_ids_wf)
  consider (up) "aer_Term reply > rf_currentTerm rf"
    | (stale) "aer_Term reply \<le> rf_currentTerm rf" "rf_state rf \<noteq> Leader \<or> rf_currentTerm rf \<noteq> ae_Term args"
    | (yes) "aer_Term reply \<le> rf_currentTerm rf" "rf_state rf = Leader" "rf_currentTerm rf = ae_Term args"
        "aer_Success reply"
    | (no) "aer_Term reply \<le> rf_currentTerm rf" "rf_state rf = Leader" "rf_currentTerm rf = ae_Term args"
        "\<not> aer_Success reply"
    by linarith
  then show thesis
  proof cases
    case up
    then show thesis using rcv sendAppendEntries_recv_other(1) [OF up, of r p args] by (intro down) auto
  next
    case stale
    then show thesis using rcv sendAppendEntries_recv_other(2) [OF stale, of r p]
      by (intro quiet) (auto simp: quiet_def)
  next
    case yes
    let ?rf1 = "record_match (nat p) (new_match args) rf"
    consider m where "commit_point ?rf1 m" "rf' = applyCond_Signal (?rf1\<lparr>rf_commitIndex := m\<rparr>)"
      | "rf' = ?rf1"
      using sendAppendEntries_recv_success [OF lw node_ok_ids [OF wf ok] p'(1-3) yes, of r,
          folded new_match_def] rcv by (auto simp: Let_def)
    then show thesis using yes by cases (intro ack; simp)+
  next
    case no
    then show thesis using rcv sendAppendEntries_recv_reject [OF p'(1,4) no, of r]
      by (intro quiet) (auto simp: quiet_def list_all2_decrement)
  qed
qed

lemma AppendEntries_cases:
  assumes ok: "node_ok cfg p rf" and wf: "ae_wf args"
    and ae: "AppendEntries r args rf = Inr (rf', reply)"
  obtains (reject) "\<not> aer_Success reply" "same_data rf rf'" "raft_evolves rf rf'"
      "role_after rf (ae_Term args) rf'"
  | (accept) "aer_Success reply" "raft_evolves rf rf'" "role_after rf (ae_Term args) rf'"
      "rf_currentTerm rf' = ae_Term args" "rf_currentTerm rf \<le> ae_Term args"
      "prev_matches args (log_list (rf_log rf))"
      "log_list (rf_log rf') =
         merge_spec (ae_prev args) (map from_pb (ae_Entries args)) (log_list (rf_log rf))"
      "rf_commitIndex rf' = (if ae_LeaderCommit args > rf_commitIndex rf
         then min (ae_LeaderCommit args) (int (length (log_list (rf_log rf')))) else rf_commitIndex rf)"
      "rf_matchIndex rf' = rf_matchIndex rf"
proof -
  have lw: "log_wf (rf_log rf)" using ok by (simp add: node_ok_def)
  note role = AppendEntries_role [OF ae]
  consider (st) "ae_Term args < rf_currentTerm rf"
    | (no) "rf_currentTerm rf \<le> ae_Term args" "\<not> prev_matches args (log_list (rf_log rf))"
    | (yes) "rf_currentTerm rf \<le> ae_Term args" "prev_matches args (log_list (rf_log rf))"
    by linarith
  then show thesis
  proof cases
    case st
    then show thesis using ae role AppendEntries_stale [OF st, of r] by (intro reject) auto
  next
    case no
    then show thesis using ae role AppendEntries_reject [OF lw wf no, of r] by (intro reject) auto
  next
    case yes
    then show thesis using ae role AppendEntries_accept [OF lw wf yes, of r] by (intro accept) auto
  qed
qed

lemma voteReply_cases:
  assumes ok: "node_ok cfg c rf" and vr: "voteReply r tm reply n rf = Inr (rf', n', won)"
  obtains (win) "won" "n' = n + 1" "rvr_VoteGranted reply" "rf_state rf = Candidate"
      "rf_currentTerm rf = tm" "int (length (cc_Nodes cfg) div 2 + 1) \<le> n'"
      "rf_state rf' = Leader" "rf_currentTerm rf' = tm" "rf_votedFor rf' = rf_votedFor rf"
      "log_list (rf_log rf') = log_list (rf_log rf) @ [entry_of (length (log_list (rf_log rf))) tm ''noop'']"
      "rf_commitIndex rf' = rf_commitIndex rf"
      "rf_matchIndex rf' = replicate (length (cc_Nodes cfg)) 0"
      "rf_nextIndex rf' = replicate (length (cc_Nodes cfg)) (int (length (log_list (rf_log rf))) + 1)"
  | (down) "\<not> won" "rf_currentTerm rf < rvr_Term reply" "n' = n" "rf' = becomeFollower r (rvr_Term reply) rf"
  | (count) "\<not> won" "rf' = rf" "n' = n \<or> n' = n + 1 \<and> rvr_VoteGranted reply"
proof -
  have lw: "log_wf (rf_log rf)" "length (rf_matchIndex rf) = length (rf_nextIndex rf)"
      "rf_peers rf = cc_Nodes cfg" "length (rf_nextIndex rf) = length (cc_Nodes cfg)"
    using ok by (simp_all add: node_ok_def)
  consider (w) "won" "n' = n + 1" "rvr_VoteGranted reply" "quorum rf \<le> n'" "rf_state rf = Candidate"
      "rf_currentTerm rf = tm" "becomeLeader rf = Inr rf'"
    | (d) "\<not> won" "rf_currentTerm rf < rf_currentTerm rf'" "n' = n" "rf' = becomeFollower r (rvr_Term reply) rf"
    | (n) "\<not> won" "rf' = rf" "n' = n \<or> n' = n + 1 \<and> rvr_VoteGranted reply"
    using voteReply_effect [OF vr lw(1,2)] by blast
  then show thesis
  proof cases
    case w
    with becomeLeader_effect [OF lw(1,2)] lw(3,4) show thesis
      by (intro win) (auto simp: quorum_def entry_of_def)
  qed (auto intro: down count)
qed

lemma cluster_step_cases:
  assumes step: "cluster_step cfg s t" and inv: "type_inv cfg s"
  obtains
    (still) i rf' where "i \<in> node_ids cfg" "t = set_node i rf' s" "quiet (cl_nodes s i) rf'"
  | (elect) i rf' args ps where "i \<in> node_ids cfg"
      "t = post (MRequestVote i args)
         (begin_election i args ps (note_vote True (rv_Term args) i (set_node i rf' s)))"
      "same_data (cl_nodes s i) rf'" "rv_Term args = node_term s i + 1" "rv_CandidateId args = i"
      "rf_currentTerm rf' = rv_Term args" "rf_state rf' = Candidate" "rf_votedFor rf' = i"
      "rv_LastLogIndex args = int (length (node_log s i))"
      "rv_LastLogTerm args = last_term (node_log s i)"
  | (vote) c args v rf' reply where "MRequestVote c args \<in> sent s" "v \<in> node_ids cfg" "v \<noteq> c"
      "t = post (MVoteReply c (rv_Term args) v reply)
         (note_vote (rvr_VoteGranted reply) (rv_Term args) v (set_node v rf' s))"
      "same_data (cl_nodes s v) rf'" "raft_evolves (cl_nodes s v) rf'"
      "role_after (cl_nodes s v) (rv_Term args) rf'" "rvr_Term reply = rf_currentTerm rf'"
      "rvr_VoteGranted reply \<Longrightarrow> rf_currentTerm rf' = rv_Term args \<and> rf_votedFor rf' = c \<and>
         up_to_date (rv_LastLogIndex args) (rv_LastLogTerm args) (node_log s v)"
  | (counted) c tm v votes' where "(c, tm, v) \<in> set (cl_waiting s)" "t = end_wait c tm v votes' s"
      "votes' = cl_votes s c tm \<or> votes' = cl_votes s c tm + 1 \<and>
         (\<exists>reply. MVoteReply c tm v reply \<in> sent s \<and> rvr_VoteGranted reply)"
  | (won) c tm v reply rf' where "(c, tm, v) \<in> set (cl_waiting s)"
      "t = end_wait c tm v (cl_votes s c tm + 1) (note_leader True c (set_node c rf' s))"
      "MVoteReply c tm v reply \<in> sent s" "rvr_VoteGranted reply" "node_state s c = Candidate"
      "node_term s c = tm" "int (length (cc_Nodes cfg) div 2 + 1) \<le> cl_votes s c tm + 1"
      "rf_state rf' = Leader" "rf_currentTerm rf' = tm"
      "rf_votedFor rf' = rf_votedFor (cl_nodes s c)"
      "log_list (rf_log rf') = node_log s c @ [entry_of (length (node_log s c)) tm ''noop'']"
      "rf_commitIndex rf' = node_commit s c"
      "rf_matchIndex rf' = replicate (length (cc_Nodes cfg)) 0"
      "rf_nextIndex rf' = replicate (length (cc_Nodes cfg)) (int (length (node_log s c)) + 1)"
  | (stepdown) i r tm w where "i \<in> node_ids cfg" "node_term s i < tm"
      "t = w (set_node i (becomeFollower r tm (cl_nodes s i)) s)"
      "w = id \<or> (\<exists>c t' v. w = end_wait c t' v (cl_votes s c t'))"
  | (send) i p args where "i \<in> node_ids cfg" "p \<in> node_ids cfg" "p \<noteq> i"
      "t = post (MAppend i p args) s" "node_state s i = Leader" "ae_wf args"
      "ae_Term args = node_term s i" "ae_PrevLogIndex args = rf_nextIndex (cl_nodes s i) ! nat p - 1"
      "map from_pb (ae_Entries args) = drop (ae_prev args) (node_log s i)"
      "ae_PrevLogTerm args = (if 0 < ae_prev args \<and> ae_prev args \<le> length (node_log s i)
         then le_Term (node_log s i ! (ae_prev args - 1)) else 0)"
      "ae_LeaderCommit args = node_commit s i"
  | (rejected) i p args rf' reply where "MAppend i p args \<in> sent s" "p \<in> node_ids cfg"
      "t = post (MAppendReply i p args reply) (set_node p rf' s)" "\<not> aer_Success reply"
      "same_data (cl_nodes s p) rf'" "raft_evolves (cl_nodes s p) rf'"
      "role_after (cl_nodes s p) (ae_Term args) rf'"
  | (accepted) i p args rf' reply where "MAppend i p args \<in> sent s" "p \<in> node_ids cfg"
      "t = post (MAppendReply i p args reply) (set_node p rf' s)" "aer_Success reply"
      "raft_evolves (cl_nodes s p) rf'" "role_after (cl_nodes s p) (ae_Term args) rf'"
      "rf_currentTerm rf' = ae_Term args" "node_term s p \<le> ae_Term args"
      "prev_matches args (node_log s p)"
      "log_list (rf_log rf') =
         merge_spec (ae_prev args) (map from_pb (ae_Entries args)) (node_log s p)"
      "rf_commitIndex rf' = (if ae_LeaderCommit args > node_commit s p
         then min (ae_LeaderCommit args) (int (length (log_list (rf_log rf')))) else node_commit s p)"
      "rf_matchIndex rf' = rf_matchIndex (cl_nodes s p)"
  | (acked) i p args reply rf' where "MAppendReply i p args reply \<in> sent s" "i \<in> node_ids cfg"
      "p \<in> node_ids cfg" "aer_Success reply" "node_state s i = Leader"
      "node_term s i = ae_Term args" "t = set_node i rf' s"
      "rf_log rf' = rf_log (cl_nodes s i)" "rf_currentTerm rf' = node_term s i"
      "rf_votedFor rf' = rf_votedFor (cl_nodes s i)" "rf_state rf' = Leader"
      "rf_matchIndex rf' = rf_matchIndex (record_match (nat p) (new_match args) (cl_nodes s i))"
      "rf_nextIndex rf' = rf_nextIndex (record_match (nat p) (new_match args) (cl_nodes s i))"
      "rf_commitIndex rf' = node_commit s i \<or>
         commit_point (record_match (nat p) (new_match args) (cl_nodes s i)) (rf_commitIndex rf')"
  | (command) i c rf' where "i \<in> node_ids cfg" "node_state s i = Leader"
      "t = note_leader True i (set_node i rf' s)"
      "log_list (rf_log rf') = node_log s i @ [entry_of (length (node_log s i)) (node_term s i) c]"
      "rf_currentTerm rf' = node_term s i" "rf_votedFor rf' = rf_votedFor (cl_nodes s i)"
      "rf_state rf' = Leader" "rf_commitIndex rf' = node_commit s i"
      "rf_matchIndex rf' = rf_matchIndex (cl_nodes s i)"
      "rf_nextIndex rf' = rf_nextIndex (cl_nodes s i)"
proof -
  note ok = type_inv_nodeD [OF inv] and msg = type_inv_msgD [OF inv]
  have wf: "wf_cfg cfg" using inv by (simp add: type_inv_def)
  show thesis
    using step
  proof cases
    case (timeout_quiet i r rf')
    with node_ok_startElection [OF ok timeout_quiet(2,3)] show thesis
      by (intro still [of i rf']) (auto simp: quiet_def same_data_def)
  next
    case (timeout i r rf' args ps)
    with node_ok_startElection [OF ok timeout(2,3)] show thesis
      by (intro elect [of i args ps rf']) auto
  next
    case (recv_vote c args v r1 r2 rf' reply)
    have lw: "log_wf (rf_log (cl_nodes s v))" using ok [OF recv_vote(3)] by (simp add: node_ok_def)
    have "rv_CandidateId args = c" using msg [OF recv_vote(2)] by (simp add: msg_ok_def)
    with RequestVote_effect [OF recv_vote(5) lw] RequestVote_state [OF recv_vote(5) lw] recv_vote
    show thesis by (intro vote [of c args v reply rf']) (auto simp: role_after_def)
  next
    case (vote_reply c tm v reply r rf' votes' won)
    have c: "c \<in> node_ids cfg" using type_inv_waitD [OF inv vote_reply(2)] by simp
    from ok [OF c] vote_reply(4) show thesis
    proof (cases rule: voteReply_cases)
      case win
      then show thesis using vote_reply by (intro won [of c tm v rf' reply]) auto
    next
      case down
      then show thesis using vote_reply(1) c
        by (intro stepdown [of c "rvr_Term reply" "end_wait c tm v (cl_votes s c tm)" r]) auto
    next
      case count
      then show thesis using vote_reply by (intro counted [of c tm v votes']) auto
    qed
  next
    case (vote_lost c tm v)
    then show thesis by (intro counted [of c tm v "cl_votes s c tm"]) auto
  next
    case (append_send i p args)
    with append_send_ok [OF wf ok [OF append_send(2)] append_send(3,5)] show thesis
      by (intro send [of i p args]) auto
  next
    case (recv_append i p args r rf' reply)
    have m: "p \<in> node_ids cfg" "ae_wf args" using msg [OF recv_append(2)] by (simp_all add: msg_ok_def)
    from ok [OF m(1)] m(2) recv_append(3) show thesis
    proof (cases rule: AppendEntries_cases)
      case reject
      then show thesis using recv_append m by (intro rejected [of i p args reply rf']) auto
    next
      case accept
      then show thesis using recv_append m by (intro accepted [of i p args reply rf']) auto
    qed
  next
    case (append_reply i p args reply r rf' again)
    have "MAppend i p args \<in> sent s" using msg [OF append_reply(2)] by (simp add: msg_ok_def)
    then have m: "i \<in> node_ids cfg" "p \<in> node_ids cfg" using msg by (fastforce simp: msg_ok_def)+
    from wf ok [OF m(1)] m(2) append_reply(3) show thesis
    proof (cases rule: recv_cases)
      case down
      then show thesis using append_reply m by (intro stepdown [of i "aer_Term reply" id r]) auto
    next
      case quiet
      then show thesis using append_reply m by (intro still [of i rf']) auto
    next
      case ack
      then show thesis using append_reply m by (intro acked [of i p args reply rf']) auto
    qed
  next
    case (client i c rf' index tm isLeader ps)
    have "log_wf (rf_log (cl_nodes s i))" using ok [OF client(2)] by (simp add: node_ok_def)
    from Start_effect [OF this, of c] client show thesis
      by (cases "node_state s i = Leader")
        (auto intro: still [of i rf'] command [of i rf' c] simp: quiet_def entry_of_def)
  next
    case (apply_round i)
    then show thesis by (intro still [of i "applyLoop (cl_nodes s i)"]) (simp_all add: quiet_def)
  next
    case (kill i)
    then show thesis by (intro still [of i "Kill (cl_nodes s i)"]) (simp_all add: quiet_def)
  qed
qed

text \<open>Every step only adds messages and moves every node along its order.\<close>

lemma raft_evolves_quiet:
  "quiet rf rf' \<Longrightarrow> rf_id rf' = rf_id rf \<Longrightarrow> rf_peers rf' = rf_peers rf \<Longrightarrow> raft_evolves rf rf'"
  by (simp add: quiet_def raft_evolves_def)

lemma step_sent: "cluster_step cfg s t \<Longrightarrow> sent s \<subseteq> sent t"
  by (cases rule: cluster_step.cases) auto

lemma step_evolves:
  assumes step: "cluster_step cfg s t" and inv: "type_inv cfg s" and i: "i \<in> node_ids cfg"
  shows "raft_evolves (cl_nodes s i) (cl_nodes t i)"
proof -
  have ids: "rf_id (cl_nodes u j) = j \<and> rf_peers (cl_nodes u j) = cc_Nodes cfg"
    if "type_inv cfg u" "j \<in> node_ids cfg" for u j
    using type_inv_nodeD [OF that] by (simp add: node_ok_def)
  have inv': "type_inv cfg t" using inv step by (rule type_inv_step)
  note same = ids [OF inv i] ids [OF inv' i]
  from step inv show ?thesis
  proof (cases rule: cluster_step_cases)
    case (still j rf')
    then show ?thesis using same by (auto simp: raft_evolves_quiet)
  next
    case (elect j rf' args ps)
    then show ?thesis using same by (auto simp: raft_evolves_def)
  next
    case (won c tm v reply rf')
    then show ?thesis using same by (auto simp: raft_evolves_def)
  next
    case (stepdown j r tm w)
    then show ?thesis by (auto simp: raft_evolves_becomeFollower)
  next
    case (acked j p args reply rf')
    then show ?thesis using same by (auto simp: raft_evolves_def)
  next
    case (command j c rf')
    then show ?thesis using same by (auto simp: raft_evolves_def)
  qed auto
qed

lemma step_term_mono:
  "cluster_step cfg s t \<Longrightarrow> type_inv cfg s \<Longrightarrow> i \<in> node_ids cfg \<Longrightarrow> node_term s i \<le> node_term t i"
  using step_evolves by (auto simp: raft_evolves_def)

end
