(* ===== verification/Raft_Election.thy ===== *)
theory Raft_Election
  imports Raft_Steps
begin

text \<open>
  Election safety of the cluster: a node gives at most one vote per term, the shared
  counter of an election never exceeds the votes received, a leader has a majority, and
  therefore a term has at most one leader.
\<close>

section \<open>Votes\<close>

definition granted :: "Cluster \<Rightarrow> int \<Rightarrow> int \<Rightarrow> int \<Rightarrow> bool" where
  "granted s c t v \<longleftrightarrow> (\<exists>reply. MVoteReply c t v reply \<in> sent s \<and> rvr_VoteGranted reply)"

definition stood :: "Cluster \<Rightarrow> int \<Rightarrow> int \<Rightarrow> bool" where
  "stood s c t \<longleftrightarrow> (\<exists>args. MRequestVote c args \<in> sent s \<and> rv_Term args = t)"

text \<open>Node \<open>v\<close> gave its vote of term \<open>t\<close> to \<open>c\<close>: by a reply, or by standing itself.\<close>

definition voted :: "Cluster \<Rightarrow> int \<Rightarrow> int \<Rightarrow> int \<Rightarrow> bool" where
  "voted s t v c \<longleftrightarrow> granted s c t v \<or> v = c \<and> stood s c t"

definition majority :: "ClusterConfig \<Rightarrow> int set \<Rightarrow> bool" where
  "majority cfg Q \<longleftrightarrow> Q \<subseteq> node_ids cfg \<and> card (node_ids cfg) div 2 + 1 \<le> card Q"

interpretation maj: quorum_system "node_ids cfg" "majority cfg" for cfg
proof
  fix P Q
  assume "majority cfg P" and "majority cfg Q"
  then show "\<exists>v. v \<in> P \<and> v \<in> Q"
    by (intro majorities_share [of "node_ids cfg"]) (simp_all add: majority_def)
qed (simp add: majority_def)

lemma majority_mono: "majority cfg P \<Longrightarrow> P \<subseteq> Q \<Longrightarrow> Q \<subseteq> node_ids cfg \<Longrightarrow> majority cfg Q"
  unfolding majority_def by (meson card_mono finite_node_ids finite_subset order_trans)

lemma sent_mono_votes:
  assumes "sent s \<subseteq> sent t"
  shows "granted s c tm v \<Longrightarrow> granted t c tm v" "stood s c tm \<Longrightarrow> stood t c tm"
    "voted s tm v c \<Longrightarrow> voted t tm v c"
  using assms by (auto simp: granted_def stood_def voted_def)

lemma voted_ids:
  assumes "type_inv cfg s" and "voted s t v c"
  shows "v \<in> node_ids cfg" and "c \<in> node_ids cfg"
  using assms(2) type_inv_msgD [OF assms(1)]
  by (fastforce simp: voted_def granted_def stood_def msg_ok_def)+

lemma ids_not_minus_one: "type_inv cfg s \<Longrightarrow> c \<in> node_ids cfg \<Longrightarrow> c \<noteq> - 1"
  by (auto simp: type_inv_def node_ids_wf)

text \<open>A vote that a step adds is the node's recorded vote of its current term.\<close>

lemma new_vote:
  assumes step: "cluster_step cfg s t" and inv: "type_inv cfg s"
    and new: "voted t tm v c" and old: "\<not> voted s tm v c"
  shows "node_term t v = tm \<and> rf_votedFor (cl_nodes t v) = c"
  using step inv
proof (cases rule: cluster_step_cases)
  case (elect i rf' args ps)
  then show ?thesis using new old by (auto simp: voted_def granted_def stood_def)
next
  case (vote c' args u rf' reply)
  then show ?thesis using new old by (auto simp: voted_def granted_def stood_def)
next
  case (stepdown i r tm' w)
  then have "sent t = sent s" by auto
  then show ?thesis using new old by (simp add: voted_def granted_def stood_def)
qed (use new old in \<open>auto simp: voted_def granted_def stood_def\<close>)

definition vote_inv :: "Cluster \<Rightarrow> bool" where
  "vote_inv s \<longleftrightarrow>
     (\<forall>tm v c. voted s tm v c \<longrightarrow> tm \<le> node_term s v \<and>
        (tm = node_term s v \<longrightarrow> rf_votedFor (cl_nodes s v) = c)) \<and>
     (\<forall>tm v c c'. voted s tm v c \<longrightarrow> voted s tm v c' \<longrightarrow> c = c')"

lemma vote_kept:
  assumes step: "cluster_step cfg s t" and type: "type_inv cfg s" and inv: "vote_inv s"
    and old: "voted s tm v c"
  shows "tm \<le> node_term t v \<and> (tm = node_term t v \<longrightarrow> rf_votedFor (cl_nodes t v) = c)"
proof -
  have v: "v \<in> node_ids cfg" and c: "c \<noteq> - 1"
    using voted_ids [OF type old] ids_not_minus_one [OF type] by auto
  have "tm \<le> node_term s v" "tm = node_term s v \<Longrightarrow> rf_votedFor (cl_nodes s v) = c"
    using inv old by (auto simp: vote_inv_def)
  then show ?thesis using step_evolves [OF step type v] c by (auto simp: raft_evolves_def)
qed

lemma vote_inv_step:
  assumes step: "cluster_step cfg s t" and type: "type_inv cfg s" and inv: "vote_inv s"
  shows "vote_inv t"
proof -
  have now: "tm \<le> node_term t v \<and> (tm = node_term t v \<longrightarrow> rf_votedFor (cl_nodes t v) = c)"
    if "voted t tm v c" for tm v c
    using vote_kept [OF step type inv, of tm v c] new_vote [OF step type that]
    by (cases "voted s tm v c") auto
  have "c = c'" if "voted t tm v c" "voted t tm v c'" for tm v c c'
  proof (cases "voted s tm v c \<and> voted s tm v c'")
    case True
    then show ?thesis using inv by (auto simp: vote_inv_def)
  next
    case False
    then have "node_term t v = tm" using new_vote [OF step type] that by blast
    then show ?thesis using now [OF that(1)] now [OF that(2)] by simp
  qed
  with now show ?thesis unfolding vote_inv_def by blast
qed

lemma vote_inv_start: "cluster_start cfg s \<Longrightarrow> vote_inv s"
  by (auto simp: cluster_start_def init_cluster_def vote_inv_def voted_def granted_def stood_def)

interpretation votes: invariant_of "cluster_start cfg" "cluster_step cfg" "type_inv cfg" vote_inv for cfg
  by unfold_locales (auto intro: vote_inv_start vote_inv_step typed.reach_inv)

section \<open>The vote counter\<close>

text \<open>The voters whose granted reply an election has already processed.\<close>

definition counted :: "Cluster \<Rightarrow> int \<Rightarrow> int set" where
  "counted s c = {v. v \<noteq> c \<and> granted s c (node_term s c) v \<and>
     (c, node_term s c, v) \<notin> set (cl_waiting s)}"

definition count_inv :: "ClusterConfig \<Rightarrow> Cluster \<Rightarrow> bool" where
  "count_inv cfg s \<longleftrightarrow> (\<forall>c \<in> node_ids cfg. node_state s c = Candidate \<longrightarrow>
     stood s c (node_term s c) \<and>
     cl_votes s c (node_term s c) \<le> 1 + int (card (counted s c)))"

lemma counted_subset: "type_inv cfg s \<Longrightarrow> counted s c \<subseteq> node_ids cfg"
  using voted_ids by (fastforce simp: counted_def voted_def)

lemma finite_counted: "type_inv cfg s \<Longrightarrow> finite (counted s c)"
  by (rule finite_subset [OF counted_subset finite_node_ids])

text \<open>
  A step after which the candidate is still a candidate of the same election, with the
  same counter and no new waiting goroutine, keeps the bound.
\<close>

lemma count_inv_keep:
  assumes inv: "count_inv cfg s" and step: "cluster_step cfg s t" and type: "type_inv cfg t"
    and c: "c \<in> node_ids cfg" "node_state s c = Candidate" "node_term t c = node_term s c"
    and wait: "set (cl_waiting t) \<subseteq> set (cl_waiting s)"
    and votes: "cl_votes t c (node_term s c) = cl_votes s c (node_term s c)"
  shows "stood t c (node_term t c) \<and> cl_votes t c (node_term t c) \<le> 1 + int (card (counted t c))"
proof -
  have "counted s c \<subseteq> counted t c"
    using sent_mono_votes [OF step_sent [OF step]] wait c(3) by (auto simp: counted_def)
  then have "card (counted s c) \<le> card (counted t c)"
    by (rule card_mono [OF finite_counted [OF type]])
  then show ?thesis
    using inv c votes sent_mono_votes(2) [OF step_sent [OF step]] by (auto simp: count_inv_def)
qed

lemma counted_grows:
  assumes type: "type_inv cfg s" and "(c, node_term s c, v) \<in> set (cl_waiting s)"
    and "granted s c (node_term s c) v"
  shows "card (insert v (counted s c)) = Suc (card (counted s c))"
    and "insert v (counted s c) \<subseteq> counted (end_wait c (node_term s c) v n s) c"
  using assms finite_counted [OF type] type_inv_waitD [OF type assms(2)]
  by (auto simp: counted_def granted_def)

lemma count_inv_end_wait:
  assumes inv: "count_inv cfg s" and type: "type_inv cfg s"
    and t: "t = end_wait c tm v votes' s" and type': "type_inv cfg t" and step: "cluster_step cfg s t"
    and w: "(c, tm, v) \<in> set (cl_waiting s)"
    and votes: "votes' = cl_votes s c tm \<or> votes' = cl_votes s c tm + 1 \<and> granted s c tm v"
    and d: "d \<in> node_ids cfg" "node_state s d = Candidate"
  shows "stood t d (node_term t d) \<and> cl_votes t d (node_term t d) \<le> 1 + int (card (counted t d))"
proof (cases "d = c \<and> tm = node_term s c \<and> votes' \<noteq> cl_votes s c tm")
  case False
  then show ?thesis
    using t by (intro count_inv_keep [OF inv step type' d]) auto
next
  case True
  then have g: "votes' = cl_votes s c tm + 1" "granted s c (node_term s c) v"
      "(c, node_term s c, v) \<in> set (cl_waiting s)" "tm = node_term s c" "d = c"
    using votes w by auto
  have "card (insert v (counted s c)) \<le> card (counted t c)"
    using counted_grows(2) [OF type g(3,2)] t g(4) finite_counted [OF type']
    by (intro card_mono) auto
  then have "Suc (card (counted s c)) \<le> card (counted t c)"
    using counted_grows(1) [OF type g(3,2)] by simp
  then show ?thesis
    using inv d g t by (auto simp: count_inv_def stood_def)
qed

lemma count_inv_step:
  assumes step: "cluster_step cfg s t" and type: "type_inv cfg s" and type': "type_inv cfg t"
    and inv: "count_inv cfg s"
  shows "count_inv cfg t"
  unfolding count_inv_def
proof (intro ballI impI)
  fix d
  assume d: "d \<in> node_ids cfg" "node_state t d = Candidate"
  note keep = count_inv_keep [OF inv step type' d(1)]
  from step type
  show "stood t d (node_term t d) \<and> cl_votes t d (node_term t d) \<le> 1 + int (card (counted t d))"
  proof (cases rule: cluster_step_cases)
    case (elect i rf' args ps)
    show ?thesis
    proof (cases "d = i")
      case True
      then show ?thesis using elect by (auto simp: stood_def)
    next
      case False
      then have "counted s d \<subseteq> counted t d"
        using elect by (auto simp: counted_def granted_def)
      then have "card (counted s d) \<le> card (counted t d)"
        by (rule card_mono [OF finite_counted [OF type']])
      then show ?thesis using False elect d inv by (auto simp: count_inv_def stood_def)
    qed
  next
    case (counted c tm v votes')
    then show ?thesis
      using d by (intro count_inv_end_wait [OF inv type counted(2) type' step counted(1)])
        (auto simp: granted_def)
  next
    case (stepdown i r tm w)
    then show ?thesis using d by (intro keep) (auto split: if_splits)
  qed (use d in \<open>intro keep; auto simp: quiet_def role_after_def split: if_splits\<close>)+
qed

lemma count_inv_start: "cluster_start cfg s \<Longrightarrow> count_inv cfg s"
  by (auto simp: cluster_start_def init_cluster_def count_inv_def)

interpretation counts: invariant_of "cluster_start cfg" "cluster_step cfg" "type_inv cfg" "count_inv cfg" for cfg
  by unfold_locales (auto intro: count_inv_start count_inv_step typed.reach_inv)

section \<open>Leaders\<close>

definition voters :: "ClusterConfig \<Rightarrow> Cluster \<Rightarrow> int \<Rightarrow> int \<Rightarrow> int set" where
  "voters cfg s t c = {v \<in> node_ids cfg. voted s t v c}"

definition leader_inv :: "ClusterConfig \<Rightarrow> Cluster \<Rightarrow> bool" where
  "leader_inv cfg s \<longleftrightarrow>
     (\<forall>c \<in> node_ids cfg. node_state s c = Leader \<longrightarrow> h_leader s (node_term s c) = Some c) \<and>
     (\<forall>tm c. h_leader s tm = Some c \<longrightarrow> c \<in> node_ids cfg \<and> majority cfg (voters cfg s tm c) \<and>
        1 \<le> tm \<and> tm \<le> node_term s c \<and> (tm = node_term s c \<longrightarrow> node_state s c = Leader))"

lemma leader_invD:
  assumes "leader_inv cfg s" and "h_leader s tm = Some c"
  shows "c \<in> node_ids cfg" "majority cfg (voters cfg s tm c)" "1 \<le> tm" "tm \<le> node_term s c"
    "tm = node_term s c \<Longrightarrow> node_state s c = Leader"
  using assms by (auto simp: leader_inv_def)

lemma leader_invL:
  "leader_inv cfg s \<Longrightarrow> c \<in> node_ids cfg \<Longrightarrow> node_state s c = Leader \<Longrightarrow> h_leader s (node_term s c) = Some c"
  by (simp add: leader_inv_def)

lemma voters_mono: "sent s \<subseteq> sent t \<Longrightarrow> voters cfg s tm c \<subseteq> voters cfg t tm c"
  using sent_mono_votes by (auto simp: voters_def)

lemma majority_voters_mono:
  "majority cfg (voters cfg s tm c) \<Longrightarrow> sent s \<subseteq> sent t \<Longrightarrow> majority cfg (voters cfg t tm c)"
  by (rule majority_mono) (auto simp: voters_def intro: sent_mono_votes)

text \<open>Two nodes with a majority of votes of one term are the same node.\<close>

lemma voters_unique:
  assumes "vote_inv s" and "majority cfg (voters cfg s tm a)" and "majority cfg (voters cfg s tm b)"
  shows "a = b"
  by (rule maj.quorum_unique [OF assms(2,3), of "\<lambda>v c. voted s tm v c"])
    (use assms(1) in \<open>auto simp: voters_def vote_inv_def\<close>)

text \<open>The node that \<open>voteReply\<close> makes a leader has the votes.\<close>

lemma win_majority:
  assumes type: "type_inv cfg s" and inv: "count_inv cfg s" and w: "(c, node_term s c, v) \<in> set (cl_waiting s)"
    and g: "granted s c (node_term s c) v" and st: "node_state s c = Candidate"
    and enough: "int (length (cc_Nodes cfg) div 2 + 1) \<le> cl_votes s c (node_term s c) + 1"
  shows "majority cfg (voters cfg s (node_term s c) c)"
proof -
  have c: "c \<in> node_ids cfg" "v \<in> node_ids cfg" "v \<noteq> c" using type_inv_waitD [OF type w] by auto
  have stood: "stood s c (node_term s c)"
    and bound: "cl_votes s c (node_term s c) \<le> 1 + int (card (counted s c))"
    using inv c st by (auto simp: count_inv_def)
  let ?Q = "insert c (insert v (counted s c))"
  have sub: "?Q \<subseteq> voters cfg s (node_term s c) c"
    using c g stood counted_subset [OF type] by (auto simp: voters_def voted_def counted_def)
  have "card ?Q = Suc (Suc (card (counted s c)))"
    using counted_grows(1) [OF type w g] finite_counted [OF type] c by (auto simp: counted_def)
  moreover have "card (node_ids cfg) = length (cc_Nodes cfg)"
    using type by (simp add: card_node_ids type_inv_def)
  ultimately have "majority cfg ?Q"
    using enough bound sub by (auto simp: majority_def voters_def)
  then show ?thesis using sub by (rule majority_mono) (auto simp: voters_def)
qed

text \<open>A term that a node is about to win has no leader yet.\<close>

lemma win_fresh:
  assumes "vote_inv s" and "leader_inv cfg s" and "majority cfg (voters cfg s (node_term s c) c)"
    and "node_state s c \<noteq> Leader"
  shows "h_leader s (node_term s c) = None"
proof (cases "h_leader s (node_term s c)")
  case (Some c')
  have "c' = c" by (rule voters_unique [OF assms(1) leader_invD(2) [OF assms(2) Some] assms(3)])
  then show ?thesis using Some leader_invD(5) [OF assms(2) Some] assms(4) by simp
qed simp

text \<open>The history of leaders changes by a win only, and then at a term without leader.\<close>

lemma step_leader_history:
  assumes step: "cluster_step cfg s t" and type: "type_inv cfg s" and votes: "vote_inv s"
    and counts: "count_inv cfg s" and inv: "leader_inv cfg s"
  shows "h_leader t = h_leader s \<or> (\<exists>c \<in> node_ids cfg. h_leader s (node_term s c) = None \<and>
    h_leader t = (h_leader s)(node_term s c := Some c) \<and> node_state s c = Candidate \<and>
    node_term t c = node_term s c \<and> node_state t c = Leader \<and> 1 \<le> node_term s c \<and>
    majority cfg (voters cfg s (node_term s c) c))"
  using step type
proof (cases rule: cluster_step_cases)
  case (won c tm v reply rf')
  have c: "c \<in> node_ids cfg" using type_inv_waitD [OF type won(1)] by simp
  have "majority cfg (voters cfg s (node_term s c) c)"
    using won by (intro win_majority [OF type counts, of c v]) (auto simp: granted_def)
  moreover from this have "h_leader s (node_term s c) = None"
    using win_fresh [OF votes inv] won(5) by simp
  moreover have "1 \<le> node_term s c" using type_inv_nodeD [OF type c] won(5) by (simp add: node_ok_def)
  ultimately show ?thesis using won c by (intro disjI2 bexI [of _ c]) auto
next
  case (command i c rf')
  then show ?thesis using leader_invL [OF inv command(1,2)] by (auto simp: fun_upd_idem)
next
  case (stepdown i r tm w)
  then show ?thesis by auto
qed simp_all

lemma leader_inv_step:
  assumes step: "cluster_step cfg s t" and type: "type_inv cfg s" and votes: "vote_inv s"
    and counts: "count_inv cfg s" and inv: "leader_inv cfg s"
  shows "leader_inv cfg t"
proof -
  note ev = step_evolves [OF step type, unfolded raft_evolves_def]
  note hist = step_leader_history [OF assms]
  have old: "c \<in> node_ids cfg \<and> majority cfg (voters cfg t tm c) \<and> 1 \<le> tm \<and> tm \<le> node_term t c \<and>
      (tm = node_term t c \<longrightarrow> node_state t c = Leader)" if "h_leader s tm = Some c" for tm c
    using leader_invD [OF inv that] ev [of c] majority_voters_mono [OF _ step_sent [OF step]] by auto
  have new: "c \<in> node_ids cfg \<and> majority cfg (voters cfg t tm c) \<and> 1 \<le> tm \<and> tm \<le> node_term t c \<and>
      (tm = node_term t c \<longrightarrow> node_state t c = Leader)" if "h_leader t tm = Some c" for tm c
    using hist that old [of tm c] majority_voters_mono [OF _ step_sent [OF step]]
    by (auto split: if_splits)
  have "h_leader t (node_term t c) = Some c" if c: "c \<in> node_ids cfg" and l: "node_state t c = Leader" for c
  proof (cases "node_state s c = Leader")
    case True
    then have "node_term t c = node_term s c" using ev [OF c] l by auto
    then show ?thesis using hist leader_invL [OF inv c True] by (auto split: if_splits)
  next
    case False
    from step type show ?thesis
      by (cases rule: cluster_step_cases)
        (use False l c in \<open>auto simp: quiet_def role_after_def split: if_splits\<close>)
  qed
  with new show ?thesis unfolding leader_inv_def by blast
qed

lemma leader_inv_start: "cluster_start cfg s \<Longrightarrow> leader_inv cfg s"
  by (auto simp: cluster_start_def init_cluster_def leader_inv_def)

definition elect_base :: "ClusterConfig \<Rightarrow> Cluster \<Rightarrow> bool" where
  "elect_base cfg s \<longleftrightarrow> type_inv cfg s \<and> vote_inv s \<and> count_inv cfg s"

interpretation leaders: invariant_of "cluster_start cfg" "cluster_step cfg" "elect_base cfg" "leader_inv cfg" for cfg
  by unfold_locales (auto simp: elect_base_def intro: leader_inv_start leader_inv_step
      typed.reach_inv votes.reach_inv counts.reach_inv)

end
