(* ===== verification/Raft_Matching.thy ===== *)
theory Raft_Matching
  imports Raft_Election
begin

text \<open>
  Log matching: every log in the cluster agrees, up to each of its entries, with the log
  of the leader that wrote the entry. Two logs with the same term at an index are
  therefore equal up to that index, terms never decrease along a log, and every request
  carries a segment of its leader's log.
\<close>

section \<open>Agreement with the leaders' logs\<close>

definition prefix_ok :: "Cluster \<Rightarrow> LogEntry list \<Rightarrow> bool" where
  "prefix_ok s L \<longleftrightarrow> (\<forall>k < length L.
     take (Suc k) L = take (Suc k) (h_tlog s (le_Term (L ! k))))"

definition tlog_ext :: "Cluster \<Rightarrow> Cluster \<Rightarrow> bool" where
  "tlog_ext s t \<longleftrightarrow> (\<forall>tm. \<exists>ys. h_tlog t tm = h_tlog s tm @ ys)"

lemma tlog_ext_refl [simp]: "h_tlog t = h_tlog s \<Longrightarrow> tlog_ext s t"
  by (simp add: tlog_ext_def)

lemma tlog_ext_take:
  assumes "tlog_ext s t" and "k \<le> length (h_tlog s tm)"
  shows "take k (h_tlog t tm) = take k (h_tlog s tm)"
proof -
  obtain ys where "h_tlog t tm = h_tlog s tm @ ys" using assms(1) by (auto simp: tlog_ext_def)
  then show ?thesis using assms(2) by simp
qed

lemma tlog_ext_length: "tlog_ext s t \<Longrightarrow> length (h_tlog s tm) \<le> length (h_tlog t tm)"
  by (metis le_add1 length_append tlog_ext_def)

lemma prefix_okD: "prefix_ok s L \<Longrightarrow> k < length L \<Longrightarrow> take (Suc k) L = take (Suc k) (h_tlog s (le_Term (L ! k)))"
  by (simp add: prefix_ok_def)

lemma prefix_ok_length: "prefix_ok s L \<Longrightarrow> k < length L \<Longrightarrow> k < length (h_tlog s (le_Term (L ! k)))"
  using take_eq_length [OF prefix_okD] by (metis Suc_le_eq)

lemma prefix_ok_mono:
  assumes "prefix_ok s L" and "tlog_ext s t"
  shows "prefix_ok t L"
  unfolding prefix_ok_def
proof (intro allI impI)
  fix k
  assume "k < length L"
  then show "take (Suc k) L = take (Suc k) (h_tlog t (le_Term (L ! k)))"
    using prefix_okD [OF assms(1)] prefix_ok_length [OF assms(1)] tlog_ext_take [OF assms(2), of "Suc k"]
    by (metis Suc_leI)
qed

lemma prefix_ok_take: "prefix_ok s L \<Longrightarrow> prefix_ok s (take n L)"
  by (auto simp: prefix_ok_def min_def)

lemma prefix_ok_snoc:
  assumes "prefix_ok s L" and "h_tlog s (le_Term e) = L @ [e]"
  shows "prefix_ok s (L @ [e])"
  using assms by (auto simp: prefix_ok_def nth_append less_Suc_eq)

text \<open>Two logs that agree with the leaders agree with each other at equal terms.\<close>

lemma prefix_ok_agree:
  assumes "prefix_ok s L" and "prefix_ok s M" and "k < length L" and "k < length M"
    and "le_Term (L ! k) = le_Term (M ! k)"
  shows "take (Suc k) L = take (Suc k) M"
  using prefix_okD [OF assms(1,3)] prefix_okD [OF assms(2,4)] assms(5) by simp

text \<open>The request carries the segment of \<open>M\<close> that follows its \<open>PrevLogIndex\<close>.\<close>

definition ae_end :: "AppendEntriesArgs \<Rightarrow> nat" where
  "ae_end args = ae_prev args + length (ae_Entries args)"

definition segment_of :: "AppendEntriesArgs \<Rightarrow> LogEntry list \<Rightarrow> bool" where
  "segment_of args M \<longleftrightarrow> ae_end args \<le> length M \<and>
     map from_pb (ae_Entries args) = take (length (ae_Entries args)) (drop (ae_prev args) M) \<and>
     (0 < ae_prev args \<longrightarrow> ae_PrevLogTerm args = le_Term (M ! (ae_prev args - 1)))"

lemma segment_of_append: "segment_of args M \<Longrightarrow> segment_of args (M @ ys)"
  by (auto simp: segment_of_def ae_end_def nth_append)

lemma new_match_end: "ae_wf args \<Longrightarrow> new_match args = int (ae_end args)"
  by (simp add: new_match_def ae_end_def ae_prev_def ae_wf_def)

text \<open>
  Accepting a segment of \<open>M\<close>: the log agrees with \<open>M\<close> up to the segment's end and is
  the old log or that part of \<open>M\<close>.
\<close>

lemma accept_merge:
  assumes L: "prefix_ok s L" and M: "prefix_ok s M" and seg: "segment_of args M"
    and prev: "prev_matches args L"
    and new: "L' = merge_spec (ae_prev args) (map from_pb (ae_Entries args)) L"
  shows "take (ae_end args) L' = take (ae_end args) M" and "L' = L \<or> L' = take (ae_end args) M"
proof -
  let ?p = "ae_prev args"
  have end_le: "ae_end args \<le> length M" using seg by (simp add: segment_of_def)
  have agree: "take ?p L = take ?p M"
  proof (cases "?p = 0")
    case False
    then have "le_Term (L ! (?p - 1)) = le_Term (M ! (?p - 1))" "?p \<le> length L"
      using prev seg by (auto simp: prev_matches_def segment_of_def)
    moreover have "?p \<le> length M" using end_le by (simp add: ae_end_def)
    ultimately show ?thesis using prefix_ok_agree [OF L M, of "?p - 1"] False by simp
  qed simp
  have "take (?p + length (map from_pb (ae_Entries args))) L' =
      take (?p + length (map from_pb (ae_Entries args))) M \<and>
    (L' = L \<or> L' = take (?p + length (map from_pb (ae_Entries args))) M)"
    unfolding new
    using prev_matches_le [OF prev] agree end_le seg prefix_ok_agree [OF L M]
    by (intro merge_spec_agrees) (auto simp: ae_end_def segment_of_def)
  then show "take (ae_end args) L' = take (ae_end args) M" "L' = L \<or> L' = take (ae_end args) M"
    by (simp_all add: ae_end_def)
qed

section \<open>The invariant\<close>

definition logs_ok :: "ClusterConfig \<Rightarrow> Cluster \<Rightarrow> bool" where
  "logs_ok cfg s \<longleftrightarrow> (\<forall>i \<in> node_ids cfg. prefix_ok s (node_log s i)) \<and>
     (\<forall>tm. prefix_ok s (h_tlog s tm)) \<and> (\<forall>tm v. prefix_ok s (h_voter s tm v))"

definition tlogs_ok :: "ClusterConfig \<Rightarrow> Cluster \<Rightarrow> bool" where
  "tlogs_ok cfg s \<longleftrightarrow> (\<forall>tm. \<forall>e \<in> set (h_tlog s tm). le_Term e \<le> tm) \<and>
     (\<forall>tm. h_leader s tm = None \<longrightarrow> h_tlog s tm = []) \<and>
     (\<forall>i \<in> node_ids cfg. node_state s i = Leader \<longrightarrow> h_tlog s (node_term s i) = node_log s i \<and>
        (\<forall>x \<in> set (rf_nextIndex (cl_nodes s i)). x \<le> int (length (node_log s i)) + 1))"

definition requests_ok :: "Cluster \<Rightarrow> bool" where
  "requests_ok s \<longleftrightarrow> (\<forall>i p args. MAppend i p args \<in> sent s \<longrightarrow>
     h_leader s (ae_Term args) = Some i \<and> segment_of args (h_tlog s (ae_Term args)))"

definition match_inv :: "ClusterConfig \<Rightarrow> Cluster \<Rightarrow> bool" where
  "match_inv cfg s \<longleftrightarrow> logs_ok cfg s \<and> tlogs_ok cfg s \<and> requests_ok s"

lemma match_invD:
  assumes "match_inv cfg s"
  shows "i \<in> node_ids cfg \<Longrightarrow> prefix_ok s (node_log s i)" "prefix_ok s (h_tlog s tm)"
    "prefix_ok s (h_voter s tm v)" "e \<in> set (h_tlog s tm) \<Longrightarrow> le_Term e \<le> tm"
    "h_leader s tm = None \<Longrightarrow> h_tlog s tm = []"
    "i \<in> node_ids cfg \<Longrightarrow> node_state s i = Leader \<Longrightarrow> h_tlog s (node_term s i) = node_log s i"
    "i \<in> node_ids cfg \<Longrightarrow> node_state s i = Leader \<Longrightarrow> x \<in> set (rf_nextIndex (cl_nodes s i)) \<Longrightarrow>
      x \<le> int (length (node_log s i)) + 1"
    "MAppend j p args \<in> sent s \<Longrightarrow> h_leader s (ae_Term args) = Some j"
    "MAppend j p args \<in> sent s \<Longrightarrow> segment_of args (h_tlog s (ae_Term args))"
  using assms by (auto simp: match_inv_def logs_ok_def tlogs_ok_def requests_ok_def)

definition match_base :: "ClusterConfig \<Rightarrow> Cluster \<Rightarrow> bool" where
  "match_base cfg s \<longleftrightarrow> elect_base cfg s \<and> leader_inv cfg s"

lemma match_baseD:
  assumes "match_base cfg s"
  shows "type_inv cfg s" "vote_inv s" "count_inv cfg s" "leader_inv cfg s"
  using assms by (auto simp: match_base_def elect_base_def)

text \<open>
  How a step changes the leaders' logs: not at all, or the log of the term of one node
  becomes that node's log, which extends what was recorded.
\<close>

lemma step_tlog:
  assumes step: "cluster_step cfg s t" and base: "match_base cfg s" and inv: "match_inv cfg s"
  shows "h_tlog t = h_tlog s \<or> (\<exists>i \<in> node_ids cfg. node_state t i = Leader \<and>
    node_term t i = node_term s i \<and> h_leader t (node_term s i) = Some i \<and>
    h_tlog t = (h_tlog s)(node_term s i := node_log t i) \<and>
    (\<exists>e. node_log t i = node_log s i @ [e] \<and> le_Term e = node_term s i) \<and>
    (h_tlog s (node_term s i) = [] \<or> h_tlog s (node_term s i) = node_log s i))"
  using step match_baseD(1) [OF base]
proof (cases rule: cluster_step_cases)
  case (won c tm v reply rf')
  have c: "c \<in> node_ids cfg" using type_inv_waitD [OF match_baseD(1) [OF base] won(1)] by simp
  have "majority cfg (voters cfg s (node_term s c) c)"
    using won by (intro win_majority [OF match_baseD(1,3) [OF base], of c v]) (auto simp: granted_def)
  then have "h_leader s (node_term s c) = None"
    using win_fresh [OF match_baseD(2,4) [OF base]] won(5) by simp
  then show ?thesis
    using match_invD(5) [OF inv] won c by (intro disjI2 bexI [of _ c]) auto
next
  case (command i c rf')
  then show ?thesis using match_invD(6) [OF inv command(1,2)]
    by (intro disjI2 bexI [of _ i]) auto
next
  case (stepdown i r tm w)
  then show ?thesis by auto
qed simp_all

lemma step_tlog_ext:
  assumes "cluster_step cfg s t" and "match_base cfg s" and "match_inv cfg s"
  shows "tlog_ext s t"
  using step_tlog [OF assms] unfolding tlog_ext_def by auto

text \<open>How a step changes a node's log.\<close>

lemma step_log:
  assumes step: "cluster_step cfg s t" and base: "match_base cfg s" and j: "j \<in> node_ids cfg"
  obtains (same) "node_log t j = node_log s j"
  | (snoc) e where "node_log t j = node_log s j @ [e]" "le_Term e = node_term s j"
      "h_tlog t (node_term s j) = node_log t j" "node_state t j = Leader" "node_term t j = node_term s j"
  | (merged) i args where "MAppend i j args \<in> sent s" "prev_matches args (node_log s j)"
      "node_log t j = merge_spec (ae_prev args) (map from_pb (ae_Entries args)) (node_log s j)"
      "node_term t j = ae_Term args" "node_term s j \<le> ae_Term args" "h_tlog t = h_tlog s"
proof -
  from step match_baseD(1) [OF base] show thesis
  proof (cases rule: cluster_step_cases)
    case (accepted i p args rf' reply)
    then show thesis by (cases "p = j") (auto intro: same merged [of i args])
  next
    case (won c tm v reply rf')
    then show thesis by (cases "c = j") (auto intro: same snoc)
  next
    case (command i c rf')
    then show thesis by (cases "i = j") (auto intro: same snoc)
  next
    case (stepdown i r tm w)
    then show thesis by (intro same) auto
  qed (auto intro!: same simp: quiet_def same_data_def)
qed

lemma step_voter:
  assumes step: "cluster_step cfg s t" and base: "match_base cfg s"
  shows "h_voter t tm v = h_voter s tm v \<or> v \<in> node_ids cfg \<and> h_voter t tm v = node_log s v"
  using step match_baseD(1) [OF base]
proof (cases rule: cluster_step_cases)
  case (stepdown i r tm w)
  then show ?thesis by auto
qed (auto simp: same_data_def)

lemma logs_ok_step:
  assumes step: "cluster_step cfg s t" and base: "match_base cfg s" and inv: "match_inv cfg s"
  shows "logs_ok cfg t"
proof -
  note ext = step_tlog_ext [OF assms]
  note old = prefix_ok_mono [OF _ ext]
  have node: "prefix_ok t (node_log t j)" if j: "j \<in> node_ids cfg" for j
    using step base j
  proof (cases rule: step_log)
    case same
    then show ?thesis using old [OF match_invD(1) [OF inv j]] by simp
  next
    case (snoc e)
    then show ?thesis using prefix_ok_snoc [OF old [OF match_invD(1) [OF inv j]]] by simp
  next
    case (merged i args)
    note am = accept_merge(2) [OF match_invD(1) [OF inv j] match_invD(2) [OF inv]
        match_invD(9) [OF inv merged(1)] merged(2,3)]
    from am show ?thesis
    proof
      assume "node_log t j = node_log s j"
      then show ?thesis using old [OF match_invD(1) [OF inv j]] by simp
    next
      assume "node_log t j = take (ae_end args) (h_tlog s (ae_Term args))"
      then show ?thesis using old [OF prefix_ok_take [OF match_invD(2) [OF inv]]] by simp
    qed
  qed
  moreover have "prefix_ok t (h_tlog t tm)" for tm
    using step_tlog [OF assms] old [OF match_invD(2) [OF inv]] node by (metis fun_upd_apply)
  moreover have "prefix_ok t (h_voter t tm v)" for tm v
    using step_voter [OF step base, of tm v] old [OF match_invD(3) [OF inv]]
      old [OF match_invD(1) [OF inv]] by auto
  ultimately show ?thesis by (simp add: logs_ok_def)
qed

lemma step_h_leader:
  assumes "cluster_step cfg s t" and "match_base cfg s" and "h_leader s tm = Some c"
  shows "h_leader t tm = Some c"
  using step_leader_history [OF assms(1) match_baseD [OF assms(2)]] assms(3) by auto

text \<open>A leader's \<open>nextIndex\<close> values never point more than one past its log.\<close>

lemma step_next:
  assumes step: "cluster_step cfg s t" and base: "match_base cfg s" and inv: "match_inv cfg s"
    and i: "i \<in> node_ids cfg" "node_state t i = Leader" and x: "x \<in> set (rf_nextIndex (cl_nodes t i))"
  shows "x \<le> int (length (node_log t i)) + 1"
proof -
  note type = match_baseD(1) [OF base]
  note bound = match_invD(7) [OF inv i(1)]
  from step type show ?thesis
  proof (cases rule: cluster_step_cases)
    case (still j rf')
    show ?thesis
    proof (cases "j = i")
      case True
      then have "list_all2 (\<le>) (rf_nextIndex (cl_nodes t i)) (rf_nextIndex (cl_nodes s i))"
        using still by (simp add: quiet_def)
      from list_all2_le_bound [OF this x] obtain y
        where "y \<in> set (rf_nextIndex (cl_nodes s i))" "x \<le> y" by blast
      then show ?thesis using bound [of y] True still i by (auto simp: quiet_def)
    qed (use still bound i x in auto)
  next
    case (acked j p args reply rf')
    have req: "MAppend j p args \<in> sent s" using type_inv_msgD [OF type acked(1)] by (simp add: msg_ok_def)
    then have "ae_wf args" using type_inv_msgD [OF type] by (fastforce simp: msg_ok_def)
    then have "new_match args \<le> int (length (node_log s j))"
      using match_invD(9) [OF inv req] match_invD(6) [OF inv acked(2,5)] acked(6)
      by (simp add: new_match_end segment_of_def)
    then show ?thesis
      using acked i x bound
      by (auto simp: record_match_def split: if_splits dest!: set_update_subset_insert [THEN subsetD])
  next
    case (accepted j p args rf' reply)
    have "p \<noteq> j" using type_inv_msgD [OF type accepted(1)] by (simp add: msg_ok_def)
    then have "node_state t p \<noteq> Leader"
      using leader_invL [OF match_baseD(4) [OF base] accepted(2)] match_invD(8) [OF inv accepted(1)]
        accepted by (auto simp: role_after_def split: if_splits)
    then show ?thesis using accepted i x bound by (cases "p = i") auto
  next
    case (stepdown j r tm w)
    then show ?thesis using i x bound by (auto split: if_splits)
  next
    case (command j c rf')
    then show ?thesis using i x bound by (cases "j = i") force+
  qed (use i x bound in \<open>auto simp: same_data_def role_after_def split: if_splits\<close>)
qed

lemma tlogs_ok_step:
  assumes step: "cluster_step cfg s t" and base: "match_base cfg s" and inv: "match_inv cfg s"
    and base': "match_base cfg t"
  shows "tlogs_ok cfg t"
proof -
  note tl = step_tlog [OF step base inv]
  have bound: "le_Term e \<le> node_term t i" if "i \<in> node_ids cfg" "e \<in> set (node_log t i)" for e i
    using type_inv_nodeD [OF match_baseD(1) [OF base'] that(1)] that(2) by (simp add: node_ok_def)
  have terms: "le_Term e \<le> tm" if "e \<in> set (h_tlog t tm)" for e tm
    using tl match_invD(4) [OF inv] bound that by (metis fun_upd_apply)
  have none: "h_tlog t tm = []" if "h_leader t tm = None" for tm
    using tl that match_invD(5) [OF inv, of tm] step_h_leader [OF step base, of tm]
    by (cases "h_leader s tm") (auto split: if_splits)
  have lead: "h_tlog t (node_term t i) = node_log t i" if i: "i \<in> node_ids cfg" "node_state t i = Leader" for i
    using step base i(1)
  proof (cases rule: step_log)
    case (snoc e)
    then show ?thesis by simp
  next
    case (merged j args)
    have "h_leader t (ae_Term args) = Some j"
      by (rule step_h_leader [OF step base match_invD(8) [OF inv merged(1)]])
    moreover have "i \<noteq> j" using type_inv_msgD [OF match_baseD(1) [OF base] merged(1)] by (simp add: msg_ok_def)
    ultimately show ?thesis using leader_invL [OF match_baseD(4) [OF base'] i] merged(4) by simp
  next
    case same
    note ev = step_evolves [OF step match_baseD(1) [OF base] i(1), unfolded raft_evolves_def]
    have uniq: "j = i" if "j \<in> node_ids cfg" "node_state t j = Leader" "node_term t j = node_term t i" for j
      using leader_invL [OF match_baseD(4) [OF base'] that(1,2)]
        leader_invL [OF match_baseD(4) [OF base'] i] that(3) by (metis option.inject)
    show ?thesis
    proof (cases "node_state s i = Leader")
      case True
      then have "node_term t i = node_term s i" using ev i by auto
      then show ?thesis
        using tl match_invD(6) [OF inv i(1) True] same uniq by (metis fun_upd_apply)
    next
      case False
      from step match_baseD(1) [OF base] show ?thesis
        by (cases rule: cluster_step_cases)
          (use False i same in \<open>auto simp: quiet_def role_after_def split: if_splits\<close>)
    qed
  qed
  show ?thesis
    using terms none lead step_next [OF step base inv] by (simp add: tlogs_ok_def)
qed

lemma requests_ok_step:
  assumes step: "cluster_step cfg s t" and base: "match_base cfg s" and inv: "match_inv cfg s"
  shows "requests_ok t"
  unfolding requests_ok_def
proof (intro allI impI)
  fix i p args
  assume m: "MAppend i p args \<in> sent t"
  have old: "h_leader t (ae_Term args) = Some i \<and> segment_of args (h_tlog t (ae_Term args))"
    if "MAppend i p args \<in> sent s"
    using step_h_leader [OF step base match_invD(8) [OF inv that]] match_invD(9) [OF inv that]
      step_tlog_ext [OF step base inv] segment_of_append by (metis tlog_ext_def)
  from step match_baseD(1) [OF base]
  show "h_leader t (ae_Term args) = Some i \<and> segment_of args (h_tlog t (ae_Term args))"
  proof (cases rule: cluster_step_cases)
    case (send j q args')
    show ?thesis
    proof (cases "MAppend i p args \<in> sent s")
      case False
      then have eq: "i = j" "p = q" "args = args'" using m send by auto
      have "0 \<le> q" "q < int (length (rf_nextIndex (cl_nodes s j)))"
        using send(2) type_inv_nodeD [OF match_baseD(1) [OF base] send(1)] match_baseD(1) [OF base]
        by (simp_all add: node_ok_def node_ids_wf type_inv_def)
      then have "ae_prev args' \<le> length (node_log s j)"
        using match_invD(7) [OF inv send(1,5), of "rf_nextIndex (cl_nodes s j) ! nat q"] send(8)
        by (simp add: ae_prev_def)
      moreover have "length (ae_Entries args') = length (node_log s j) - ae_prev args'"
        using arg_cong [OF send(9), of length] by simp
      ultimately have "segment_of args' (node_log s j)"
        using send(9,10) by (auto simp: segment_of_def ae_end_def)
      then show ?thesis
        using leader_invL [OF match_baseD(4) [OF base] send(1,5)] match_invD(6) [OF inv send(1,5)]
          send eq by simp
    qed (rule old)
  next
    case (stepdown j r tm w)
    then show ?thesis using m old by auto
  qed (use m old in auto)
qed

lemma match_inv_step:
  assumes "match_base cfg s" and "match_inv cfg s" and "cluster_step cfg s t" and "match_base cfg t"
  shows "match_inv cfg t"
  using assms by (simp add: match_inv_def [of _ t] logs_ok_step tlogs_ok_step requests_ok_step)

lemma match_inv_start: "cluster_start cfg s \<Longrightarrow> match_inv cfg s"
  by (auto simp: cluster_start_def init_cluster_def match_inv_def logs_ok_def tlogs_ok_def
      requests_ok_def prefix_ok_def)

lemma match_base_reach: "cluster_reach cfg s \<Longrightarrow> match_base cfg s"
  using leaders.reach_both by (auto simp: match_base_def)

interpretation matching: invariant_of "cluster_start cfg" "cluster_step cfg" "match_base cfg" "match_inv cfg" for cfg
  by unfold_locales (auto intro: match_inv_start match_inv_step match_base_reach)

end
