(* ===== verification/Raft_Completeness.thy ===== *)
theory Raft_Completeness
  imports Raft_Matching
begin

text \<open>
  Leader completeness: an entry that a majority of nodes has acknowledged in the term it
  was written, or still could, is in the log of every later leader. The argument goes
  through the acknowledgements on the network, the logs that voters had when they voted
  and the up-to-date check of \<open>RequestVote\<close>.
\<close>

section \<open>Acknowledged and choosable entries\<close>

definition acked :: "Cluster \<Rightarrow> int \<Rightarrow> int \<Rightarrow> nat \<Rightarrow> bool" where
  "acked s tm v k \<longleftrightarrow>
     (\<exists>i args reply. MAppendReply i v args reply \<in> sent s \<and> aer_Success reply \<and>
        ae_Term args = tm \<and> k \<le> ae_end args) \<or>
     h_leader s tm = Some v \<and> k \<le> length (h_tlog s tm)"

text \<open>Index \<open>k\<close> of the term's log was written by the term's leader.\<close>

definition own :: "Cluster \<Rightarrow> int \<Rightarrow> nat \<Rightarrow> bool" where
  "own s tm k \<longleftrightarrow> 0 < k \<and> k \<le> length (h_tlog s tm) \<and> le_Term (h_tlog s tm ! (k - 1)) = tm"

definition choosable :: "ClusterConfig \<Rightarrow> Cluster \<Rightarrow> int \<Rightarrow> nat \<Rightarrow> bool" where
  "choosable cfg s tm k \<longleftrightarrow> (\<exists>Q. majority cfg Q \<and> (\<forall>v \<in> Q. acked s tm v k \<or> node_term s v \<le> tm))"

definition chosen :: "ClusterConfig \<Rightarrow> Cluster \<Rightarrow> int \<Rightarrow> nat \<Rightarrow> bool" where
  "chosen cfg s tm k \<longleftrightarrow> (\<exists>Q. majority cfg Q \<and> (\<forall>v \<in> Q. acked s tm v k))"

lemma chosen_choosable: "chosen cfg s tm k \<Longrightarrow> choosable cfg s tm k"
  by (auto simp: chosen_def choosable_def)

definition full_base :: "ClusterConfig \<Rightarrow> Cluster \<Rightarrow> bool" where
  "full_base cfg s \<longleftrightarrow> match_base cfg s \<and> match_inv cfg s"

lemma full_baseD:
  assumes "full_base cfg s"
  shows "match_base cfg s" "match_inv cfg s" "type_inv cfg s" "vote_inv s" "count_inv cfg s" "leader_inv cfg s"
  using assms match_baseD by (auto simp: full_base_def)

lemma acked_bounds:
  assumes "full_base cfg s" and "acked s tm v k"
  shows "k \<le> length (h_tlog s tm)" and "tm \<le> node_term s v"
proof -
  consider i args reply where "MAppendReply i v args reply \<in> sent s" "ae_Term args = tm" "k \<le> ae_end args"
    | "h_leader s tm = Some v" "k \<le> length (h_tlog s tm)"
    using assms(2) by (auto simp: acked_def)
  then have "k \<le> length (h_tlog s tm) \<and> tm \<le> node_term s v"
  proof cases
    case (1 i args reply)
    then have "MAppend i v args \<in> sent s" "tm \<le> node_term s v"
      using type_inv_msgD [OF full_baseD(3) [OF assms(1)]] by (fastforce simp: msg_ok_def)+
    then show ?thesis
      using match_invD(9) [OF full_baseD(2) [OF assms(1)]] 1 by (fastforce simp: segment_of_def)
  next
    case 2
    then show ?thesis using leader_invD(4) [OF full_baseD(6) [OF assms(1)]] by blast
  qed
  then show "k \<le> length (h_tlog s tm)" "tm \<le> node_term s v" by auto
qed

lemma own_leader:
  assumes "full_base cfg s" and "own s tm k"
  shows "\<exists>c. h_leader s tm = Some c" and "1 \<le> tm"
proof -
  have "h_tlog s tm \<noteq> []" using assms(2) by (auto simp: own_def)
  then show "\<exists>c. h_leader s tm = Some c"
    using match_invD(5) [OF full_baseD(2) [OF assms(1)], of tm] by auto
  then show "1 \<le> tm" using leader_invD(3) [OF full_baseD(6) [OF assms(1)]] by auto
qed

section \<open>How a step changes them\<close>

text \<open>A step between states where the invariants of the earlier theories hold.\<close>

definition move :: "ClusterConfig \<Rightarrow> Cluster \<Rightarrow> Cluster \<Rightarrow> bool" where
  "move cfg s t \<longleftrightarrow> cluster_step cfg s t \<and> full_base cfg s \<and> full_base cfg t"

lemma moveD:
  assumes "move cfg s t"
  shows "cluster_step cfg s t" "full_base cfg s" "full_base cfg t" "match_base cfg s" "match_inv cfg s"
    "type_inv cfg s" "leader_inv cfg t" "match_inv cfg t" "vote_inv t" "vote_inv s" "leader_inv cfg s"
    "type_inv cfg t"
  using assms full_baseD by (auto simp: move_def)

lemma move_ext: "move cfg s t \<Longrightarrow> tlog_ext s t"
  by (rule step_tlog_ext [OF moveD(1,4,5)])

lemma move_term: "move cfg s t \<Longrightarrow> v \<in> node_ids cfg \<Longrightarrow> node_term s v \<le> node_term t v"
  by (rule step_term_mono [OF moveD(1,6)])

lemma acked_mono:
  assumes mv: "move cfg s t" and a: "acked s tm v k"
  shows "acked t tm v k"
proof -
  have "k \<le> length (h_tlog s tm) \<Longrightarrow> k \<le> length (h_tlog t tm)"
    using tlog_ext_length [OF move_ext [OF mv], of tm] by simp
  then show ?thesis
    using a step_sent [OF moveD(1) [OF mv]] step_h_leader [OF moveD(1,4) [OF mv]]
    unfolding acked_def by (metis subsetD)
qed

lemma tlog_ext_nth: "tlog_ext s t \<Longrightarrow> k < length (h_tlog s tm) \<Longrightarrow> h_tlog t tm ! k = h_tlog s tm ! k"
  using tlog_ext_take [of s t "Suc k" tm] by (metis Suc_leI lessI take_eq_nth)

lemma own_mono:
  assumes "move cfg s t" and "own s tm k"
  shows "own t tm k"
  using assms(2) tlog_ext_nth [OF move_ext [OF assms(1)], of "k - 1" tm]
    tlog_ext_length [OF move_ext [OF assms(1)], of tm] by (auto simp: own_def)

text \<open>A new acknowledgement is given by a node that is in that very term.\<close>

lemma new_ack:
  assumes mv: "move cfg s t" and new: "acked t tm v k" and old: "\<not> acked s tm v k"
  shows "node_term t v = tm \<and> take k (node_log t v) = take k (h_tlog t tm)"
proof -
  consider (reply) i args reply where "MAppendReply i v args reply \<in> sent t" "aer_Success reply"
      "ae_Term args = tm" "k \<le> ae_end args" "MAppendReply i v args reply \<notin> sent s"
    | (lead) "h_leader t tm = Some v" "k \<le> length (h_tlog t tm)"
    using new old unfolding acked_def by blast
  then show ?thesis
  proof cases
    case (reply i args reply)
    from moveD(1,6) [OF mv] show ?thesis
    proof (cases rule: cluster_step_cases)
      case (accepted j p a rf' rep)
      then have eq: "j = i" "p = v" "a = args" using reply by auto
      have "take (ae_end args) (node_log t v) = take (ae_end args) (h_tlog s tm)"
        using accept_merge(1) [OF match_invD(1) [OF moveD(5) [OF mv] accepted(2)]
            match_invD(2) [OF moveD(5) [OF mv]] match_invD(9) [OF moveD(5) [OF mv] accepted(1)]
            accepted(9,10)] accepted(3) eq reply(3) by simp
      then show ?thesis using accepted eq reply(3,4) by (auto intro: take_eq_mono)
    next
      case (stepdown j r tm w)
      then show ?thesis using reply by auto
    qed (use reply in auto)
  next
    case lead
    note v = leader_invD [OF moveD(7) [OF mv] lead(1)]
    have "node_term t v = tm"
    proof (rule ccontr)
      assume ne: "node_term t v \<noteq> tm"
      have "h_leader s tm = Some v"
        using step_leader_history [OF moveD(1) [OF mv] full_baseD(3-6) [OF moveD(2) [OF mv]]] lead(1) ne
        by (auto split: if_splits)
      moreover have "h_tlog t tm = h_tlog s tm"
        using step_tlog [OF moveD(1,4,5) [OF mv]] lead(1) ne by (auto split: if_splits)
      ultimately show False using old lead(2) by (simp add: acked_def)
    qed
    moreover from this have "h_tlog t tm = node_log t v"
      using match_invD(6) [OF moveD(8) [OF mv] v(1)] v(5) by simp
    ultimately show ?thesis by simp
  qed
qed

lemma choosable_back:
  assumes mv: "move cfg s t" and "choosable cfg t tm k"
  shows "choosable cfg s tm k"
proof -
  from assms(2) obtain Q where Q: "majority cfg Q" "\<forall>v \<in> Q. acked t tm v k \<or> node_term t v \<le> tm"
    by (auto simp: choosable_def)
  have "acked s tm v k \<or> node_term s v \<le> tm" if "v \<in> Q" for v
  proof -
    have "v \<in> node_ids cfg" using Q(1) that by (auto simp: majority_def)
    then show ?thesis
      using Q(2) that new_ack [OF mv, of tm v k] move_term [OF mv] by (metis order_trans order_refl)
  qed
  then show ?thesis using Q(1) by (auto simp: choosable_def)
qed

lemma chosen_mono: "move cfg s t \<Longrightarrow> chosen cfg s tm k \<Longrightarrow> chosen cfg t tm k"
  unfolding chosen_def using acked_mono by blast

text \<open>
  An entry that is new in a term's log sits at its end, the leader has just written it,
  and nobody else has acknowledged it.
\<close>

lemma new_own:
  assumes mv: "move cfg s t" and new: "own t tm k" and old: "\<not> own s tm k"
  shows "\<exists>i. h_leader t tm = Some i \<and> node_term t i = tm \<and> (\<forall>v. acked t tm v k \<longrightarrow> v = i)"
proof -
  have changed: "h_tlog t tm \<noteq> h_tlog s tm" using new old by (auto simp: own_def)
  then obtain j where j: "j \<in> node_ids cfg" "node_state t j = Leader" "node_term t j = node_term s j"
      "h_leader t (node_term s j) = Some j" "h_tlog t = (h_tlog s)(node_term s j := node_log t j)"
      "\<exists>e. node_log t j = node_log s j @ [e] \<and> le_Term e = node_term s j"
      "h_tlog s (node_term s j) = [] \<or> h_tlog s (node_term s j) = node_log s j"
    using step_tlog [OF moveD(1,4,5) [OF mv]] by metis
  then have "node_term s j = tm" using changed by (metis fun_upd_apply)
  with j obtain i e where i: "i \<in> node_ids cfg" "node_state t i = Leader" "node_term t i = tm"
      "h_leader t tm = Some i" "h_tlog t tm = node_log s i @ [e]" "node_term s i = tm"
      "h_tlog s tm = [] \<or> h_tlog s tm = node_log s i"
    by (metis fun_upd_same)
  have k: "k = Suc (length (node_log s i))"
  proof (rule ccontr)
    assume "k \<noteq> Suc (length (node_log s i))"
    then have kl: "k - 1 < length (node_log s i)" "0 < k" "le_Term (node_log s i ! (k - 1)) = tm"
      using new i(5) by (auto simp: own_def nth_append less_Suc_eq)
    then have "k - 1 < length (h_tlog s tm)"
      using prefix_ok_length [OF match_invD(1) [OF moveD(5) [OF mv] i(1)], of "k - 1"] by simp
    then have "h_tlog s tm = node_log s i" using i(7) by auto
    then have "own s tm k" using kl by (auto simp: own_def)
    then show False using old by simp
  qed
  have "v = i" if a: "acked t tm v k" for v
  proof (rule ccontr)
    assume "v \<noteq> i"
    then have r: "\<exists>j args reply. MAppendReply j v args reply \<in> sent t \<and> aer_Success reply \<and>
        ae_Term args = tm \<and> k \<le> ae_end args"
      using a i(4) by (auto simp: acked_def)
    from moveD(1,6) [OF mv] have "sent t = sent s"
      using changed by (cases rule: cluster_step_cases) auto
    then have "acked s tm v k" using r by (auto simp: acked_def)
    from acked_bounds(1) [OF moveD(2) [OF mv] this] show False using i(7) k by auto
  qed
  then show ?thesis using i by blast
qed

section \<open>Requests for votes and the logs behind the votes\<close>

definition one_request :: "Cluster \<Rightarrow> bool" where
  "one_request s \<longleftrightarrow> (\<forall>c a b. MRequestVote c a \<in> sent s \<longrightarrow> MRequestVote c b \<in> sent s \<longrightarrow>
     rv_Term a = rv_Term b \<longrightarrow> a = b)"

definition vote_checked :: "Cluster \<Rightarrow> bool" where
  "vote_checked s \<longleftrightarrow> (\<forall>v c a. voted s (rv_Term a) v c \<longrightarrow> MRequestVote c a \<in> sent s \<longrightarrow>
     up_to_date (rv_LastLogIndex a) (rv_LastLogTerm a) (h_voter s (rv_Term a) v))"

text \<open>
  While a term has no leader, its candidates still have the log their request describes.
  (A candidate does not step down when it accepts entries in its own term, so after that
  its log may differ from its request.)
\<close>

definition candidate_log :: "ClusterConfig \<Rightarrow> Cluster \<Rightarrow> bool" where
  "candidate_log cfg s \<longleftrightarrow> (\<forall>c \<in> node_ids cfg. \<forall>a. node_state s c = Candidate \<longrightarrow>
     h_leader s (node_term s c) = None \<longrightarrow> MRequestVote c a \<in> sent s \<longrightarrow> rv_Term a = node_term s c \<longrightarrow>
     rv_LastLogIndex a = int (length (node_log s c)) \<and> rv_LastLogTerm a = last_term (node_log s c))"

definition stand_inv :: "ClusterConfig \<Rightarrow> Cluster \<Rightarrow> bool" where
  "stand_inv cfg s \<longleftrightarrow> one_request s \<and> vote_checked s \<and> candidate_log cfg s"

lemma request_term: "type_inv cfg s \<Longrightarrow> MRequestVote c a \<in> sent s \<Longrightarrow> rv_Term a \<le> node_term s c"
  using type_inv_msgD by (fastforce simp: msg_ok_def)

lemma one_request_step:
  assumes mv: "move cfg s t" and inv: "one_request s"
  shows "one_request t"
  using moveD(1,6) [OF mv]
proof (cases rule: cluster_step_cases)
  case (elect i rf' args ps)
  have "rv_Term a \<noteq> rv_Term args" if "MRequestVote i a \<in> sent s" for a
    using request_term [OF moveD(6) [OF mv] that] elect(4) by simp
  then show ?thesis using inv elect(2) unfolding one_request_def by auto metis
next
  case (stepdown i r tm w)
  then show ?thesis using inv by (auto simp: one_request_def)
qed (use inv in \<open>auto simp: one_request_def\<close>)

text \<open>A vote in the new state is an old vote with the same recorded log, or has just been given.\<close>

lemma vote_checked_elect:
  assumes mv: "move cfg s t" and inv: "vote_checked s"
    and t: "t = post (MRequestVote i args)
      (begin_election i args ps (note_vote True (rv_Term args) i (set_node i rf' s)))"
    and log: "same_data (cl_nodes s i) rf'" and tm: "rv_Term args = node_term s i + 1"
    and req: "rv_LastLogIndex args = int (length (node_log s i))"
      "rv_LastLogTerm args = last_term (node_log s i)"
  shows "vote_checked t"
  unfolding vote_checked_def
proof (intro allI impI)
  fix v c a
  assume v: "voted t (rv_Term a) v c" and a: "MRequestVote c a \<in> sent t"
  note type = moveD(6) [OF mv]
  have late: "\<not> voted s tm i c'" if "node_term s i < tm" for tm c'
    using moveD(10) [OF mv] that unfolding vote_inv_def by (meson linorder_not_less)
  have fresh: "\<not> granted s i (rv_Term args) u" for u
    using type_inv_msgD [OF type] request_term [OF type, of i] tm
    by (fastforce simp: granted_def msg_ok_def)
  show "up_to_date (rv_LastLogIndex a) (rv_LastLogTerm a) (h_voter t (rv_Term a) v)"
  proof (cases "voted s (rv_Term a) v c \<and> MRequestVote c a \<in> sent s")
    case True
    then have "\<not> (rv_Term a = rv_Term args \<and> v = i)" using late [of "rv_Term args" c] tm by auto
    then have "h_voter t (rv_Term a) v = h_voter s (rv_Term a) v" by (auto simp: t)
    then show ?thesis using inv True unfolding vote_checked_def by metis
  next
    case False
    have "c = i \<and> a = args \<and> v = i"
    proof (cases "MRequestVote c a \<in> sent s")
      case True
      then have "v = i" "c = i" "rv_Term a = rv_Term args"
        using False v by (auto simp: voted_def granted_def stood_def t)
      then show ?thesis using request_term [OF type, of i a] True tm by simp
    next
      case new: False
      then have "c = i" "a = args" using a by (auto simp: t)
      then have "\<not> granted t c (rv_Term a) v" using fresh [of v] by (simp add: t granted_def)
      then show ?thesis using v \<open>c = i\<close> \<open>a = args\<close> by (auto simp: voted_def)
    qed
    then show ?thesis using req log by (simp add: t up_to_date_def same_data_def)
  qed
qed

lemma vote_checked_vote:
  assumes mv: "move cfg s t" and inv: "vote_checked s" and one: "one_request s"
    and t: "t = post (MVoteReply c' (rv_Term args) v' reply)
      (note_vote (rvr_VoteGranted reply) (rv_Term args) v' (set_node v' rf' s))"
    and req: "MRequestVote c' args \<in> sent s" and log: "same_data (cl_nodes s v') rf'"
    and ok: "rvr_VoteGranted reply \<Longrightarrow>
      up_to_date (rv_LastLogIndex args) (rv_LastLogTerm args) (node_log s v')"
  shows "vote_checked t"
  unfolding vote_checked_def
proof (intro allI impI)
  fix v c a
  assume v: "voted t (rv_Term a) v c" and a: "MRequestVote c a \<in> sent t"
  have a': "MRequestVote c a \<in> sent s" using a by (simp add: t)
  show "up_to_date (rv_LastLogIndex a) (rv_LastLogTerm a) (h_voter t (rv_Term a) v)"
  proof (cases "rvr_VoteGranted reply \<and> rv_Term a = rv_Term args \<and> v = v'")
    case True
    then have "voted t (rv_Term a) v c'" by (auto simp: t voted_def granted_def)
    then have "c = c'" using moveD(9) [OF mv] v by (auto simp: vote_inv_def)
    then have "a = args" using one a' req True by (auto simp: one_request_def)
    then show ?thesis using True ok log by (simp add: t same_data_def)
  next
    case False
    then have "voted s (rv_Term a) v c" and "h_voter t (rv_Term a) v = h_voter s (rv_Term a) v"
      using v by (auto simp: t voted_def granted_def stood_def)
    then show ?thesis using inv a' by (simp add: vote_checked_def)
  qed
qed

lemma stand_quiet:
  assumes "vote_checked s" and "sent t = sent s \<or> (\<exists>i p a. sent t = insert (MAppend i p a) (sent s)) \<or>
      (\<exists>i p a r. sent t = insert (MAppendReply i p a r) (sent s))" and "h_voter t = h_voter s"
  shows "vote_checked t"
proof -
  have "granted t = granted s" "stood t = stood s" using assms(2) by (auto simp: granted_def stood_def fun_eq_iff)
  then have "voted t = voted s" by (simp add: voted_def fun_eq_iff)
  then show ?thesis using assms by (auto simp: vote_checked_def)
qed

lemma vote_checked_step:
  assumes mv: "move cfg s t" and inv: "vote_checked s" and one: "one_request s"
  shows "vote_checked t"
  using moveD(1,6) [OF mv]
proof (cases rule: cluster_step_cases)
  case (elect i rf' args ps)
  then show ?thesis by (intro vote_checked_elect [OF mv inv elect(2,3,4)])
next
  case (vote c args v rf' reply)
  then show ?thesis by (intro vote_checked_vote [OF mv inv one vote(4,1,5)]) blast
next
  case (stepdown i r tm w)
  then show ?thesis by (intro stand_quiet [OF inv]) auto
next
  case (send i p args)
  then show ?thesis by (intro stand_quiet [OF inv]) (simp_all, blast)
next
  case (rejected i p args rf' reply)
  then show ?thesis by (intro stand_quiet [OF inv]) (simp_all, blast)
next
  case (accepted i p args rf' reply)
  then show ?thesis by (intro stand_quiet [OF inv]) (simp_all, blast)
qed (intro stand_quiet [OF inv]; simp)+


text \<open>A candidate that did not just start its election was a candidate of the same term.\<close>

lemma candidate_log_step:
  assumes mv: "move cfg s t" and inv: "candidate_log cfg s"
  shows "candidate_log cfg t"
  unfolding candidate_log_def
proof (intro ballI allI impI)
  fix c a
  assume c: "c \<in> node_ids cfg" "node_state t c = Candidate" "h_leader t (node_term t c) = None"
    and a: "MRequestVote c a \<in> sent t" "rv_Term a = node_term t c"
  have none: "h_leader s (node_term t c) = None"
    using step_h_leader [OF moveD(1,4) [OF mv], of "node_term t c"] c(3) by (cases "h_leader s (node_term t c)") auto
  have old: "rv_LastLogIndex a = int (length (node_log t c)) \<and> rv_LastLogTerm a = last_term (node_log t c)"
    if "node_state s c = Candidate" "node_term s c = node_term t c" "MRequestVote c a \<in> sent s"
      "node_log t c = node_log s c"
    using inv that c(1) none a(2) by (simp add: candidate_log_def)
  from moveD(1,6) [OF mv] show "rv_LastLogIndex a = int (length (node_log t c)) \<and>
      rv_LastLogTerm a = last_term (node_log t c)"
  proof (cases rule: cluster_step_cases)
    case (elect i rf' args ps)
    show ?thesis
    proof (cases "c = i")
      case True
      then have "a = args"
        using a elect request_term [OF moveD(6) [OF mv], of i a] by auto
      then show ?thesis using elect True by (simp add: same_data_def)
    qed (use elect a c old in auto)
  next
    case (accepted i p args rf' reply)
    have "p \<noteq> c" using match_invD(8) [OF moveD(5) [OF mv] accepted(1)] accepted none by auto
    then show ?thesis using accepted a c old by auto
  next
    case (stepdown i r tm w)
    then show ?thesis using a c old by (auto split: if_splits)
  qed (use a c old in \<open>auto simp: quiet_def role_after_def same_data_def split: if_splits\<close>)
qed

lemma stand_inv_step: "move cfg s t \<Longrightarrow> stand_inv cfg s \<Longrightarrow> stand_inv cfg t"
  by (simp add: stand_inv_def one_request_step vote_checked_step candidate_log_step)

lemma stand_inv_start: "cluster_start cfg s \<Longrightarrow> stand_inv cfg s"
  by (auto simp: cluster_start_def init_cluster_def stand_inv_def one_request_def vote_checked_def
      candidate_log_def)

lemma full_base_reach: "cluster_reach cfg s \<Longrightarrow> full_base cfg s"
  using matching.reach_both by (auto simp: full_base_def)

interpretation stands: invariant_of "cluster_start cfg" "cluster_step cfg" "full_base cfg" "stand_inv cfg" for cfg
  by unfold_locales (auto simp: move_def intro: stand_inv_start stand_inv_step full_base_reach)

end
