(* ===== verification/Raft_Safety.thy ===== *)
theory Raft_Safety
  imports Raft_Completeness
begin

text \<open>
  The invariant of leader completeness. An entry that is choosable (a majority has
  acknowledged it in the term of its leader, or still could) is in the log of every later
  leader, in the log of every node that acknowledged it, and in the log that such a node
  had whenever it voted in a later term.
\<close>

section \<open>The invariant\<close>

definition lead_comp :: "ClusterConfig \<Rightarrow> Cluster \<Rightarrow> bool" where
  "lead_comp cfg s \<longleftrightarrow> (\<forall>tm T k. h_leader s T \<noteq> None \<longrightarrow> tm < T \<longrightarrow> own s tm k \<longrightarrow>
     choosable cfg s tm k \<longrightarrow> take k (h_tlog s T) = take k (h_tlog s tm))"

definition kept :: "ClusterConfig \<Rightarrow> Cluster \<Rightarrow> bool" where
  "kept cfg s \<longleftrightarrow> (\<forall>tm v k. v \<in> node_ids cfg \<longrightarrow> acked s tm v k \<longrightarrow> own s tm k \<longrightarrow>
     choosable cfg s tm k \<longrightarrow> take k (node_log s v) = take k (h_tlog s tm))"

definition voter_kept :: "ClusterConfig \<Rightarrow> Cluster \<Rightarrow> bool" where
  "voter_kept cfg s \<longleftrightarrow> (\<forall>tm T v c k. voted s T v c \<longrightarrow> tm < T \<longrightarrow> acked s tm v k \<longrightarrow> own s tm k \<longrightarrow>
     choosable cfg s tm k \<longrightarrow> take k (h_voter s T v) = take k (h_tlog s tm))"

definition comp_inv :: "ClusterConfig \<Rightarrow> Cluster \<Rightarrow> bool" where
  "comp_inv cfg s \<longleftrightarrow> lead_comp cfg s \<and> kept cfg s \<and> voter_kept cfg s"

lemma comp_invD:
  assumes "comp_inv cfg s" and "own s tm k" and "choosable cfg s tm k"
  shows "h_leader s T \<noteq> None \<Longrightarrow> tm < T \<Longrightarrow> take k (h_tlog s T) = take k (h_tlog s tm)"
    "v \<in> node_ids cfg \<Longrightarrow> acked s tm v k \<Longrightarrow> take k (node_log s v) = take k (h_tlog s tm)"
    "voted s T v c \<Longrightarrow> tm < T \<Longrightarrow> acked s tm v k \<Longrightarrow> take k (h_voter s T v) = take k (h_tlog s tm)"
  using assms unfolding comp_inv_def lead_comp_def kept_def voter_kept_def by blast+

lemma own_take:
  assumes "move cfg s t" and "own s tm k"
  shows "take k (h_tlog t tm) = take k (h_tlog s tm)"
  using assms(2) by (intro tlog_ext_take [OF move_ext [OF assms(1)]]) (simp add: own_def)

section \<open>Nodes keep what they acknowledged\<close>

text \<open>Accepting a segment of \<open>M\<close> does not lose what the log already shares with \<open>M\<close>.\<close>

lemma accept_keeps:
  assumes L: "prefix_ok s L" and M: "prefix_ok s M" and seg: "segment_of args M"
    and prev: "prev_matches args L"
    and new: "L' = merge_spec (ae_prev args) (map from_pb (ae_Entries args)) L"
    and share: "take k L = take k M" and k: "k \<le> length M"
  shows "take k L' = take k M"
proof (cases "k \<le> ae_end args")
  case True
  then show ?thesis using accept_merge(1) [OF L M seg prev new] by (rule take_eq_mono [rotated])
next
  case False
  have "k \<le> length L" using take_eq_length [OF share [symmetric] k] .
  moreover have "le_Term (L ! (ae_prev args + j)) = le_Term (map from_pb (ae_Entries args) ! j)"
    if "j < length (ae_Entries args)" for j
  proof -
    have "map from_pb (ae_Entries args) ! j = M ! (ae_prev args + j)"
      using seg that by (simp add: segment_of_def ae_end_def)
    then show ?thesis using take_eq_nth [OF share, of "ae_prev args + j"] False that by (simp add: ae_end_def)
  qed
  ultimately have "L' = L" unfolding new using False by (intro merge_spec_present) (auto simp: ae_end_def)
  then show ?thesis using share by simp
qed

lemma kept_old:
  assumes mv: "move cfg s t" and inv: "comp_inv cfg s" and v: "v \<in> node_ids cfg"
    and own: "own s tm k" and ch: "choosable cfg s tm k" and ack: "acked s tm v k"
  shows "take k (node_log t v) = take k (h_tlog s tm)"
proof -
  note old = comp_invD(2) [OF inv own ch v ack]
  have k: "k \<le> length (h_tlog s tm)" using own by (simp add: own_def)
  from moveD(1,4) [OF mv] v show ?thesis
  proof (cases rule: step_log)
    case same
    then show ?thesis using old by simp
  next
    case (snoc e)
    then show ?thesis using old take_eq_length [OF old [symmetric] k] by simp
  next
    case (merged i args)
    note minv = moveD(5) [OF mv]
    have "tm \<le> ae_Term args" using acked_bounds(2) [OF moveD(2) [OF mv] ack] merged(5) by simp
    then have M: "take k (h_tlog s (ae_Term args)) = take k (h_tlog s tm)"
      using comp_invD(1) [OF inv own ch, of "ae_Term args"] match_invD(8) [OF minv merged(1)]
      by (cases "tm = ae_Term args") auto
    have "take k (node_log t v) = take k (h_tlog s (ae_Term args))"
      using M old take_eq_length [OF M [symmetric] k]
      by (intro accept_keeps [OF match_invD(1) [OF minv v] match_invD(2) [OF minv]
            match_invD(9) [OF minv merged(1)] merged(2,3)]) auto
    then show ?thesis using M by simp
  qed
qed

section \<open>Voters had what they acknowledged\<close>

lemma new_vote_log:
  assumes "move cfg s t" and new: "voted t T v c" and old: "\<not> voted s T v c"
  shows "h_voter t T v = node_log s v"
  using moveD(1,6) [OF assms(1)]
proof (cases rule: cluster_step_cases)
  case (stepdown i r tm w)
  then have "sent t = sent s" by auto
  then show ?thesis using new old by (simp add: voted_def granted_def stood_def)
qed (use new old in \<open>auto simp: voted_def granted_def stood_def same_data_def\<close>)

lemma voter_kept_old:
  assumes mv: "move cfg s t" and inv: "comp_inv cfg s" and vote: "voted t T v c" and T: "tm < T"
    and own: "own s tm k" and ch: "choosable cfg s tm k" and ack: "acked s tm v k"
  shows "take k (h_voter t T v) = take k (h_tlog s tm)"
proof -
  have v: "v \<in> node_ids cfg" using voted_ids(1) [OF moveD(12) [OF mv] vote] .
  consider "h_voter t T v = node_log s v" | "h_voter t T v = h_voter s T v" "voted s T v c"
    using step_voter [OF moveD(1,4) [OF mv], of T v] new_vote_log [OF mv vote] by blast
  then show ?thesis
    by cases (simp_all add: comp_invD(2) [OF inv own ch v ack] comp_invD(3) [OF inv own ch _ T ack])
qed

section \<open>A new leader has every choosable entry\<close>

lemma new_leader:
  assumes mv: "move cfg s t" and new: "h_leader t T = Some c" and old: "h_leader s T = None"
  shows "c \<in> node_ids cfg" "node_term s c = T" "node_state s c = Candidate"
    "majority cfg (voters cfg s T c)" "\<exists>e. h_tlog t T = node_log s c @ [e]"
proof -
  have hist: "c \<in> node_ids cfg \<and> node_term s c = T \<and> node_state s c = Candidate \<and>
      majority cfg (voters cfg s T c) \<and> node_state t c = Leader \<and> node_term t c = T"
    using step_leader_history [OF moveD(1) [OF mv] full_baseD(3-6) [OF moveD(2) [OF mv]]] new old
    by (auto split: if_splits)
  then show "c \<in> node_ids cfg" "node_term s c = T" "node_state s c = Candidate"
    "majority cfg (voters cfg s T c)" by auto
  have "h_tlog t T = node_log t c"
    using match_invD(6) [OF moveD(8) [OF mv], of c] hist by auto
  moreover from moveD(1,6) [OF mv] have "\<exists>e. node_log t c = node_log s c @ [e]"
    using hist by (cases rule: cluster_step_cases)
      (auto simp: quiet_def role_after_def split: if_splits)
  ultimately show "\<exists>e. h_tlog t T = node_log s c @ [e]" by simp
qed

lemma prefix_ok_last:
  assumes "prefix_ok s L" and "L \<noteq> []"
  shows "L = take (length L) (h_tlog s (last_term L))"
  using prefix_okD [OF assms(1), of "length L - 1"] assms(2) by (simp add: last_term_def last_conv_nth)

text \<open>
  The comparison of \<open>RequestVote\<close>: a log that is at least as up to date as one with a
  choosable entry has that entry too.
\<close>

lemma up_to_date_has:
  assumes inv: "comp_inv cfg s" and minv: "match_inv cfg s" and own: "own s tm k" and tm: "1 \<le> tm"
    and ch: "choosable cfg s tm k"
    and L: "prefix_ok s L" and V: "prefix_ok s V" and share: "take k V = take k (h_tlog s tm)"
    and better: "up_to_date (int (length L)) (last_term L) V"
  shows "k \<le> length L \<and> take k L = take k (h_tlog s tm)"
proof -
  have k: "0 < k" "k \<le> length (h_tlog s tm)" "le_Term (h_tlog s tm ! (k - 1)) = tm"
    using own by (simp_all add: own_def)
  have kV: "k \<le> length V" using take_eq_length [OF share [symmetric] k(2)] .
  then have "V \<noteq> []" using k(1) by auto
  note Vp = prefix_ok_last [OF V this]
  have "V ! (k - 1) = h_tlog s tm ! (k - 1)" using take_eq_nth [OF share] k(1) by simp
  moreover have "V ! (k - 1) \<in> set (h_tlog s (last_term V))"
    using kV k(1) Vp by (metis (no_types) One_nat_def Suc_pred in_set_takeD less_le_trans lessI nth_mem)
  ultimately have tv: "tm \<le> last_term V" using match_invD(4) [OF minv] k(3) by fastforce
  have tl: "last_term V \<le> last_term L" using better by (auto simp: up_to_date_def)
  then have "L \<noteq> []" using tv tm by (auto simp: last_term_def)
  note Lp = prefix_ok_last [OF L this]
  show ?thesis
  proof (cases "last_term L = last_term V")
    case True
    then have "length V \<le> length L" using better by (simp add: up_to_date_def)
    then have "take (length V) L = V" using Lp Vp True by (metis min.absorb1 take_take)
    then show ?thesis using kV share \<open>length V \<le> length L\<close> by (metis min.absorb1 order_trans take_take)
  next
    case False
    then have later: "tm < last_term L" using tv tl by simp
    have "h_tlog s (last_term L) \<noteq> []" using Lp \<open>L \<noteq> []\<close> by auto
    then have sh: "take k (h_tlog s (last_term L)) = take k (h_tlog s tm)"
      using comp_invD(1) [OF inv own ch _ later] match_invD(5) [OF minv, of "last_term L"] by auto
    have "k \<le> length L"
    proof (rule ccontr)
      assume "\<not> k \<le> length L"
      then have lt: "length L - 1 < k" "length L - 1 < length (h_tlog s tm)" using k(2) by auto
      have "L ! (length L - 1) = h_tlog s (last_term L) ! (length L - 1)"
        using Lp \<open>L \<noteq> []\<close> by (metis diff_less length_greater_0_conv nth_take zero_less_one)
      then have "last L \<in> set (h_tlog s tm)"
        using take_eq_nth [OF sh lt(1)] lt(2) \<open>L \<noteq> []\<close> by (simp add: last_conv_nth)
      then show False using match_invD(4) [OF minv] later \<open>L \<noteq> []\<close> by (fastforce simp: last_term_def)
    qed
    moreover from this have "take k L = take k (h_tlog s (last_term L))"
      using Lp by (metis min.absorb1 take_take)
    ultimately show ?thesis using sh by simp
  qed
qed

text \<open>A quorum that may still choose an entry and the voters of a later leader share a node that acknowledged it.\<close>

lemma ack_among_voters:
  assumes votes: "vote_inv s" and maj: "majority cfg (voters cfg s T c)" and ch: "choosable cfg s tm k" and T: "tm < T"
  obtains v where "v \<in> node_ids cfg" "voted s T v c" "acked s tm v k" "T \<le> node_term s v"
proof -
  from ch obtain Q where Q: "majority cfg Q" "\<forall>v \<in> Q. acked s tm v k \<or> node_term s v \<le> tm"
    by (auto simp: choosable_def)
  from maj.quorum_meet [OF maj Q(1)] obtain v where v: "v \<in> voters cfg s T c" "v \<in> Q" by blast
  then have "T \<le> node_term s v" "voted s T v c" "v \<in> node_ids cfg" using votes by (auto simp: voters_def vote_inv_def)
  then show thesis using that Q(2) v(2) T by auto
qed

lemma new_leader_has:
  assumes mv: "move cfg s t" and inv: "comp_inv cfg s" and st: "stand_inv cfg s"
    and new: "h_leader t T = Some c" "h_leader s T = None" and T: "tm < T"
    and own: "own s tm k" and ch: "choosable cfg s tm k"
  shows "take k (h_tlog t T) = take k (h_tlog s tm)"
proof -
  note c = new_leader [OF mv new]
  note base = full_baseD [OF moveD(2) [OF mv]]
  obtain v where v: "voted s T v c" "acked s tm v k"
    using ack_among_voters [OF base(4) c(4) ch T] by blast
  have "stood s c T" using base(5) c(1-3) by (auto simp: count_inv_def)
  then obtain a where a: "MRequestVote c a \<in> sent s" "rv_Term a = T" by (auto simp: stood_def)
  have "rv_LastLogIndex a = int (length (node_log s c)) \<and> rv_LastLogTerm a = last_term (node_log s c)"
    using st c(1-3) a new(2) by (simp add: stand_inv_def candidate_log_def)
  moreover have "up_to_date (rv_LastLogIndex a) (rv_LastLogTerm a) (h_voter s T v)"
    using st v(1) a by (auto simp: stand_inv_def vote_checked_def)
  ultimately have "k \<le> length (node_log s c) \<and> take k (node_log s c) = take k (h_tlog s tm)"
    using comp_invD(3) [OF inv own ch v(1) T v(2)] own_leader(2) [OF moveD(2) [OF mv] own]
    by (intro up_to_date_has [OF inv base(2) own _ ch match_invD(1) [OF base(2) c(1)]
          match_invD(3) [OF base(2), of T v]]) simp_all
  then show ?thesis using c(5) by auto
qed

section \<open>Preservation\<close>

text \<open>An entry the step has just written cannot be acknowledged by anyone in a later term.\<close>

lemma new_own_alone:
  assumes mv: "move cfg s t" and own: "own t tm k" "\<not> own s tm k" and ack: "acked t tm v k"
  shows "node_term t v = tm" and "node_log t v = h_tlog t tm"
proof -
  from new_own [OF mv own] ack have lead: "h_leader t tm = Some v" "node_term t v = tm" by auto
  from leader_invD(1,5) [OF moveD(7) [OF mv] lead(1)] lead(2)
  have "v \<in> node_ids cfg" "node_state t v = Leader" by auto
  then show "node_term t v = tm" "node_log t v = h_tlog t tm"
    using match_invD(6) [OF moveD(8) [OF mv]] lead(2) by auto
qed

lemma lead_comp_step:
  assumes mv: "move cfg s t" and inv: "comp_inv cfg s" and st: "stand_inv cfg s"
  shows "lead_comp cfg t"
  unfolding lead_comp_def
proof (intro allI impI)
  fix tm T k
  assume T: "h_leader t T \<noteq> None" "tm < T" and own: "own t tm k" and ch: "choosable cfg t tm k"
  from T(1) obtain c where c: "h_leader t T = Some c" by auto
  note ch' = choosable_back [OF mv ch]
  have own': "own s tm k"
  proof (rule ccontr)
    assume "\<not> own s tm k"
    then show False
      using ack_among_voters [OF moveD(9) [OF mv] leader_invD(2) [OF moveD(7) [OF mv] c] ch T(2)]
        new_own_alone(1) [OF mv own] T(2) by (metis leD)
  qed
  have "take k (h_tlog t T) = take k (h_tlog s tm)"
  proof (cases "h_leader s T")
    case None
    then show ?thesis using new_leader_has [OF mv inv st c _ T(2) own' ch'] by simp
  next
    case (Some d)
    then have old: "take k (h_tlog s T) = take k (h_tlog s tm)"
      using comp_invD(1) [OF inv own' ch' _ T(2)] by simp
    have "k \<le> length (h_tlog s T)"
      using take_eq_length [OF old [symmetric]] own' by (simp add: own_def)
    then show ?thesis using tlog_ext_take [OF move_ext [OF mv]] old by simp
  qed
  then show "take k (h_tlog t T) = take k (h_tlog t tm)" using own_take [OF mv own'] by simp
qed

lemma kept_step:
  assumes mv: "move cfg s t" and inv: "comp_inv cfg s"
  shows "kept cfg t"
  unfolding kept_def
proof (intro allI impI)
  fix tm v k
  assume v: "v \<in> node_ids cfg" and ack: "acked t tm v k" and own: "own t tm k" and ch: "choosable cfg t tm k"
  consider (new) "\<not> own s tm k" | (ack) "\<not> acked s tm v k" | (old) "own s tm k" "acked s tm v k" by blast
  then show "take k (node_log t v) = take k (h_tlog t tm)"
  proof cases
    case new
    then show ?thesis using new_own_alone(2) [OF mv own new ack] by simp
  next
    case ack
    then show ?thesis using new_ack [OF mv \<open>acked t tm v k\<close>] by simp
  next
    case old
    then show ?thesis
      using kept_old [OF mv inv v old(1) choosable_back [OF mv ch] old(2)] own_take [OF mv old(1)] by simp
  qed
qed

lemma voter_kept_step:
  assumes mv: "move cfg s t" and inv: "comp_inv cfg s"
  shows "voter_kept cfg t"
  unfolding voter_kept_def
proof (intro allI impI)
  fix tm T v c k
  assume vote: "voted t T v c" and T: "tm < T" and ack: "acked t tm v k" and own: "own t tm k"
    and ch: "choosable cfg t tm k"
  have later: "node_term t v \<noteq> tm" using moveD(9) [OF mv] vote T unfolding vote_inv_def by (metis leD)
  then have old: "own s tm k" "acked s tm v k"
    using new_own_alone(1) [OF mv own _ ack] new_ack [OF mv ack] by auto
  then show "take k (h_voter t T v) = take k (h_tlog t tm)"
    using voter_kept_old [OF mv inv vote T old(1) choosable_back [OF mv ch] old(2)]
      own_take [OF mv old(1)] by simp
qed

lemma comp_inv_step:
  "move cfg s t \<Longrightarrow> comp_inv cfg s \<Longrightarrow> stand_inv cfg s \<Longrightarrow> comp_inv cfg t"
  by (simp add: comp_inv_def [of _ t] lead_comp_step kept_step voter_kept_step)

lemma comp_inv_start: "cluster_start cfg s \<Longrightarrow> comp_inv cfg s"
  by (auto simp: cluster_start_def init_cluster_def comp_inv_def lead_comp_def kept_def
      voter_kept_def own_def)

definition safe_base :: "ClusterConfig \<Rightarrow> Cluster \<Rightarrow> bool" where
  "safe_base cfg s \<longleftrightarrow> full_base cfg s \<and> stand_inv cfg s"

interpretation complete: invariant_of "cluster_start cfg" "cluster_step cfg" "safe_base cfg" "comp_inv cfg" for cfg
  by unfold_locales (auto simp: move_def safe_base_def intro: comp_inv_start comp_inv_step
      full_base_reach stands.reach_inv)

end
