(* ===== verification/Raft_Commit.thy ===== *)
theory Raft_Commit
  imports Raft_Safety
begin

text \<open>
  State machine safety. A leader's \<open>matchIndex\<close> values are backed by acknowledgements,
  so \<open>advanceCommitIndex\<close> commits chosen entries only; \<open>LeaderCommit\<close> never exceeds
  the end of the segment it travels with, so a follower's
  \<open>min(leaderCommit, LastIndex)\<close> commits chosen entries only.
\<close>

section \<open>Committed prefixes\<close>

text \<open>The first \<open>n\<close> entries of \<open>L\<close> lie below an entry that a term up to \<open>T\<close> has chosen.\<close>

definition committed :: "ClusterConfig \<Rightarrow> Cluster \<Rightarrow> int \<Rightarrow> nat \<Rightarrow> LogEntry list \<Rightarrow> bool" where
  "committed cfg s T n L \<longleftrightarrow> (\<exists>tm k. tm \<le> T \<and> own s tm k \<and> chosen cfg s tm k \<and> n \<le> k \<and>
     take n L = take n (h_tlog s tm))"

definition match_acked :: "ClusterConfig \<Rightarrow> Cluster \<Rightarrow> bool" where
  "match_acked cfg s \<longleftrightarrow> (\<forall>i \<in> node_ids cfg. \<forall>p \<in> node_ids cfg. node_state s i = Leader \<longrightarrow> p \<noteq> i \<longrightarrow>
     rf_matchIndex (cl_nodes s i) ! nat p \<le> 0 \<or>
     acked s (node_term s i) p (nat (rf_matchIndex (cl_nodes s i) ! nat p)))"

definition nodes_committed :: "ClusterConfig \<Rightarrow> Cluster \<Rightarrow> bool" where
  "nodes_committed cfg s \<longleftrightarrow> (\<forall>i \<in> node_ids cfg. 0 \<le> node_commit s i \<and>
     (node_commit s i = 0 \<or> committed cfg s (node_term s i) (nat (node_commit s i)) (node_log s i)))"

definition requests_committed :: "ClusterConfig \<Rightarrow> Cluster \<Rightarrow> bool" where
  "requests_committed cfg s \<longleftrightarrow> (\<forall>i p args. MAppend i p args \<in> sent s \<longrightarrow>
     0 \<le> ae_LeaderCommit args \<and> ae_LeaderCommit args \<le> int (ae_end args) \<and>
     (ae_LeaderCommit args = 0 \<or> committed cfg s (ae_Term args) (nat (ae_LeaderCommit args))
        (h_tlog s (ae_Term args))))"

definition commit_inv :: "ClusterConfig \<Rightarrow> Cluster \<Rightarrow> bool" where
  "commit_inv cfg s \<longleftrightarrow> match_acked cfg s \<and> nodes_committed cfg s \<and> requests_committed cfg s"

lemma committed_length: "committed cfg s T n L \<Longrightarrow> n \<le> length L"
  unfolding committed_def own_def by (metis order_trans take_eq_length)

lemma committed_mono:
  assumes mv: "move cfg s t" and c: "committed cfg s T n L" and "T \<le> T'" and L: "take n L' = take n L"
  shows "committed cfg t T' n L'"
proof -
  from c obtain tm k where k: "tm \<le> T" "own s tm k" "chosen cfg s tm k" "n \<le> k" "take n L = take n (h_tlog s tm)"
    by (auto simp: committed_def)
  have "take n L' = take n (h_tlog t tm)"
    using k(5) L take_eq_mono [OF own_take [OF mv k(2)] k(4)] by simp
  then show ?thesis
    using own_mono [OF mv k(2)] chosen_mono [OF mv k(3)] k(1,4) assms(3) unfolding committed_def
    by (meson order_trans)
qed

text \<open>Every leader from term \<open>T\<close> on has the committed prefix.\<close>

lemma committed_leader:
  assumes inv: "comp_inv cfg s" and c: "committed cfg s T n L" and T: "T \<le> T'" "h_leader s T' \<noteq> None"
  shows "take n (h_tlog s T') = take n L"
proof -
  from c obtain tm k where k: "tm \<le> T" "own s tm k" "chosen cfg s tm k" "n \<le> k" "take n L = take n (h_tlog s tm)"
    by (auto simp: committed_def)
  have "take k (h_tlog s T') = take k (h_tlog s tm)"
    using comp_invD(1) [OF inv k(2) chosen_choosable [OF k(3)] T(2)] k(1) T(1)
    by (cases "tm = T'") auto
  then show ?thesis using take_eq_mono [OF _ k(4)] k(5) by metis
qed

text \<open>Two committed prefixes agree as far as both go.\<close>

lemma committed_agree:
  assumes fb: "full_base cfg s" and inv: "comp_inv cfg s"
    and "committed cfg s T n L" "committed cfg s T' n' L'"
  shows "take (min n n') L = take (min n n') L'"
proof -
  have half: "take (min n n') L = take (min n n') L'"
    if L: "tm \<le> tm'" "own s tm k" "chosen cfg s tm k" "n \<le> k" "take n L = take n (h_tlog s tm)"
      and L': "own s tm' k'" "take n' L' = take n' (h_tlog s tm')" for n n' L L' tm tm' k k'
  proof -
    have "take k (h_tlog s tm') = take k (h_tlog s tm)"
      using comp_invD(1) [OF inv L(2) chosen_choosable [OF L(3)]] own_leader(1) [OF fb L'(1)] L(1)
      by (cases "tm = tm'") auto
    from take_eq_mono [OF this, of "min n n'"] take_eq_mono [OF L(5), of "min n n'"]
      take_eq_mono [OF L'(2), of "min n n'"] L(4)
    show ?thesis by simp
  qed
  from assms(3) obtain tm k where a: "own s tm k" "chosen cfg s tm k" "n \<le> k" "take n L = take n (h_tlog s tm)"
    by (auto simp: committed_def)
  from assms(4) obtain tm' k' where b: "own s tm' k'" "chosen cfg s tm' k'" "n' \<le> k'"
      "take n' L' = take n' (h_tlog s tm')"
    by (auto simp: committed_def)
  show ?thesis
    using half [OF _ a b(1,4)] half [OF _ b a(1,4)] by (cases "tm \<le> tm'") (simp_all add: min.commute)
qed

section \<open>Logs keep their committed prefix\<close>

lemma commit_keeps:
  assumes mv: "move cfg s t" and comp: "comp_inv cfg s" and j: "j \<in> node_ids cfg"
    and c: "committed cfg s (node_term s j) n (node_log s j)"
  shows "take n (node_log t j) = take n (node_log s j)"
  using moveD(1,4) [OF mv] j
proof (cases rule: step_log)
  case (snoc e)
  then show ?thesis using committed_length [OF c] by simp
next
  case (merged i args)
  note minv = moveD(5) [OF mv]
  have M: "take n (h_tlog s (ae_Term args)) = take n (node_log s j)"
    using committed_leader [OF comp c merged(5)] match_invD(8) [OF minv merged(1)] by simp
  then have "n \<le> length (h_tlog s (ae_Term args))"
    using take_eq_length [OF M [symmetric]] committed_length [OF c] by simp
  then show ?thesis
    using M accept_keeps [OF match_invD(1) [OF minv j] match_invD(2) [OF minv]
        match_invD(9) [OF minv merged(1)] merged(2,3), of n] by simp
qed simp


section \<open>Match indices are acknowledged\<close>

lemma record_match_other:
  "q \<noteq> p \<and> 0 \<le> q \<and> 0 \<le> p \<or> n \<le> rf_matchIndex rf ! nat p \<Longrightarrow>
     rf_matchIndex (record_match (nat q) n rf) ! nat p = rf_matchIndex rf ! nat p"
  by (cases "nat q = nat p") (auto simp: record_match_def)

lemma match_acked_step:
  assumes mv: "move cfg s t" and inv: "match_acked cfg s"
  shows "match_acked cfg t"
  unfolding match_acked_def
proof (intro ballI impI)
  fix i p
  assume i: "i \<in> node_ids cfg" "p \<in> node_ids cfg" "node_state t i = Leader" "p \<noteq> i"
  let ?ok = "rf_matchIndex (cl_nodes t i) ! nat p \<le> 0 \<or>
    acked t (node_term t i) p (nat (rf_matchIndex (cl_nodes t i) ! nat p))"
  have old: ?ok if "node_state s i = Leader" "node_term t i = node_term s i"
      "rf_matchIndex (cl_nodes t i) ! nat p = rf_matchIndex (cl_nodes s i) ! nat p"
    using inv i that acked_mono [OF mv] unfolding match_acked_def by metis
  have len: "p < int (length (cc_Nodes cfg))" "0 \<le> p"
    using i(2) moveD(6) [OF mv] by (auto simp: type_inv_def node_ids_wf)
  from moveD(1,6) [OF mv] show ?ok
  proof (cases rule: cluster_step_cases)
    case (won c tm v reply rf')
    then show ?thesis using i len old by (cases "c = i") auto
  next
    case (acked j q args reply rf')
    show ?thesis
    proof (cases "j = i \<and> q = p \<and> rf_matchIndex (cl_nodes s i) ! nat p < new_match args")
      case True
      have "length (rf_matchIndex (cl_nodes s i)) = length (cc_Nodes cfg)"
        using type_inv_nodeD [OF moveD(6) [OF mv] i(1)] by (simp add: node_ok_def)
      then have "rf_matchIndex (cl_nodes t i) ! nat p = new_match args"
        using True acked len by (auto simp: record_match_def)
      moreover have "MAppend j q args \<in> sent s"
        using type_inv_msgD [OF moveD(6) [OF mv] acked(1)] by (simp add: msg_ok_def)
      then have "ae_wf args"
        using type_inv_msgD [OF moveD(6) [OF mv]] by (fastforce simp: msg_ok_def)
      moreover have "MAppendReply i p args reply \<in> sent t" "node_term t i = ae_Term args"
        using True acked by auto
      ultimately show ?thesis using acked(4) by (auto simp: acked_def new_match_end)
    next
      case False
      then have "rf_matchIndex (cl_nodes t i) ! nat p = rf_matchIndex (cl_nodes s i) ! nat p"
        using acked(3,7,12) record_match_other [of q p "new_match args"] len(2) moveD(6) [OF mv]
        by (auto simp: type_inv_def node_ids_wf)
      then show ?thesis using acked i old by (cases "j = i") auto
    qed
  next
    case (stepdown j r tm w)
    then show ?thesis using i old by (auto split: if_splits)
  next
    case (accepted j q args rf' reply)
    then show ?thesis using i old by (cases "q = i") (auto simp: role_after_def split: if_splits)
  next
    case (command j c rf')
    then show ?thesis using i old by (cases "j = i") auto
  qed (use i old in \<open>auto simp: quiet_def same_data_def role_after_def split: if_splits\<close>)
qed

section \<open>What a leader commits is chosen\<close>

lemma acked_le: "acked s tm v k \<Longrightarrow> j \<le> k \<Longrightarrow> acked s tm v j"
  unfolding acked_def using order_trans by blast

lemma commit_point_chosen:
  assumes type: "type_inv cfg t" and minv: "match_inv cfg t" and lead: "leader_inv cfg t"
    and macks: "match_acked cfg t" and i: "i \<in> node_ids cfg" "node_state t i = Leader"
    and cp: "0 < n" "n \<le> int (length (node_log t i))" "le_Term (node_log t i ! nat (n - 1)) = node_term t i"
      "quorum (cl_nodes t i) \<le> 1 + int (length (replicas n (cl_nodes t i) (rf_peers (cl_nodes t i))))"
  shows "committed cfg t (node_term t i) (nat n) (node_log t i)"
proof -
  have ok: "rf_id (cl_nodes t i) = i" "rf_peers (cl_nodes t i) = cc_Nodes cfg" and wf: "wf_cfg cfg"
    using type_inv_nodeD [OF type i(1)] type by (auto simp: node_ok_def type_inv_def)
  note log = match_invD(6) [OF minv i]
  let ?reps = "replicas n (cl_nodes t i) (cc_Nodes cfg)"
  let ?Q = "insert i (nc_ID ` set ?reps)"
  have own: "own t (node_term t i) (nat n)" using cp(1-3) log by (auto simp: own_def nat_diff_distrib)
  have "distinct (map nc_ID ?reps)"
    unfolding replicas_def by (rule distinct_map_filter [OF distinct_ids [OF wf]])
  then have "card (nc_ID ` set ?reps) = length ?reps"
    by (metis distinct_card length_map list.set_map)
  moreover have "i \<notin> nc_ID ` set ?reps" using ok by (auto simp: replicas_def)
  ultimately have "card ?Q = Suc (length ?reps)" by simp
  then have "majority cfg ?Q"
    using cp(4) ok card_node_ids [OF wf] i(1)
    by (auto simp: majority_def quorum_def replicas_def node_ids_def)
  moreover have "acked t (node_term t i) v (nat n)" if v: "v \<in> ?Q" for v
  proof (cases "v = i")
    case True
    then show ?thesis using leader_invL [OF lead i] cp log by (auto simp: acked_def)
  next
    case False
    then have m: "v \<in> node_ids cfg" "n \<le> rf_matchIndex (cl_nodes t i) ! nat v"
      using v by (auto simp: replicas_def node_ids_def)
    then have "acked t (node_term t i) v (nat (rf_matchIndex (cl_nodes t i) ! nat v))"
      using macks i False cp(1) by (force simp: match_acked_def)
    then show ?thesis using m(2) by (rule acked_le [OF _ nat_mono])
  qed
  ultimately have "chosen cfg t (node_term t i) (nat n)" unfolding chosen_def by blast
  then show ?thesis using own log unfolding committed_def by (metis order_refl)
qed


section \<open>Preservation\<close>

lemma nodes_committed_keep:
  assumes mv: "move cfg s t" and comp: "comp_inv cfg s" and inv: "nodes_committed cfg s"
    and i: "i \<in> node_ids cfg" and same: "node_commit t i = node_commit s i"
  shows "0 \<le> node_commit t i \<and>
    (node_commit t i = 0 \<or> committed cfg t (node_term t i) (nat (node_commit t i)) (node_log t i))"
proof -
  have "0 \<le> node_commit s i"
    "node_commit s i = 0 \<or> committed cfg s (node_term s i) (nat (node_commit s i)) (node_log s i)"
    using inv i by (auto simp: nodes_committed_def)
  then show ?thesis
    using committed_mono [OF mv _ move_term [OF mv i]] commit_keeps [OF mv comp i] same by metis
qed

lemma follower_commits:
  assumes mv: "move cfg s t" and inv: "requests_committed cfg s" and req: "MAppend i p args \<in> sent s"
    and log: "take (ae_end args) (node_log t p) = take (ae_end args) (h_tlog s (ae_Term args))"
    and lc: "0 < ae_LeaderCommit args"
  shows "min (ae_LeaderCommit args) (int (length (node_log t p))) = ae_LeaderCommit args"
    and "committed cfg t (ae_Term args) (nat (ae_LeaderCommit args)) (node_log t p)"
proof -
  have r: "ae_LeaderCommit args \<le> int (ae_end args)"
      "committed cfg s (ae_Term args) (nat (ae_LeaderCommit args)) (h_tlog s (ae_Term args))"
    using inv req lc by (fastforce simp: requests_committed_def)+
  have "ae_end args \<le> length (node_log t p)"
    using take_eq_length [OF log [symmetric]] match_invD(9) [OF moveD(5) [OF mv] req]
    by (simp add: segment_of_def)
  then show "min (ae_LeaderCommit args) (int (length (node_log t p))) = ae_LeaderCommit args"
    using r(1) by simp
  show "committed cfg t (ae_Term args) (nat (ae_LeaderCommit args)) (node_log t p)"
    using take_eq_mono [OF log, of "nat (ae_LeaderCommit args)"] r(1)
    by (intro committed_mono [OF mv r(2)]) simp_all
qed

lemma leader_commits:
  assumes mv: "move cfg s t" and macks: "match_acked cfg t" and i: "i \<in> node_ids cfg" "node_state t i = Leader"
    and cp: "commit_point rf1 (node_commit t i)" and same: "rf_log rf1 = rf_log (cl_nodes t i)"
      "rf_currentTerm rf1 = node_term t i" "rf_matchIndex rf1 = rf_matchIndex (cl_nodes t i)"
      "rf_id rf1 = i" "rf_peers rf1 = cc_Nodes cfg"
  shows "0 < node_commit t i \<and> committed cfg t (node_term t i) (nat (node_commit t i)) (node_log t i)"
proof -
  have "rf_id (cl_nodes t i) = i" "rf_peers (cl_nodes t i) = cc_Nodes cfg"
    using type_inv_nodeD [OF moveD(12) [OF mv] i(1)] by (auto simp: node_ok_def)
  then show ?thesis
    using cp same commit_point_chosen [OF moveD(12,8,7) [OF mv] macks i, of "node_commit t i"]
    by (simp add: commit_point_def quorum_def replicas_def)
qed

lemma nodes_committed_step:
  assumes mv: "move cfg s t" and comp: "comp_inv cfg s" and inv: "commit_inv cfg s"
  shows "nodes_committed cfg t"
  unfolding nodes_committed_def
proof (rule ballI)
  fix i
  assume i: "i \<in> node_ids cfg"
  have inv': "nodes_committed cfg s" "requests_committed cfg s" "match_acked cfg t" "0 \<le> node_commit s i"
    using inv match_acked_step [OF mv] i by (auto simp: commit_inv_def nodes_committed_def)
  note keep = nodes_committed_keep [OF mv comp inv'(1) i]
  from moveD(1,6) [OF mv] show "0 \<le> node_commit t i \<and>
    (node_commit t i = 0 \<or> committed cfg t (node_term t i) (nat (node_commit t i)) (node_log t i))"
  proof (cases rule: cluster_step_cases)
    case (accepted j p args rf' reply)
    show ?thesis
    proof (cases "p = i \<and> node_commit s p < ae_LeaderCommit args")
      case True
      have "take (ae_end args) (node_log t p) = take (ae_end args) (h_tlog s (ae_Term args))"
        using accept_merge(1) [OF match_invD(1) [OF moveD(5) [OF mv] accepted(2)]
            match_invD(2) [OF moveD(5) [OF mv]] match_invD(9) [OF moveD(5) [OF mv] accepted(1)]
            accepted(9,10)] accepted(3) by simp
      from follower_commits [OF mv inv'(2) accepted(1) this] show ?thesis
        using True accepted inv'(4) by auto
    qed (use accepted keep in auto)
  next
    case (acked j p args reply rf')
    show ?thesis
    proof (cases "j = i \<and> node_commit t i \<noteq> node_commit s i")
      case True
      let ?rf1 = "record_match (nat p) (new_match args) (cl_nodes s i)"
      have "commit_point ?rf1 (node_commit t i)" "rf_id (cl_nodes s i) = i" "rf_peers (cl_nodes s i) = cc_Nodes cfg"
        using True acked type_inv_nodeD [OF moveD(6) [OF mv] i] by (auto simp: node_ok_def)
      then have "0 < node_commit t i \<and> committed cfg t (node_term t i) (nat (node_commit t i)) (node_log t i)"
        using True acked by (intro leader_commits [OF mv inv'(3) i, of ?rf1]) auto
      then show ?thesis by simp
    qed (use acked keep in auto)
  next
    case (stepdown j r tm w)
    then show ?thesis by (intro keep) auto
  qed (intro keep; simp add: quiet_def same_data_def)+
qed

lemma requests_committed_step:
  assumes mv: "move cfg s t" and inv: "commit_inv cfg s"
  shows "requests_committed cfg t"
  unfolding requests_committed_def
proof (intro allI impI)
  fix i p args
  assume m: "MAppend i p args \<in> sent t"
  let ?ok = "0 \<le> ae_LeaderCommit args \<and> ae_LeaderCommit args \<le> int (ae_end args) \<and>
    (ae_LeaderCommit args = 0 \<or> committed cfg t (ae_Term args) (nat (ae_LeaderCommit args))
      (h_tlog t (ae_Term args)))"
  have old: ?ok if "MAppend i p args \<in> sent s"
  proof -
    have "0 \<le> ae_LeaderCommit args \<and> ae_LeaderCommit args \<le> int (ae_end args)"
      "ae_LeaderCommit args = 0 \<or> committed cfg s (ae_Term args) (nat (ae_LeaderCommit args))
        (h_tlog s (ae_Term args))"
      using inv that by (auto simp: commit_inv_def requests_committed_def)
    then show ?thesis
      using committed_mono [OF mv _ order_refl tlog_ext_take [OF move_ext [OF mv]]] committed_length by metis
  qed
  from moveD(1,6) [OF mv] show ?ok
  proof (cases rule: cluster_step_cases)
    case (send j q args')
    show ?thesis
    proof (cases "MAppend i p args \<in> sent s")
      case False
      then have eq: "i = j" "args = args'" using m send by auto
      have c: "0 \<le> node_commit s j" "node_commit s j = 0 \<or>
          committed cfg s (node_term s j) (nat (node_commit s j)) (node_log s j)"
        using inv send(1) by (auto simp: commit_inv_def nodes_committed_def)
      have log: "h_tlog t (node_term s j) = node_log s j"
        using match_invD(6) [OF moveD(5) [OF mv] send(1,5)] send by simp
      have "length (node_log s j) \<le> ae_end args'"
        using arg_cong [OF send(9), of length] by (simp add: ae_end_def)
      then have "node_commit s j \<le> int (ae_end args')" using c committed_length by fastforce
      moreover have "node_commit s j = 0 \<or>
          committed cfg t (node_term s j) (nat (node_commit s j)) (h_tlog t (node_term s j))"
        using c(2) committed_mono [OF mv _ order_refl] log by metis
      ultimately show ?thesis using c(1) send eq by simp
    qed (rule old)
  next
    case (stepdown j r tm w)
    then show ?thesis using m old by auto
  qed (use m old in auto)
qed

lemma commit_inv_step:
  "move cfg s t \<Longrightarrow> comp_inv cfg s \<Longrightarrow> commit_inv cfg s \<Longrightarrow> commit_inv cfg t"
  by (simp add: commit_inv_def [of _ t] nodes_committed_step requests_committed_step)
    (simp add: commit_inv_def match_acked_step)

lemma boot_commit [simp]: "node_commit (init_cluster rs cfg) i = 0"
  by (simp add: init_cluster_def)

lemma commit_inv_start: "cluster_start cfg s \<Longrightarrow> commit_inv cfg s"
  by (auto simp: cluster_start_def commit_inv_def match_acked_def nodes_committed_def
      requests_committed_def init_cluster_def)

definition commit_base :: "ClusterConfig \<Rightarrow> Cluster \<Rightarrow> bool" where
  "commit_base cfg s \<longleftrightarrow> full_base cfg s \<and> comp_inv cfg s"

interpretation commits: invariant_of "cluster_start cfg" "cluster_step cfg" "commit_base cfg" "commit_inv cfg" for cfg
  by unfold_locales (auto simp: move_def commit_base_def intro: commit_inv_start commit_inv_step
      full_base_reach complete.reach_inv)

end
