(* ===== verification/Raft_Apply.thy ===== *)
theory Raft_Apply
  imports Raft_Commit
begin

text \<open>
  The apply goroutine. It delivers exactly the committed prefix of the node's log, in
  order and without gaps; it is parked only when nothing is left to deliver, so no
  wakeup is lost; and run on its own it delivers everything that is committed.
\<close>

definition apply_msg :: "LogEntry \<Rightarrow> ApplyMsg" where
  "apply_msg e = \<lparr>am_Index = le_Index e, am_Term = le_Term e, am_Command = le_Command e\<rparr>"

section \<open>Everybody else leaves the goroutine alone\<close>

definition apply_frame :: "Raft \<Rightarrow> Raft \<Rightarrow> bool" where
  "apply_frame rf rf' \<longleftrightarrow> rf_lastApplied rf' = rf_lastApplied rf \<and> rf_commitCh rf' = rf_commitCh rf \<and>
     (rf_applyPc rf' = rf_applyPc rf \<and> rf_commitIndex rf' = rf_commitIndex rf \<and> rf_dead rf' = rf_dead rf \<or>
      rf_applyPc rf' = (if rf_applyPc rf = ApplyParked then ApplyOuter else rf_applyPc rf))"

lemma apply_frame_refl [simp]: "apply_frame rf rf"
  by (simp add: apply_frame_def)

lemma apply_frame_becomeFollower [simp]: "apply_frame rf (becomeFollower r t rf)"
  by (simp add: apply_frame_def becomeFollower_def resetElectionTimer_def)

lemma apply_frame_signal: "apply_frame rf (applyCond_Signal (rf\<lparr>rf_commitIndex := n\<rparr>))"
  by (auto simp: apply_frame_def applyCond_Signal_def)

lemma same_data_frame: "same_data rf rf' \<Longrightarrow> apply_frame rf rf'"
  by (simp add: apply_frame_def same_data_def)

lemma becomeLeader_frame: "becomeLeader rf = Inr rf' \<Longrightarrow> apply_frame rf rf'"
  by (auto simp: becomeLeader_def Let_def go_bind_Inr_iff apply_frame_def split: if_splits)

lemma voteReply_frame: "voteReply r tm reply n rf = Inr (rf', n', won) \<Longrightarrow> apply_frame rf rf'"
  by (auto simp: voteReply_def go_bind_Inr_iff dest: becomeLeader_frame split: if_splits)

lemma Start_frame: "Start c rf = Inr (rf', res, ps) \<Longrightarrow> apply_frame rf rf'"
  by (auto simp: Start_def Let_def go_bind_Inr_iff apply_frame_def split: if_splits)

lemma AppendEntries_frame: "AppendEntries r args rf = Inr (rf', reply) \<Longrightarrow> apply_frame rf rf'"
  by (auto simp: AppendEntries_def Let_def go_bind_Inr_iff apply_frame_def applyCond_Signal_def
      becomeFollower_def resetElectionTimer_def split: if_splits)

lemma Kill_apply_frame: "apply_frame rf (Kill rf)"
  by (simp add: Kill_def apply_frame_def applyCond_Signal_def)

lemma advance_from_frame: "advance_from n rf = Inr rf' \<Longrightarrow> apply_frame rf rf'"
proof (induction n rf rule: advance_from.induct)
  case (1 n rf)
  obtain e ok where at: "log_At (rf_log rf) n = (e, ok)" by fastforce
  from 1(3) show ?case
    using 1(1) [OF _ at [symmetric]] 1(2) [OF _ at [symmetric]]
    by (subst (asm) advance_from.simps) (auto simp: apply_frame_signal at split: if_splits sum.splits)
qed

lemma recv_frame: "sendAppendEntries_recv r p args reply rf = Inr (rf', again) \<Longrightarrow> apply_frame rf rf'"
  by (auto simp: sendAppendEntries_recv_def Let_def go_bind_Inr_iff advanceCommitIndex_def
      dest!: advance_from_frame split: if_splits) (auto simp: apply_frame_def)

lemma startElection_frame:
  "startElection r (fire_timer rf) = Inr (rf', out) \<Longrightarrow> apply_frame rf rf'"
  by (auto simp: startElection_def Let_def go_bind_Inr_iff apply_frame_def resetElectionTimer_def
      split: if_splits)

lemma RequestVote_frame: "RequestVote r1 r2 req rf = Inr (rf', reply) \<Longrightarrow> apply_frame rf rf'"
  by (auto simp: RequestVote_def Let_def go_bind_Inr_iff apply_frame_def resetElectionTimer_def
      becomeFollower_def split: if_splits)

lemma step_apply:
  assumes "cluster_step cfg s t"
  shows "cl_nodes t i = applyLoop (cl_nodes s i) \<or> apply_frame (cl_nodes s i) (cl_nodes t i)"
  using assms
  by cases (auto simp: Kill_apply_frame dest: startElection_frame RequestVote_frame voteReply_frame
      AppendEntries_frame recv_frame Start_frame)

section \<open>The invariant of the goroutine\<close>

text \<open>How many entries have been delivered: the one being sent is not among them yet.\<close>

definition delivered :: "Raft \<Rightarrow> nat" where
  "delivered rf = (case rf_applyPc rf of ApplySending m \<Rightarrow> nat (rf_lastApplied rf) - 1
     | _ \<Rightarrow> nat (rf_lastApplied rf))"

definition apply_ok :: "Raft \<Rightarrow> bool" where
  "apply_ok rf \<longleftrightarrow> 0 \<le> rf_lastApplied rf \<and> rf_lastApplied rf \<le> rf_commitIndex rf \<and>
     rf_commitIndex rf \<le> int (length (log_list (rf_log rf))) \<and>
     rf_commitCh rf = map apply_msg (take (delivered rf) (log_list (rf_log rf))) \<and>
     (\<forall>m. rf_applyPc rf = ApplySending m \<longrightarrow> 0 < rf_lastApplied rf \<and>
        m = apply_msg (log_list (rf_log rf) ! (nat (rf_lastApplied rf) - 1))) \<and>
     (rf_applyPc rf = ApplyParked \<longrightarrow> rf_lastApplied rf = rf_commitIndex rf \<and> \<not> rf_dead rf)"

lemma apply_ok_frame:
  assumes ok: "apply_ok rf" and fr: "apply_frame rf rf'" and up: "rf_commitIndex rf \<le> rf_commitIndex rf'"
    and len: "rf_commitIndex rf' \<le> int (length (log_list (rf_log rf')))"
    and log: "take (nat (rf_commitIndex rf)) (log_list (rf_log rf')) =
      take (nat (rf_commitIndex rf)) (log_list (rf_log rf))"
  shows "apply_ok rf'"
proof -
  have data: "rf_lastApplied rf' = rf_lastApplied rf" "rf_commitCh rf' = rf_commitCh rf"
    "rf_applyPc rf' = ApplySending m \<longleftrightarrow> rf_applyPc rf = ApplySending m"
    "rf_applyPc rf' = ApplyParked \<Longrightarrow>
       rf_applyPc rf = ApplyParked \<and> rf_commitIndex rf' = rf_commitIndex rf \<and> rf_dead rf' = rf_dead rf" for m
    using fr by (auto simp: apply_frame_def split: if_splits)
  have bounds: "0 \<le> rf_lastApplied rf" "rf_lastApplied rf \<le> rf_commitIndex rf"
    using ok by (auto simp: apply_ok_def)
  have del: "delivered rf' = delivered rf"
    using data(1,3) fr by (auto simp: delivered_def apply_frame_def split: if_splits ApplyPc.splits)
  have "delivered rf \<le> nat (rf_commitIndex rf)"
    using bounds by (auto simp: delivered_def split: ApplyPc.splits)
  then have ch: "take (delivered rf) (log_list (rf_log rf')) = take (delivered rf) (log_list (rf_log rf))"
    by (rule take_eq_mono [OF log])
  have nth: "0 < rf_lastApplied rf \<Longrightarrow> log_list (rf_log rf') ! (nat (rf_lastApplied rf) - 1) =
      log_list (rf_log rf) ! (nat (rf_lastApplied rf) - 1)"
    using bounds by (intro take_eq_nth [OF log]) auto
  show ?thesis
    using ok up len data del ch nth unfolding apply_ok_def by auto
qed

lemma log_At_entry:
  assumes "log_wf l" and "0 < n" and "n \<le> int (length (log_list l))"
  shows "log_At l n = (log_list l ! (nat n - 1), True)"
  using assms lg.at_els [OF assms(1), of n] by (auto simp: nat_diff_distrib)


lemma apply_ok_applyLoop:
  assumes ok: "apply_ok rf" and wf: "log_wf (rf_log rf)"
  shows "apply_ok (applyLoop rf)"
proof (cases "rf_applyPc rf")
  case ApplyInner
  show ?thesis
  proof (cases "rf_lastApplied rf < rf_commitIndex rf")
    case True
    then have "log_At (rf_log rf) (rf_lastApplied rf + 1) =
        (log_list (rf_log rf) ! nat (rf_lastApplied rf), True)"
      using ok log_At_entry [OF wf, of "rf_lastApplied rf + 1"] by (auto simp: apply_ok_def nat_add_distrib)
    then show ?thesis
      using ok True ApplyInner
      by (auto simp: applyLoop_def Let_def apply_ok_def delivered_def apply_msg_def nat_add_distrib)
  next
    case False
    then show ?thesis
      using ok ApplyInner by (auto simp: applyLoop_def apply_park_def apply_ok_def delivered_def)
  qed
next
  case (ApplySending m)
  then have "nat (rf_lastApplied rf) = Suc (nat (rf_lastApplied rf) - 1)"
      "nat (rf_lastApplied rf) - 1 < length (log_list (rf_log rf))"
    using ok by (auto simp: apply_ok_def)
  from take_Suc_append_nth [OF this(2)] this(1) show ?thesis
    using ok ApplySending by (auto simp: applyLoop_def apply_ok_def delivered_def)
qed (use ok in \<open>auto simp: applyLoop_def apply_ok_def delivered_def\<close>)

definition apply_inv :: "ClusterConfig \<Rightarrow> Cluster \<Rightarrow> bool" where
  "apply_inv cfg s \<longleftrightarrow> (\<forall>i \<in> node_ids cfg. apply_ok (cl_nodes s i))"

lemma step_commit_mono:
  assumes step: "cluster_step cfg s t" and type: "type_inv cfg s"
  shows "node_commit s i \<le> node_commit t i \<or> int (length (node_log t i)) < node_commit s i"
  using step type
proof (cases rule: cluster_step_cases)
  case (stepdown j r tm w)
  then show ?thesis by auto
qed (auto simp: quiet_def same_data_def commit_point_def)

definition apply_base :: "ClusterConfig \<Rightarrow> Cluster \<Rightarrow> bool" where
  "apply_base cfg s \<longleftrightarrow> commit_base cfg s \<and> commit_inv cfg s"

lemma nodes_committedD:
  assumes "commit_inv cfg s" and "i \<in> node_ids cfg"
  shows "0 \<le> node_commit s i" and "node_commit s i \<le> int (length (node_log s i))"
    and "node_commit s i = 0 \<or> committed cfg s (node_term s i) (nat (node_commit s i)) (node_log s i)"
proof -
  have c: "0 \<le> node_commit s i" "node_commit s i = 0 \<or>
      committed cfg s (node_term s i) (nat (node_commit s i)) (node_log s i)"
    using assms by (auto simp: commit_inv_def nodes_committed_def)
  then show "0 \<le> node_commit s i" "node_commit s i = 0 \<or>
      committed cfg s (node_term s i) (nat (node_commit s i)) (node_log s i)" by auto
  show "node_commit s i \<le> int (length (node_log s i))" using c committed_length by fastforce
qed

text \<open>A step keeps every node's committed prefix and never lowers its commit index.\<close>

lemma step_committed:
  assumes "apply_base cfg s" and "cluster_step cfg s t" and "apply_base cfg t" and i: "i \<in> node_ids cfg"
  shows "node_commit s i \<le> node_commit t i"
    and "take (nat (node_commit s i)) (node_log t i) = take (nat (node_commit s i)) (node_log s i)"
proof -
  have mv: "move cfg s t" and comp: "comp_inv cfg s" and inv: "commit_inv cfg s"
    using assms by (auto simp: apply_base_def commit_base_def move_def)
  show keep: "take (nat (node_commit s i)) (node_log t i) = take (nat (node_commit s i)) (node_log s i)"
    using nodes_committedD(3) [OF inv i] commit_keeps [OF mv comp i] by auto
  have "nat (node_commit s i) \<le> length (node_log t i)"
    using take_eq_length [OF keep [symmetric]] nodes_committedD(2) [OF inv i] by simp
  then show "node_commit s i \<le> node_commit t i"
    using step_commit_mono [OF assms(2) moveD(6) [OF mv], of i] by auto
qed

lemma apply_inv_step:
  assumes base: "apply_base cfg s" and inv: "apply_inv cfg s" and step: "cluster_step cfg s t"
    and base': "apply_base cfg t"
  shows "apply_inv cfg t"
  unfolding apply_inv_def
proof (rule ballI)
  fix i
  assume i: "i \<in> node_ids cfg"
  have ok: "apply_ok (cl_nodes s i)" using inv i by (simp add: apply_inv_def)
  have type: "type_inv cfg s" and cinv: "commit_inv cfg t"
    using base base' full_baseD(3) by (auto simp: apply_base_def commit_base_def)
  from step_apply [OF step, of i] show "apply_ok (cl_nodes t i)"
  proof
    assume "cl_nodes t i = applyLoop (cl_nodes s i)"
    then show ?thesis
      using apply_ok_applyLoop [OF ok] type_inv_nodeD [OF type i] by (simp add: node_ok_def)
  next
    assume "apply_frame (cl_nodes s i) (cl_nodes t i)"
    then show ?thesis
      by (rule apply_ok_frame [OF ok _ step_committed(1) [OF base step base' i]
            nodes_committedD(2) [OF cinv i] step_committed(2) [OF base step base' i]])
  qed
qed

lemma apply_inv_start: "cluster_start cfg s \<Longrightarrow> apply_inv cfg s"
  by (auto simp: cluster_start_def init_cluster_def apply_inv_def apply_ok_def delivered_def)

lemma apply_base_reach: "cluster_reach cfg s \<Longrightarrow> apply_base cfg s"
  using commits.reach_both by (auto simp: apply_base_def)

interpretation applies: invariant_of "cluster_start cfg" "cluster_step cfg" "apply_base cfg" "apply_inv cfg" for cfg
  by unfold_locales (auto intro: apply_inv_start apply_inv_step apply_base_reach)


section \<open>The goroutine delivers everything\<close>

text \<open>A bound on the rounds until the goroutine parks.\<close>

definition apply_work :: "Raft \<Rightarrow> nat" where
  "apply_work rf = 2 * nat (rf_commitIndex rf - rf_lastApplied rf) +
     (case rf_applyPc rf of ApplyOuter \<Rightarrow> 2 | ApplyInner \<Rightarrow> 1 | ApplySending m \<Rightarrow> 2 | _ \<Rightarrow> 0)"

definition apply_running :: "Raft \<Rightarrow> bool" where
  "apply_running rf \<longleftrightarrow> rf_applyPc rf \<noteq> ApplyNotStarted \<and> rf_applyPc rf \<noteq> ApplyExited \<and> \<not> rf_dead rf"

lemma applyLoop_round:
  assumes ok: "apply_ok rf" and wf: "log_wf (rf_log rf)" and run: "apply_running rf"
    and busy: "rf_applyPc rf \<noteq> ApplyParked"
  shows "apply_running (applyLoop rf) \<and> apply_work (applyLoop rf) < apply_work rf"
proof (cases "rf_applyPc rf = ApplyInner \<and> rf_lastApplied rf < rf_commitIndex rf")
  case True
  then have "log_At (rf_log rf) (rf_lastApplied rf + 1) =
      (log_list (rf_log rf) ! nat (rf_lastApplied rf), True)"
    using ok log_At_entry [OF wf, of "rf_lastApplied rf + 1"] by (auto simp: apply_ok_def nat_add_distrib)
  then show ?thesis
    using True run by (auto simp: applyLoop_def Let_def apply_running_def apply_work_def)
next
  case False
  then show ?thesis
    using run busy by (cases "rf_applyPc rf")
      (auto simp: applyLoop_def apply_park_def apply_running_def apply_work_def)
qed

lemma applyLoop_parks:
  assumes "apply_ok rf" and "log_wf (rf_log rf)" and "apply_running rf"
  shows "\<exists>n \<le> apply_work rf. rf_applyPc ((applyLoop ^^ n) rf) = ApplyParked \<and> apply_ok ((applyLoop ^^ n) rf)"
  using assms
proof (induction "apply_work rf" arbitrary: rf rule: less_induct)
  case less
  show ?case
  proof (cases "rf_applyPc rf = ApplyParked")
    case True
    then show ?thesis using less.prems(1) by (intro exI [of _ 0]) simp
  next
    case False
    note round = applyLoop_round [OF less.prems False]
    from less.hyps [of "applyLoop rf"] round apply_ok_applyLoop [OF less.prems(1,2)] less.prems(2)
    obtain n where n: "n \<le> apply_work (applyLoop rf)"
        "rf_applyPc ((applyLoop ^^ n) (applyLoop rf)) = ApplyParked" "apply_ok ((applyLoop ^^ n) (applyLoop rf))"
      by auto
    then show ?thesis
      using round by (intro exI [of _ "Suc n"]) (simp add: funpow_swap1)
  qed
qed

lemma applyLoop_iter_frame [simp]:
  "rf_log ((applyLoop ^^ n) rf) = rf_log rf" "rf_commitIndex ((applyLoop ^^ n) rf) = rf_commitIndex rf"
  by (induction n) simp_all

lemma applyLoop_drains:
  assumes "apply_ok rf" and "log_wf (rf_log rf)" and "apply_running rf"
  shows "\<exists>n \<le> apply_work rf. rf_commitCh ((applyLoop ^^ n) rf) =
    map apply_msg (take (nat (rf_commitIndex rf)) (log_list (rf_log rf)))"
proof -
  from applyLoop_parks [OF assms] obtain n where n: "n \<le> apply_work rf"
      "rf_applyPc ((applyLoop ^^ n) rf) = ApplyParked" "apply_ok ((applyLoop ^^ n) rf)" by blast
  then have "rf_commitCh ((applyLoop ^^ n) rf) =
      map apply_msg (take (nat (rf_commitIndex rf)) (log_list (rf_log rf)))"
    by (auto simp: apply_ok_def delivered_def)
  then show ?thesis using n(1) by blast
qed

section \<open>The invariants of a reachable state\<close>

lemma reach_invs:
  assumes "cluster_reach cfg s"
  shows "type_inv cfg s" "vote_inv s" "leader_inv cfg s" "match_inv cfg s" "full_base cfg s"
    "comp_inv cfg s" "commit_inv cfg s" "apply_inv cfg s" "apply_base cfg s"
  using applies.reach_both [OF assms] full_baseD
  by (auto simp: apply_base_def commit_base_def)

lemma reach_node:
  assumes "cluster_reach cfg s" and "i \<in> node_ids cfg"
  shows "node_ok cfg i (cl_nodes s i)" "log_wf (rf_log (cl_nodes s i))" "wf_cfg cfg" "apply_ok (cl_nodes s i)"
  using reach_invs(1,8) [OF assms(1)] assms(2) by (auto simp: type_inv_def node_ok_def apply_inv_def)

section \<open>A command is identified by its index and term\<close>

definition cluster_steps :: "ClusterConfig \<Rightarrow> Cluster \<Rightarrow> Cluster \<Rightarrow> bool" where
  "cluster_steps cfg = (cluster_step cfg)\<^sup>*\<^sup>*"

lemma cluster_steps_reach: "cluster_steps cfg s t \<Longrightarrow> cluster_reach cfg s \<Longrightarrow> cluster_reach cfg t"
  unfolding cluster_steps_def by (induction rule: rtranclp_induct) (auto intro: reach.reach_step)

lemma cluster_steps_tlog:
  assumes "cluster_steps cfg s t" and "cluster_reach cfg s"
  shows "\<exists>ys. h_tlog t tm = h_tlog s tm @ ys"
  using assms(1) unfolding cluster_steps_def
proof (induction rule: rtranclp_induct)
  case (step t u)
  have t: "cluster_reach cfg t" using cluster_steps_reach step.hyps(1) assms(2) unfolding cluster_steps_def by blast
  then have "cluster_reach cfg u" using step.hyps(2) by (rule reach.reach_step)
  then have "move cfg t u" using t step.hyps(2) reach_invs(5) by (simp add: move_def)
  then obtain zs where "h_tlog u tm = h_tlog t tm @ zs" using move_ext unfolding tlog_ext_def by blast
  then show ?case using step.IH by auto
qed simp

text \<open>A delivered message is the entry that the leader of its term wrote at its index.\<close>

lemma delivered_entry:
  assumes s: "cluster_reach cfg s" and j: "j \<in> node_ids cfg" and m: "m \<in> set (rf_commitCh (cl_nodes s j))"
  shows "1 \<le> am_Index m \<and> am_Index m \<le> int (length (h_tlog s (am_Term m))) \<and>
    m = apply_msg (h_tlog s (am_Term m) ! (nat (am_Index m) - 1))"
proof -
  note ok = reach_node [OF s j] and pre = match_invD(1) [OF reach_invs(4) [OF s] j]
  from m ok(4) obtain k where k: "k < length (node_log s j)" "m = apply_msg (node_log s j ! k)"
    by (auto simp: apply_ok_def in_set_conv_nth)
  then have idx: "am_Index m = int k + 1" "am_Term m = le_Term (node_log s j ! k)"
    using lg.index_els [OF ok(2)] by (auto simp: apply_msg_def)
  have nth: "node_log s j ! k = h_tlog s (am_Term m) ! k"
    unfolding idx(2) by (rule take_eq_nth [OF prefix_okD [OF pre k(1)]]) simp
  have pos: "nat (am_Index m) - 1 = k" using idx(1) by simp
  have "int k < int (length (h_tlog s (am_Term m)))"
    using prefix_ok_length [OF pre k(1)] unfolding idx(2) by simp
  moreover have "m = apply_msg (h_tlog s (am_Term m) ! (nat (am_Index m) - 1))"
    unfolding pos nth [symmetric] by (rule k(2))
  ultimately show ?thesis using idx(1) by linarith
qed

text \<open>
  \<open>Start\<close> returned \<open>(index, term, true)\<close>. Whatever the cluster does afterwards, a node
  that delivers a message with this index and term delivers this command.
\<close>

lemma started_command:
  assumes s: "cluster_reach cfg s" and i: "i \<in> node_ids cfg"
    and start: "Start c (cl_nodes s i) = Inr (rf', (index, tm, True), ps)"
    and later: "cluster_steps cfg (note_leader True i (set_node i rf' s)) u"
    and j: "j \<in> node_ids cfg" and m: "m \<in> set (rf_commitCh (cl_nodes u j))" "am_Index m = index" "am_Term m = tm"
  shows "am_Command m = c"
proof -
  let ?t = "note_leader True i (set_node i rf' s)" and ?L = "node_log s i"
  have step: "cluster_step cfg s ?t" using cluster_step.client [OF i start] .
  then have t: "cluster_reach cfg ?t" by (rule reach.reach_step [OF s])
  from Start_effect [OF reach_node(2) [OF s i], of c] start
  have st: "index = int (length ?L) + 1" "tm = rf_currentTerm rf'"
      "log_list (rf_log rf') = ?L @ [\<lparr>le_Index = int (length ?L) + 1, le_Term = node_term s i, le_Command = c\<rparr>]"
    by auto
  obtain ys where "h_tlog u tm = h_tlog ?t tm @ ys" using cluster_steps_tlog [OF later t] by blast
  then have "h_tlog u tm = log_list (rf_log rf') @ ys" using st(2) by simp
  moreover have "nat index - 1 = length ?L" using st(1) by simp
  ultimately have "le_Command (h_tlog u tm ! (nat index - 1)) = c" by (simp add: st(3) nth_append)
  then show ?thesis
    using delivered_entry [OF cluster_steps_reach [OF later t] j m(1)] m(2,3) by (simp add: apply_msg_def)
qed

end
