(* ===== verification/Raft_Trace.thy ===== *)
theory Raft_Trace
  imports Raft_Cluster
begin

text \<open>
  The step relation of the cluster as an executable interpreter of events, so that
  concrete schedules can be run, and a three-node run in which node 0 is elected,
  replicates a command and commits it.
\<close>

section \<open>Events\<close>

text \<open>A message is named by its position on the network.\<close>

datatype event =
    EvTimeout int int
  | EvRecvVote nat int int int
  | EvVoteReply nat int
  | EvVoteLost int int int
  | EvSend int int
  | EvRecvAppend nat int
  | EvAppendReply nat int
  | EvClient int string
  | EvApply int
  | EvKill int

definition net_get :: "Cluster \<Rightarrow> nat \<Rightarrow> msg option" where
  "net_get s k = (if k < length (cl_net s) then Some (cl_net s ! k) else None)"

fun cluster_exec :: "ClusterConfig \<Rightarrow> event \<Rightarrow> Cluster \<Rightarrow> Cluster option" where
  "cluster_exec cfg (EvTimeout i r) s =
     (if i \<in> node_ids cfg then
        (case startElection r (fire_timer (cl_nodes s i)) of
           Inl e \<Rightarrow> None
         | Inr (rf', None) \<Rightarrow> Some (set_node i rf' s)
         | Inr (rf', Some (args, ps)) \<Rightarrow> Some (post (MRequestVote i args)
             (begin_election i args ps (note_vote True (rv_Term args) i (set_node i rf' s)))))
      else None)"
| "cluster_exec cfg (EvRecvVote k v r1 r2) s =
     (case net_get s k of
        Some (MRequestVote c args) \<Rightarrow>
          if v \<in> node_ids cfg \<and> v \<noteq> c then
            (case RequestVote r1 r2 args (cl_nodes s v) of
               Inl e \<Rightarrow> None
             | Inr (rf', reply) \<Rightarrow> Some (post (MVoteReply c (rv_Term args) v reply)
                 (note_vote (rvr_VoteGranted reply) (rv_Term args) v (set_node v rf' s))))
          else None
      | _ \<Rightarrow> None)"
| "cluster_exec cfg (EvVoteReply k r) s =
     (case net_get s k of
        Some (MVoteReply c t v reply) \<Rightarrow>
          if (c, t, v) \<in> set (cl_waiting s) then
            (case voteReply r t reply (cl_votes s c t) (cl_nodes s c) of
               Inl e \<Rightarrow> None
             | Inr (rf', votes', won) \<Rightarrow>
                 Some (end_wait c t v votes' (note_leader won c (set_node c rf' s))))
          else None
      | _ \<Rightarrow> None)"
| "cluster_exec cfg (EvVoteLost c t v) s =
     (if (c, t, v) \<in> set (cl_waiting s) then Some (end_wait c t v (cl_votes s c t) s) else None)"
| "cluster_exec cfg (EvSend i p) s =
     (if i \<in> node_ids cfg \<and> p \<in> node_ids cfg \<and> p \<noteq> i then
        (case sendAppendEntries_send p (cl_nodes s i) of
           Inr (Some args) \<Rightarrow> Some (post (MAppend i p args) s)
         | _ \<Rightarrow> None)
      else None)"
| "cluster_exec cfg (EvRecvAppend k r) s =
     (case net_get s k of
        Some (MAppend i p args) \<Rightarrow>
          (case AppendEntries r args (cl_nodes s p) of
             Inl e \<Rightarrow> None
           | Inr (rf', reply) \<Rightarrow> Some (post (MAppendReply i p args reply) (set_node p rf' s)))
      | _ \<Rightarrow> None)"
| "cluster_exec cfg (EvAppendReply k r) s =
     (case net_get s k of
        Some (MAppendReply i p args reply) \<Rightarrow>
          (case sendAppendEntries_recv r p args reply (cl_nodes s i) of
             Inl e \<Rightarrow> None
           | Inr (rf', again) \<Rightarrow> Some (set_node i rf' s))
      | _ \<Rightarrow> None)"
| "cluster_exec cfg (EvClient i command) s =
     (if i \<in> node_ids cfg then
        (case Start command (cl_nodes s i) of
           Inl e \<Rightarrow> None
         | Inr (rf', (index, term, isLeader), ps) \<Rightarrow> Some (note_leader isLeader i (set_node i rf' s)))
      else None)"
| "cluster_exec cfg (EvApply i) s =
     (if i \<in> node_ids cfg then Some (set_node i (applyLoop (cl_nodes s i)) s) else None)"
| "cluster_exec cfg (EvKill i) s =
     (if i \<in> node_ids cfg then Some (set_node i (Kill (cl_nodes s i)) s) else None)"

fun run_events :: "ClusterConfig \<Rightarrow> event list \<Rightarrow> Cluster \<Rightarrow> Cluster option" where
  "run_events cfg [] s = Some s"
| "run_events cfg (e # es) s =
     (case cluster_exec cfg e s of None \<Rightarrow> None | Some t \<Rightarrow> run_events cfg es t)"

lemma net_get_sent: "net_get s k = Some m \<Longrightarrow> m \<in> sent s"
  by (auto simp: net_get_def split: if_splits)

lemma sent_net_get: "m \<in> sent s \<Longrightarrow> \<exists>k. net_get s k = Some m"
  by (auto simp: net_get_def in_set_conv_nth)

lemma cluster_exec_sound: "cluster_exec cfg e s = Some t \<Longrightarrow> cluster_step cfg s t"
  by (cases e) (auto split: if_splits option.splits sum.splits prod.splits msg.splits
      intro: cluster_step.intros dest: net_get_sent)

lemma cluster_exec_complete:
  assumes "cluster_step cfg s t"
  shows "\<exists>e. cluster_exec cfg e s = Some t"
  using assms
proof cases
  case (timeout_quiet i r rf')
  then show ?thesis by (intro exI [of _ "EvTimeout i r"]) simp
next
  case (timeout i r rf' args ps)
  then show ?thesis by (intro exI [of _ "EvTimeout i r"]) simp
next
  case (recv_vote c args v r1 r2 rf' reply)
  then obtain k where "net_get s k = Some (MRequestVote c args)" using sent_net_get by blast
  then show ?thesis using recv_vote by (intro exI [of _ "EvRecvVote k v r1 r2"]) simp
next
  case (vote_reply c tm v reply r rf' votes' won)
  then obtain k where "net_get s k = Some (MVoteReply c tm v reply)" using sent_net_get by blast
  then show ?thesis using vote_reply by (intro exI [of _ "EvVoteReply k r"]) simp
next
  case (vote_lost c tm v)
  then show ?thesis by (intro exI [of _ "EvVoteLost c tm v"]) simp
next
  case (append_send i p args)
  then show ?thesis by (intro exI [of _ "EvSend i p"]) simp
next
  case (recv_append i p args r rf' reply)
  then obtain k where "net_get s k = Some (MAppend i p args)" using sent_net_get by blast
  then show ?thesis using recv_append by (intro exI [of _ "EvRecvAppend k r"]) simp
next
  case (append_reply i p args reply r rf' again)
  then obtain k where "net_get s k = Some (MAppendReply i p args reply)" using sent_net_get by blast
  then show ?thesis using append_reply by (intro exI [of _ "EvAppendReply k r"]) simp
next
  case (client i c rf' index tm isLeader ps)
  then show ?thesis by (intro exI [of _ "EvClient i c"]) simp
next
  case (apply_round i)
  then show ?thesis by (intro exI [of _ "EvApply i"]) simp
next
  case (kill i)
  then show ?thesis by (intro exI [of _ "EvKill i"]) simp
qed

lemma run_events_reach:
  "cluster_reach cfg s \<Longrightarrow> run_events cfg es s = Some t \<Longrightarrow> cluster_reach cfg t"
  by (induction es arbitrary: s)
    (auto split: option.splits dest: cluster_exec_sound intro: reach.reach_step)

section \<open>A three-node run\<close>

definition demo_cfg :: ClusterConfig where
  "demo_cfg = \<lparr>cc_Nodes = [\<lparr>nc_ID = 0, nc_ClientAddr = ''A'', nc_PeerAddr = ''a''\<rparr>,
     \<lparr>nc_ID = 1, nc_ClientAddr = ''B'', nc_PeerAddr = ''b''\<rparr>,
     \<lparr>nc_ID = 2, nc_ClientAddr = ''C'', nc_PeerAddr = ''c''\<rparr>]\<rparr>"

definition demo_init :: Cluster where
  "demo_init = init_cluster (\<lambda>_. 0) demo_cfg"

definition demo_events :: "event list" where
  "demo_events = [EvTimeout 0 0, EvRecvVote 0 1 0 0, EvVoteReply 1 0, EvClient 0 ''x'', EvSend 0 1,
     EvRecvAppend 2 0, EvAppendReply 3 0, EvSend 0 1, EvRecvAppend 4 0, EvApply 0, EvApply 0, EvApply 0,
     EvApply 1, EvApply 1, EvApply 1]"

definition demo_state :: Cluster where
  "demo_state = (case run_events demo_cfg demo_events demo_init of Some s \<Rightarrow> s | None \<Rightarrow> demo_init)"

lemma demo_reach: "cluster_reach demo_cfg demo_state"
proof -
  have "cluster_start demo_cfg demo_init"
    unfolding cluster_start_def demo_init_def by (auto simp: wf_cfg_def demo_cfg_def upt_rec)
  then have "cluster_reach demo_cfg demo_init" by (rule reach.reach_start)
  then show ?thesis
    using run_events_reach [of demo_cfg demo_init] by (auto simp: demo_state_def split: option.split)
qed


lemma demo_leader: "node_state demo_state 0 = Leader"
  by code_simp

lemma demo_commit: "node_commit demo_state 0 = 2 \<and> node_commit demo_state 1 = 2"
  by code_simp

lemma demo_applied:
  "map am_Command (rf_commitCh (cl_nodes demo_state 0)) = [''noop'']"
  "map am_Command (rf_commitCh (cl_nodes demo_state 1)) = [''noop'']"
  by code_simp+


section \<open>The same run with a change of leader\<close>

text \<open>Node 1 times out, node 2 votes for it, and node 1 leads term 2 with the committed entries.\<close>

definition handover_events :: "event list" where
  "handover_events = [EvTimeout 1 0, EvRecvVote 6 2 0 0, EvVoteReply 7 0]"

definition handover_state :: Cluster where
  "handover_state = (case run_events demo_cfg handover_events demo_state of
     Some s \<Rightarrow> s | None \<Rightarrow> demo_state)"

lemma handover_reach: "cluster_reach demo_cfg handover_state"
  using run_events_reach [OF demo_reach] demo_reach by (simp add: handover_state_def split: option.split)

lemma handover_facts:
  "node_state handover_state 1 = Leader" "node_term handover_state 1 = 2" "node_term handover_state 0 = 1"
  "node_state handover_state 0 = Leader" "node_commit handover_state 0 = 2"
  "map le_Command (node_log handover_state 1) = [''noop'', ''x'', ''noop'']"
  by code_simp+

lemma demo_ids: "node_ids demo_cfg = {0, 1, 2}"
  by code_simp


section \<open>The same run with one more command\<close>

text \<open>Node 0 accepts command \<open>c\<close>, replicates it to node 1, commits it and applies it at index 3.\<close>

definition proposed_state :: "string \<Rightarrow> Cluster" where
  "proposed_state c = (case cluster_exec demo_cfg (EvClient 0 c) demo_state of Some s \<Rightarrow> s | None \<Rightarrow> demo_state)"

definition served_events :: "event list" where
  "served_events = [EvSend 0 1, EvRecvAppend 6 0, EvAppendReply 7 0, EvApply 0, EvApply 0, EvApply 0, EvApply 0]"

definition served_state :: "string \<Rightarrow> Cluster" where
  "served_state c = (case run_events demo_cfg served_events (proposed_state c) of Some s \<Rightarrow> s | None \<Rightarrow> proposed_state c)"

lemma served_facts:
  "\<lparr>am_Index = 3, am_Term = 1, am_Command = c\<rparr> \<in> set (rf_commitCh (cl_nodes (served_state c) 0))"
  by code_simp

end
