(* ===== verification/Raft_Electability.thy ===== *)
theory Raft_Electability
  imports Raft_Apply Raft_Trace
begin

text \<open>
  Whatever has happened before, the nodes of any majority that have not been killed can, by
  steps of their own, elect a leader among them. The relation \<open>among\<close> is the steps of the
  cluster that a given set of nodes makes; a candidate first brings the others into its
  term, and in the next term the node with the best log collects their votes.
\<close>

section \<open>Steps of a set of nodes\<close>

text \<open>
  The node that makes the step of an event; none for a client's command, which comes from
  outside, and for \<open>Kill\<close>.
\<close>

fun event_node :: "Cluster \<Rightarrow> event \<Rightarrow> int option" where
  "event_node s (EvTimeout i r) = Some i"
| "event_node s (EvRecvVote k v r1 r2) = Some v"
| "event_node s (EvVoteReply k r) =
     (case net_get s k of Some (MVoteReply c t v reply) \<Rightarrow> Some c | _ \<Rightarrow> None)"
| "event_node s (EvVoteLost c t v) = Some c"
| "event_node s (EvSend i p) = Some i"
| "event_node s (EvRecvAppend k r) = (case net_get s k of Some (MAppend i p args) \<Rightarrow> Some p | _ \<Rightarrow> None)"
| "event_node s (EvAppendReply k r) =
     (case net_get s k of Some (MAppendReply i p args reply) \<Rightarrow> Some i | _ \<Rightarrow> None)"
| "event_node s (EvClient i c) = None"
| "event_node s (EvApply i) = Some i"
| "event_node s (EvKill i) = None"

definition among :: "ClusterConfig \<Rightarrow> int set \<Rightarrow> Cluster \<Rightarrow> Cluster \<Rightarrow> bool" where
  "among cfg A s t \<longleftrightarrow> (\<exists>e i. cluster_exec cfg e s = Some t \<and> event_node s e = Some i \<and> i \<in> A)"

lemma amongI: "cluster_exec cfg e s = Some t \<Longrightarrow> event_node s e = Some i \<Longrightarrow> i \<in> A \<Longrightarrow> among cfg A s t"
  by (auto simp: among_def)

lemma among_timeout:
  "i \<in> A \<Longrightarrow> i \<in> node_ids cfg \<Longrightarrow> startElection r (fire_timer (cl_nodes s i)) = Inr (rf', Some (args, ps)) \<Longrightarrow>
    among cfg A s (post (MRequestVote i args)
      (begin_election i args ps (note_vote True (rv_Term args) i (set_node i rf' s))))"
  by (rule amongI [of _ "EvTimeout i r"]) auto

lemma among_recv_vote:
  assumes "MRequestVote c args \<in> sent s" and "v \<in> A" and "v \<in> node_ids cfg" and "v \<noteq> c"
    and "RequestVote r1 r2 args (cl_nodes s v) = Inr (rf', reply)"
  shows "among cfg A s (post (MVoteReply c (rv_Term args) v reply)
      (note_vote (rvr_VoteGranted reply) (rv_Term args) v (set_node v rf' s)))"
proof -
  obtain k where "net_get s k = Some (MRequestVote c args)" using sent_net_get [OF assms(1)] ..
  then show ?thesis using assms by (intro amongI [of _ "EvRecvVote k v r1 r2"]) auto
qed

lemma among_vote_reply:
  assumes "MVoteReply c t v reply \<in> sent s" and "c \<in> A" and "(c, t, v) \<in> set (cl_waiting s)"
    and "voteReply r t reply (cl_votes s c t) (cl_nodes s c) = Inr (rf', votes', won)"
  shows "among cfg A s (end_wait c t v votes' (note_leader won c (set_node c rf' s)))"
proof -
  obtain k where "net_get s k = Some (MVoteReply c t v reply)" using sent_net_get [OF assms(1)] ..
  then show ?thesis using assms by (intro amongI [of _ "EvVoteReply k r"]) auto
qed

lemma among_send:
  "i \<in> A \<Longrightarrow> i \<in> node_ids cfg \<Longrightarrow> p \<in> node_ids cfg \<Longrightarrow> p \<noteq> i \<Longrightarrow>
    sendAppendEntries_send p (cl_nodes s i) = Inr (Some args) \<Longrightarrow> among cfg A s (post (MAppend i p args) s)"
  by (rule amongI [of _ "EvSend i p"]) auto

lemma among_recv_append:
  assumes "MAppend i p args \<in> sent s" and "p \<in> A"
    and "AppendEntries r args (cl_nodes s p) = Inr (rf', reply)"
  shows "among cfg A s (post (MAppendReply i p args reply) (set_node p rf' s))"
proof -
  obtain k where "net_get s k = Some (MAppend i p args)" using sent_net_get [OF assms(1)] ..
  then show ?thesis using assms by (intro amongI [of _ "EvRecvAppend k r"]) auto
qed

lemma among_append_reply:
  assumes "MAppendReply i p args reply \<in> sent s" and "i \<in> A"
    and "sendAppendEntries_recv r p args reply (cl_nodes s i) = Inr (rf', again)"
  shows "among cfg A s (set_node i rf' s)"
proof -
  obtain k where "net_get s k = Some (MAppendReply i p args reply)" using sent_net_get [OF assms(1)] ..
  then show ?thesis using assms by (intro amongI [of _ "EvAppendReply k r"]) auto
qed

lemma among_apply: "i \<in> A \<Longrightarrow> i \<in> node_ids cfg \<Longrightarrow> among cfg A s (set_node i (applyLoop (cl_nodes s i)) s)"
  by (rule amongI [of _ "EvApply i"]) auto

lemma among_cluster_step: "among cfg A s t \<Longrightarrow> cluster_step cfg s t"
  by (auto simp: among_def dest: cluster_exec_sound)

lemma among_reach: "(among cfg A)\<^sup>*\<^sup>* s t \<Longrightarrow> cluster_reach cfg s \<Longrightarrow> cluster_reach cfg t"
  by (induction rule: rtranclp_induct) (auto intro: reach.reach_step among_cluster_step)

text \<open>These steps kill nobody and lower no commit index.\<close>

lemma handler_dead:
  "startElection r rf = Inr (rf', out) \<Longrightarrow> rf_dead rf' = rf_dead rf"
  "RequestVote r r2 req rf = Inr (rf', reply) \<Longrightarrow> rf_dead rf' = rf_dead rf"
  "AppendEntries r args rf = Inr (rf', areply) \<Longrightarrow> rf_dead rf' = rf_dead rf"
  by (auto simp: startElection_def RequestVote_def AppendEntries_def Let_def go_bind_Inr_iff split: if_splits)

lemma becomeLeader_dead: "becomeLeader rf = Inr rf' \<Longrightarrow> rf_dead rf' = rf_dead rf"
  by (auto simp: becomeLeader_def Let_def go_bind_Inr_iff split: if_splits)

lemma voteReply_dead: "voteReply r tm reply n rf = Inr (rf', n', won) \<Longrightarrow> rf_dead rf' = rf_dead rf"
  by (auto simp: voteReply_def go_bind_Inr_iff dest: becomeLeader_dead split: if_splits)

lemma advance_from_dead: "advance_from n rf = Inr rf' \<Longrightarrow> rf_dead rf' = rf_dead rf"
proof (induction n rf rule: advance_from.induct)
  case (1 n rf)
  obtain e ok where at: "log_At (rf_log rf) n = (e, ok)" by fastforce
  from 1(3) show ?case
    using 1(1) [OF _ at [symmetric]] 1(2) [OF _ at [symmetric]]
    by (subst (asm) advance_from.simps) (auto simp: at split: if_splits sum.splits)
qed

lemma recv_dead: "sendAppendEntries_recv r p args reply rf = Inr (rf', again) \<Longrightarrow> rf_dead rf' = rf_dead rf"
  by (auto simp: sendAppendEntries_recv_def Let_def go_bind_Inr_iff advanceCommitIndex_def
      dest!: advance_from_dead split: if_splits)

lemma among_dead_step: "among cfg A s t \<Longrightarrow> rf_dead (cl_nodes t j) = rf_dead (cl_nodes s j)"
  unfolding among_def
  by (elim exE conjE, rename_tac e i, case_tac e)
    (auto simp: fun_upd_def dest!: handler_dead voteReply_dead recv_dead
      split: if_splits option.splits sum.splits prod.splits msg.splits)

lemma among_dead: "(among cfg A)\<^sup>*\<^sup>* s t \<Longrightarrow> rf_dead (cl_nodes t j) = rf_dead (cl_nodes s j)"
  by (induction rule: rtranclp_induct) (simp_all add: among_dead_step)

lemma among_commit:
  assumes "(among cfg A)\<^sup>*\<^sup>* s t" and "cluster_reach cfg s" and "j \<in> node_ids cfg"
  shows "node_commit s j \<le> node_commit t j"
  using assms(1)
proof (induction rule: rtranclp_induct)
  case (step t u)
  have t: "cluster_reach cfg t" using among_reach [OF step.hyps(1) assms(2)] .
  note tu = among_cluster_step [OF step.hyps(2)]
  from step_committed(1) [OF reach_invs(9) [OF t] tu reach_invs(9) [OF reach.reach_step [OF t tu]] assms(3)]
  show ?case using step.IH by simp
qed simp

section \<open>Elections\<close>

text \<open>Node \<open>i\<close> stands in its current term with its current log.\<close>

definition standing :: "Cluster \<Rightarrow> int \<Rightarrow> RequestVoteArgs \<Rightarrow> bool" where
  "standing s i args \<longleftrightarrow> node_state s i = Candidate \<and> MRequestVote i args \<in> sent s \<and>
     rv_Term args = node_term s i \<and> rv_LastLogIndex args = int (length (node_log s i)) \<and>
     rv_LastLogTerm args = last_term (node_log s i)"

lemma stand:
  assumes s: "cluster_reach cfg s" and i: "i \<in> A" "i \<in> node_ids cfg"
    and st: "node_state s i \<noteq> Leader" and alive: "\<not> rf_dead (cl_nodes s i)"
  obtains t args where "among cfg A s t" "standing t i args" "node_term t i = node_term s i + 1"
    "node_log t i = node_log s i" "cl_votes t i (node_term t i) = 1"
    "\<forall>p. p \<in> node_ids cfg \<longrightarrow> p \<noteq> i \<longrightarrow> (i, node_term t i, p) \<in> set (cl_waiting t)"
    "\<forall>j. j \<noteq> i \<longrightarrow> cl_nodes t j = cl_nodes s j"
proof -
  note node = reach_node [OF s i(2)]
  have "\<exists>rf' args ps. startElection 0 (fire_timer (cl_nodes s i)) = Inr (rf', Some (args, ps))"
    using st alive node(2) by (auto simp: startElection_def Let_def log_LastTerm_last_term)
  then obtain rf' args ps where e: "startElection 0 (fire_timer (cl_nodes s i)) = Inr (rf', Some (args, ps))" by blast
  note eff = node_ok_startElection [OF node(1) i(2) e]
  let ?t = "post (MRequestVote i args) (begin_election i args ps (note_vote True (rv_Term args) i (set_node i rf' s)))"
  have log: "rf_log rf' = rf_log (cl_nodes s i)" using eff by (simp add: same_data_def)
  show thesis
    by (rule that [of ?t args, OF among_timeout [OF i e]]) (use eff log in \<open>auto simp: standing_def\<close>)
qed

text \<open>
  A request for votes makes every node of an older term a follower of the new term; it
  grants its vote when the candidate's log is at least as up to date as its own.
\<close>

lemma solicit:
  assumes s: "cluster_reach cfg s" and st: "standing s i args" and i: "i \<in> node_ids cfg"
    and v: "v \<in> A" "v \<in> node_ids cfg" "v \<noteq> i" "node_term s v < node_term s i"
  obtains t reply where "among cfg A s t" "node_term t v = node_term s i" "node_state t v = Follower"
    "node_log t v = node_log s v" "\<forall>j. j \<noteq> v \<longrightarrow> cl_nodes t j = cl_nodes s j" "sent s \<subseteq> sent t"
    "cl_waiting t = cl_waiting s" "cl_votes t = cl_votes s"
    "MVoteReply i (node_term s i) v reply \<in> sent t" "rvr_Term reply = node_term s i"
    "up_to_date (int (length (node_log s i))) (last_term (node_log s i)) (node_log s v) \<Longrightarrow> rvr_VoteGranted reply"
proof -
  note node = reach_node [OF s v(2)]
  have m: "MRequestVote i args \<in> sent s" and args: "rv_Term args = node_term s i"
      "rv_LastLogIndex args = int (length (node_log s i))" "rv_LastLogTerm args = last_term (node_log s i)"
    using st by (simp_all add: standing_def)
  obtain rf' reply where rv: "RequestVote 0 0 args (cl_nodes s v) = Inr (rf', reply)"
    using RequestVote_total [OF node(2)] by blast
  note eff = RequestVote_effect [OF rv node(2)] RequestVote_state [OF rv node(2)]
  have grant: "rvr_VoteGranted reply"
    if "up_to_date (int (length (node_log s i))) (last_term (node_log s i)) (node_log s v)"
    using rv that v(4) args node(2)
    by (auto simp: RequestVote_def Let_def log_LastTerm_last_term up_to_date_def lg.last_index_els split: if_splits)
  let ?t = "post (MVoteReply i (rv_Term args) v reply)
      (note_vote (rvr_VoteGranted reply) (rv_Term args) v (set_node v rf' s))"
  show thesis
    by (rule that [of ?t reply, OF among_recv_vote [OF m v(1-3) rv]])
      (use eff args v grant in \<open>auto simp: same_data_def\<close>)
qed

text \<open>A candidate brings the other nodes into its term.\<close>

lemma bring_along:
  assumes "cluster_reach cfg s" and "standing s i args" and "i \<in> node_ids cfg"
    and "distinct vs" and "set vs \<subseteq> A" and "A \<subseteq> node_ids cfg" and "i \<notin> set vs"
    and "\<And>v. v \<in> set vs \<Longrightarrow> node_term s v < node_term s i"
  shows "\<exists>t. (among cfg A)\<^sup>*\<^sup>* s t \<and> (\<forall>v \<in> set vs. node_term t v = node_term s i \<and> node_state t v = Follower) \<and>
    (\<forall>j. node_log t j = node_log s j) \<and> (\<forall>j. j \<notin> set vs \<longrightarrow> cl_nodes t j = cl_nodes s j)"
  using assms
proof (induction vs arbitrary: s)
  case Nil
  then show ?case by (intro exI [of _ s]) simp
next
  case (Cons v vs)
  have v: "v \<in> A" "v \<in> node_ids cfg" "v \<noteq> i" "node_term s v < node_term s i" using Cons.prems by auto
  obtain t where t: "among cfg A s t" "node_term t v = node_term s i" "node_state t v = Follower"
      "node_log t v = node_log s v" "\<forall>j. j \<noteq> v \<longrightarrow> cl_nodes t j = cl_nodes s j" "sent s \<subseteq> sent t"
    by (rule solicit [OF Cons.prems(1-3) v]) blast
  have "cluster_reach cfg t" by (rule reach.reach_step [OF Cons.prems(1) among_cluster_step [OF t(1)]])
  moreover have "standing t i args" using Cons.prems(2) t(5) [rule_format, of i] t(6) v(3) by (auto simp: standing_def)
  moreover have "node_term t w < node_term t i" if "w \<in> set vs" for w
    using that Cons.prems(4) Cons.prems(8) [of w] t(5) v(3) by (cases "w = v") simp_all
  ultimately obtain u where u: "(among cfg A)\<^sup>*\<^sup>* t u"
      "\<forall>w \<in> set vs. node_term u w = node_term t i \<and> node_state u w = Follower"
      "\<forall>j. node_log u j = node_log t j" "\<forall>j. j \<notin> set vs \<longrightarrow> cl_nodes u j = cl_nodes t j"
    using Cons.IH [of t] Cons.prems by auto
  have "node_log t j = node_log s j" for j using t(4) t(5) [rule_format, of j] by (cases "j = v") auto
  then show ?case
    using u t v Cons.prems(4) by (intro exI [of _ u]) (auto intro: converse_rtranclp_into_rtranclp)
qed

text \<open>
  A candidate whose log is at least as up to date as those of enough voters of older
  terms collects their votes until it leads.
\<close>

lemma collect_votes:
  assumes "cluster_reach cfg s" and "standing s i args" and "i \<in> A" and "A \<subseteq> node_ids cfg"
    and "distinct vs" and "set vs \<subseteq> A" and "i \<notin> set vs"
    and "\<And>v. v \<in> set vs \<Longrightarrow> node_term s v < node_term s i \<and> (i, node_term s i, v) \<in> set (cl_waiting s) \<and>
      up_to_date (int (length (node_log s i))) (last_term (node_log s i)) (node_log s v)"
    and "quorum (cl_nodes s i) \<le> cl_votes s i (node_term s i) + int (length vs)"
    and "cl_votes s i (node_term s i) < quorum (cl_nodes s i)"
  shows "\<exists>t. (among cfg A)\<^sup>*\<^sup>* s t \<and> node_state t i = Leader \<and> node_term t i = node_term s i \<and>
    (\<forall>j. j \<noteq> i \<longrightarrow> node_term t j \<le> max (node_term s j) (node_term s i))"
  using assms
proof (induction vs arbitrary: s)
  case Nil
  then show ?case by simp
next
  case (Cons v vs)
  let ?T = "node_term s i"
  have v: "v \<in> A" "v \<in> node_ids cfg" "v \<noteq> i" "node_term s v < ?T" and i: "i \<in> node_ids cfg"
      and w: "(i, ?T, v) \<in> set (cl_waiting s)"
      and up: "up_to_date (int (length (node_log s i))) (last_term (node_log s i)) (node_log s v)"
    using Cons.prems by auto
  obtain t reply where t: "among cfg A s t" "node_term t v = ?T" "node_state t v = Follower"
      "node_log t v = node_log s v" "\<forall>j. j \<noteq> v \<longrightarrow> cl_nodes t j = cl_nodes s j" "sent s \<subseteq> sent t"
      "cl_waiting t = cl_waiting s" "cl_votes t = cl_votes s"
      "MVoteReply i ?T v reply \<in> sent t" "rvr_Term reply = ?T" "rvr_VoteGranted reply"
    by (rule solicit [OF Cons.prems(1,2) i v]) (use up in blast)
  have rt: "cluster_reach cfg t" by (rule reach.reach_step [OF Cons.prems(1) among_cluster_step [OF t(1)]])
  have ni: "cl_nodes t i = cl_nodes s i" using t(5) v(3) by simp
  have cand: "node_state s i = Candidate" using Cons.prems(2) by (simp add: standing_def)
  have "log_wf (rf_log (cl_nodes t i))" "length (rf_matchIndex (cl_nodes t i)) = length (rf_nextIndex (cl_nodes t i))"
    using reach_node(1) [OF rt i] by (simp_all add: node_ok_def)
  from voteReply_total [OF this] obtain rf' votes' won where
    vr: "voteReply 0 ?T reply (cl_votes t i ?T) (cl_nodes t i) = Inr (rf', votes', won)" by blast
  let ?u = "end_wait i ?T v votes' (note_leader won i (set_node i rf' t))"
  have tu: "among cfg A t ?u" using w t(7) by (intro among_vote_reply [OF t(9) Cons.prems(3) _ vr]) simp
  then have su: "(among cfg A)\<^sup>*\<^sup>* s ?u" using t(1) by (meson r_into_rtranclp rtranclp.rtrancl_into_rtrancl)
  have ru: "cluster_reach cfg ?u" by (rule among_reach [OF su Cons.prems(1)])
  show ?case
  proof (cases "cl_votes s i ?T + 1 \<ge> quorum (cl_nodes s i)")
    case True
    then have "becomeLeader (cl_nodes s i) = Inr rf'"
      using vr t(8,10,11) cand ni by (auto simp: voteReply_def go_bind_Inr_iff)
    then have "rf_state rf' = Leader" "rf_currentTerm rf' = ?T"
      using becomeLeader_effect [of "cl_nodes s i"] reach_node(1,2) [OF Cons.prems(1) i] by (auto simp: node_ok_def)
    moreover have "node_term ?u j \<le> max (node_term s j) ?T" if "j \<noteq> i" for j
      using that t(2) t(5) [rule_format, of j] by (cases "j = v") auto
    ultimately show ?thesis using su by (intro exI [of _ ?u]) auto
  next
    case False
    then have rf': "rf' = cl_nodes s i" "votes' = cl_votes s i ?T + 1" "\<not> won"
      using vr t(8,10,11) cand ni by (auto simp: voteReply_def)
    have uv: "node_term ?u v = ?T" "cl_nodes ?u i = cl_nodes s i" "\<And>j. j \<noteq> v \<Longrightarrow> cl_nodes ?u j = cl_nodes s j"
      using rf' t(2,5) v(3) by (auto simp: fun_upd_def)
    have wait: "(i, ?T, x) \<in> set (cl_waiting ?u)" if "x \<in> set vs" for x
      using that Cons.prems(5,8) t(7) by auto
    have "standing ?u i args" using Cons.prems(2) t(6) uv(2) by (auto simp: standing_def)
    then obtain x where x: "(among cfg A)\<^sup>*\<^sup>* ?u x" "node_state x i = Leader" "node_term x i = ?T"
        "\<forall>j. j \<noteq> i \<longrightarrow> node_term x j \<le> max (node_term ?u j) ?T"
      using Cons.IH [OF ru] Cons.prems(3-10) wait uv False rf' by auto
    have "node_term ?u j \<le> max (node_term s j) ?T" for j using uv by (cases "j = v") auto
    then have "\<forall>j. j \<noteq> i \<longrightarrow> node_term x j \<le> max (node_term s j) ?T" using x(4) by (meson max.cobounded2 max.bounded_iff order_trans)
    then show ?thesis using su x by (intro exI [of _ x]) (auto intro: rtranclp_trans)
  qed
qed

lemma finite_max_ex:
  fixes f :: "'a \<Rightarrow> 'b :: linorder"
  assumes "finite A" and "A \<noteq> {}"
  obtains x where "x \<in> A" "\<And>y. y \<in> A \<Longrightarrow> f y \<le> f x"
proof -
  have "Max (f ` A) \<in> f ` A" using assms by (intro Max_in) simp_all
  then obtain x where "x \<in> A" "Max (f ` A) = f x" by blast
  then show thesis using that Max_ge [of "f ` A"] assms(1) by (metis finite_imageI imageI)
qed

text \<open>Of the logs of some nodes, one is at least as up to date as all of them.\<close>

lemma best_log:
  assumes "finite A" and "A \<noteq> {}"
  obtains i where "i \<in> A"
    "\<And>v. v \<in> A \<Longrightarrow> up_to_date (int (length (L i))) (last_term (L i)) (L v)"
proof -
  obtain m where m: "m \<in> A" "\<And>y. y \<in> A \<Longrightarrow> last_term (L y) \<le> last_term (L m)"
    using finite_max_ex [OF assms, of "\<lambda>y. last_term (L y)"] by blast
  let ?B = "{y \<in> A. last_term (L y) = last_term (L m)}"
  have "finite ?B" "?B \<noteq> {}" using assms m(1) by auto
  then obtain i where "i \<in> ?B" "\<And>y. y \<in> ?B \<Longrightarrow> length (L y) \<le> length (L i)"
    using finite_max_ex [of ?B "\<lambda>y. length (L y)"] by blast
  then show thesis using that [of i] m(2) by (fastforce simp: up_to_date_def)
qed

lemma majority_members: "majority cfg A \<Longrightarrow> A \<subseteq> node_ids cfg \<and> finite A \<and> A \<noteq> {}"
  by (auto simp: majority_def intro: finite_subset)

lemma quorum_node:
  assumes "cluster_reach cfg s" and "i \<in> node_ids cfg"
  shows "quorum (cl_nodes s i) = int (card (node_ids cfg) div 2 + 1)"
  using reach_node(1,3) [OF assms] by (simp add: quorum_def node_ok_def card_node_ids)

text \<open>
  A majority elects a leader: unless one of it already leads a term no lower than all
  others', a node of the highest term brings all into a new one, and in the next term
  the node with the best log gets all votes.
\<close>

lemma elect:
  assumes s: "cluster_reach cfg s" and A: "majority cfg A" and two: "2 \<le> card (node_ids cfg)"
    and alive: "\<And>i. i \<in> A \<Longrightarrow> \<not> rf_dead (cl_nodes s i)"
  obtains t i where "(among cfg A)\<^sup>*\<^sup>* s t" "i \<in> A" "node_state t i = Leader"
    "\<And>j. j \<in> A \<Longrightarrow> node_term t j \<le> node_term t i"
proof -
  note mem = majority_members [OF A]
  obtain j where j: "j \<in> A" "\<And>k. k \<in> A \<Longrightarrow> node_term s k \<le> node_term s j"
    using finite_max_ex [of A "node_term s"] mem by blast
  then have jn: "j \<in> node_ids cfg" using mem by blast
  show thesis
  proof (cases "node_state s j = Leader")
    case True
    then show thesis using that [of s j] j by simp
  next
    case False
    obtain t args where t: "among cfg A s t" "standing t j args" "node_term t j = node_term s j + 1"
        "node_log t j = node_log s j" "\<forall>k. k \<noteq> j \<longrightarrow> cl_nodes t k = cl_nodes s k"
      by (rule stand [OF s j(1) jn False alive [OF j(1)]]) blast
    have rt: "cluster_reach cfg t" by (rule reach.reach_step [OF s among_cluster_step [OF t(1)]])
    obtain vs where vs: "set vs = A - {j}" "distinct vs" using finite_distinct_list [of "A - {j}"] mem by blast
    have "node_term t v < node_term t j" if "v \<in> set vs" for v
      using that vs(1) j(2) [of v] t(3) t(5) [rule_format, of v] by auto
    then obtain u where u: "(among cfg A)\<^sup>*\<^sup>* t u"
        "\<forall>v \<in> set vs. node_term u v = node_term t j \<and> node_state u v = Follower"
        "\<forall>k. node_log u k = node_log t k" "\<forall>k. k \<notin> set vs \<longrightarrow> cl_nodes u k = cl_nodes t k"
      using bring_along [OF rt t(2) jn vs(2), of A] vs(1) mem by auto
    have ru: "cluster_reach cfg u" by (rule among_reach [OF u(1) rt])
    have uj: "cl_nodes u j = cl_nodes t j" using u(4) vs(1) by simp
    have all: "node_term u v = node_term t j \<and> node_state u v \<noteq> Leader" if "v \<in> A" for v
      using that u(2) uj t(2) vs(1) by (cases "v = j") (auto simp: standing_def)
    obtain i where i: "i \<in> A" "\<And>v. v \<in> A \<Longrightarrow>
        up_to_date (int (length (node_log u i))) (last_term (node_log u i)) (node_log u v)"
      using best_log [of A "node_log u"] mem by blast
    then have inn: "i \<in> node_ids cfg" using mem by blast
    have su: "(among cfg A)\<^sup>*\<^sup>* s u" using t(1) u(1) by (rule converse_rtranclp_into_rtranclp)
    have can: "node_state u i \<noteq> Leader" "\<not> rf_dead (cl_nodes u i)"
      using all [OF i(1)] alive [OF i(1)] among_dead [OF su, of i] by simp_all
    obtain x args' where x: "among cfg A u x" "standing x i args'" "node_term x i = node_term u i + 1"
        "node_log x i = node_log u i" "cl_votes x i (node_term x i) = 1"
        "\<forall>p. p \<in> node_ids cfg \<longrightarrow> p \<noteq> i \<longrightarrow> (i, node_term x i, p) \<in> set (cl_waiting x)"
        "\<forall>k. k \<noteq> i \<longrightarrow> cl_nodes x k = cl_nodes u k"
      by (rule stand [OF ru i(1) inn can]) blast
    have rx: "cluster_reach cfg x" by (rule reach.reach_step [OF ru among_cluster_step [OF x(1)]])
    obtain ws where ws: "set ws = A - {i}" "distinct ws" using finite_distinct_list [of "A - {i}"] mem by blast
    have len: "length ws + 1 = card A" using distinct_card [OF ws(2)] ws(1) i(1) mem card_Suc_Diff1 [of A i] by simp
    have votes: "node_term x v < node_term x i \<and> (i, node_term x i, v) \<in> set (cl_waiting x) \<and>
        up_to_date (int (length (node_log x i))) (last_term (node_log x i)) (node_log x v)" if "v \<in> set ws" for v
    proof -
      have v: "v \<in> A" "v \<noteq> i" "v \<in> node_ids cfg" using that ws(1) mem by auto
      then show ?thesis using x(3,4,6) x(7) [rule_format, OF v(2)] i(2) [OF v(1)] all [OF v(1)] all [OF i(1)] by simp
    qed
    have q: "quorum (cl_nodes x i) \<le> cl_votes x i (node_term x i) + int (length ws)"
        "cl_votes x i (node_term x i) < quorum (cl_nodes x i)"
      using quorum_node [OF rx inn] A two len x(5) by (auto simp: majority_def)
    have "set ws \<subseteq> A" "i \<notin> set ws" using ws(1) by auto
    from collect_votes [OF rx x(2) i(1) conjunct1 [OF mem] ws(2) this votes q] obtain y where
      y: "(among cfg A)\<^sup>*\<^sup>* x y" "node_state y i = Leader" "node_term y i = node_term x i"
        "\<forall>k. k \<noteq> i \<longrightarrow> node_term y k \<le> max (node_term x k) (node_term x i)" by blast
    have sy: "(among cfg A)\<^sup>*\<^sup>* s y" using su x(1) y(1) by (meson rtranclp.rtrancl_into_rtrancl rtranclp_trans)
    have "node_term y v \<le> node_term y i" if "v \<in> A" for v
    proof (cases "v = i")
      case False
      then have "node_term x v < node_term x i" using votes that ws(1) by auto
      then show ?thesis using y(3) y(4) [rule_format, OF False] by simp
    qed simp
    then show thesis by (rule that [OF sy i(1) y(2)])
  qed
qed

end
