(* ===== verification/Raft_Replication.thy ===== *)
theory Raft_Replication
  imports Raft_Cluster
begin

text \<open>
  The retry loop of \<open>sendAppendEntries\<close> run to its end against one reachable follower:
  it terminates, and when it does the follower holds the leader's whole log and the
  leader knows it.
\<close>

definition follower_rpc :: "int \<Rightarrow> AppendEntriesArgs \<Rightarrow> Raft \<Rightarrow> Raft \<times> AppendEntriesReply option" where
  "follower_rpc r args f =
     (case AppendEntries r args f of Inl e \<Rightarrow> (f, None) | Inr (f', reply) \<Rightarrow> (f', Some reply))"

text \<open>Equal terms at an index force equal logs below it (log matching, for two logs).\<close>

definition matching_logs :: "LogEntry list \<Rightarrow> LogEntry list \<Rightarrow> bool" where
  "matching_logs F L \<longleftrightarrow> (\<forall>k < length F. k < length L \<longrightarrow> le_Term (F ! k) = le_Term (L ! k) \<longrightarrow>
     take (Suc k) F = take (Suc k) L)"

definition can_replicate :: "ClusterConfig \<Rightarrow> int \<Rightarrow> int \<Rightarrow> Raft \<Rightarrow> Raft \<Rightarrow> bool" where
  "can_replicate cfg i p rf f \<longleftrightarrow> wf_cfg cfg \<and> node_ok cfg i rf \<and> p \<in> node_ids cfg \<and> rf_state rf = Leader \<and>
     rf_nextIndex rf ! nat p \<le> int (length (log_list (rf_log rf))) + 1 \<and>
     rf_commitIndex rf \<le> int (length (log_list (rf_log rf))) \<and> log_wf (rf_log f) \<and>
     rf_currentTerm f \<le> rf_currentTerm rf \<and> matching_logs (log_list (rf_log f)) (log_list (rf_log rf))"

lemma can_replicate_send:
  assumes "can_replicate cfg i p rf f"
  shows "\<exists>args. sendAppendEntries_send p rf = Inr (Some args) \<and> ae_wf args \<and>
    ae_Term args = rf_currentTerm rf \<and> ae_PrevLogIndex args = rf_nextIndex rf ! nat p - 1 \<and>
    ae_prev args \<le> length (log_list (rf_log rf)) \<and>
    map from_pb (ae_Entries args) = drop (ae_prev args) (log_list (rf_log rf)) \<and>
    (0 < ae_prev args \<longrightarrow> ae_PrevLogTerm args = le_Term (log_list (rf_log rf) ! (ae_prev args - 1)))"
proof -
  have c: "log_wf (rf_log rf)" "0 \<le> p" "p < int (length (rf_nextIndex rf))" "rf_state rf = Leader"
      "rf_nextIndex rf ! nat p \<le> int (length (log_list (rf_log rf))) + 1"
    using assms by (auto simp: can_replicate_def node_ok_def node_ids_wf)
  then have "1 \<le> rf_nextIndex rf ! nat p"
    using assms by (auto simp: can_replicate_def node_ok_def)
  from sendAppendEntries_send_effect [OF c(1-3) this c(4)] show ?thesis
    using c(5) by (auto simp: ae_prev_def)
qed

text \<open>One accepted request brings the follower to the leader's log.\<close>

lemma accept_copies:
  assumes can: "can_replicate cfg i p rf f" and args: "ae_wf args" "ae_Term args = rf_currentTerm rf"
      "ae_prev args \<le> length (log_list (rf_log rf))"
      "map from_pb (ae_Entries args) = drop (ae_prev args) (log_list (rf_log rf))"
      "0 < ae_prev args \<Longrightarrow> ae_PrevLogTerm args = le_Term (log_list (rf_log rf) ! (ae_prev args - 1))"
    and prev: "prev_matches args (log_list (rf_log f))"
  shows "\<exists>f' reply. follower_rpc r args f = (f', Some reply) \<and> aer_Success reply \<and>
    aer_Term reply = rf_currentTerm rf \<and> log_wf (rf_log f') \<and> rf_currentTerm f' = rf_currentTerm rf \<and>
    take (length (log_list (rf_log rf))) (log_list (rf_log f')) = log_list (rf_log rf) \<and>
    matching_logs (log_list (rf_log f')) (log_list (rf_log rf))"
proof -
  let ?L = "log_list (rf_log rf)" and ?F = "log_list (rf_log f)" and ?p = "ae_prev args"
  have f: "log_wf (rf_log f)" "rf_currentTerm f \<le> ae_Term args" and mt: "matching_logs ?F ?L"
    using can args(2) by (auto simp: can_replicate_def)
  from AppendEntries_accept [OF f(1) args(1) f(2) prev, of r] obtain f'
    where f': "AppendEntries r args f = Inr (f', \<lparr>aer_Term = ae_Term args, aer_Success = True,
        aer_ConflictIndex = 0, aer_ConflictTerm = 0\<rparr>)" "rf_currentTerm f' = ae_Term args"
      "log_wf (rf_log f')" "log_list (rf_log f') = merge_spec ?p (map from_pb (ae_Entries args)) ?F"
    by blast
  have agree: "take ?p ?F = take ?p ?L"
  proof (cases "?p = 0")
    case False
    then have "?p - 1 < length ?F" "?p - 1 < length ?L" "le_Term (?F ! (?p - 1)) = le_Term (?L ! (?p - 1))"
      using prev args(3,5) by (auto simp: prev_matches_def)
    then have "take (Suc (?p - 1)) ?F = take (Suc (?p - 1)) ?L" using mt by (simp add: matching_logs_def)
    then show ?thesis using False by simp
  qed simp
  have len: "?p + length (map from_pb (ae_Entries args)) = length ?L"
    using args(3) by (simp add: args(4))
  have "take (length ?L) (log_list (rf_log f')) = take (length ?L) ?L \<and>
      (log_list (rf_log f') = ?F \<or> log_list (rf_log f') = take (length ?L) ?L)"
    unfolding f'(4) len [symmetric]
    using prev_matches_le [OF prev] agree len mt
    by (intro merge_spec_agrees) (simp_all add: args(4) matching_logs_def)
  then show ?thesis
    using f'(1-3) mt args(2) by (auto simp: follower_rpc_def matching_logs_def)
qed

lemma reject_keeps:
  assumes can: "can_replicate cfg i p rf f" and args: "ae_wf args" "ae_Term args = rf_currentTerm rf"
    and prev: "\<not> prev_matches args (log_list (rf_log f))"
  shows "\<exists>f' reply. follower_rpc r args f = (f', Some reply) \<and> \<not> aer_Success reply \<and>
    aer_Term reply = rf_currentTerm rf \<and> rf_log f' = rf_log f \<and> rf_currentTerm f' = rf_currentTerm rf"
proof -
  have f: "log_wf (rf_log f)" "rf_currentTerm f \<le> ae_Term args"
    using can args(2) by (auto simp: can_replicate_def)
  from AppendEntries_reject [OF f(1) args(1) f(2) prev, of r] show ?thesis
    using args(2) by (auto simp: follower_rpc_def same_data_def)
qed

text \<open>The work left: entries that may still be committed, then steps back for this peer.\<close>

definition replication_work :: "int \<Rightarrow> Raft \<Rightarrow> nat" where
  "replication_work p rf =
     (let n = length (log_list (rf_log rf))
      in nat (int n - rf_commitIndex rf) * (n + 2) + nat (rf_nextIndex rf ! nat p))"

lemma work_commit:
  assumes "rf_log rf' = rf_log rf" and "rf_commitIndex rf < rf_commitIndex rf'"
    and "rf_commitIndex rf' \<le> int (length (log_list (rf_log rf)))"
    and "rf_nextIndex rf' ! nat p \<le> int (length (log_list (rf_log rf))) + 1"
  shows "replication_work p rf' < replication_work p rf"
proof -
  let ?n = "length (log_list (rf_log rf))"
  have "Suc (nat (int ?n - rf_commitIndex rf')) \<le> nat (int ?n - rf_commitIndex rf)" using assms(2,3) by linarith
  then have "Suc (nat (int ?n - rf_commitIndex rf')) * (?n + 2) \<le> nat (int ?n - rf_commitIndex rf) * (?n + 2)"
    by (rule mult_le_mono1)
  moreover have "nat (rf_nextIndex rf' ! nat p) < ?n + 2" using assms(4) by linarith
  ultimately show ?thesis using assms(1) by (simp add: replication_work_def Let_def)
qed


text \<open>The leader's bookkeeping after an accepted request: done, or a commit and less work.\<close>

lemma success_round:
  assumes can: "can_replicate cfg i p rf f" and args: "ae_wf args" "ae_Term args = rf_currentTerm rf"
      "ae_PrevLogIndex args + int (length (ae_Entries args)) = int (length (log_list (rf_log rf)))"
    and reply: "aer_Success reply" "aer_Term reply = rf_currentTerm rf"
    and f': "log_wf (rf_log f')" "rf_currentTerm f' = rf_currentTerm rf"
      "matching_logs (log_list (rf_log f')) (log_list (rf_log rf))"
  shows "\<exists>rf' again. sendAppendEntries_recv r p args reply rf = Inr (rf', again) \<and> rf_log rf' = rf_log rf \<and>
    rf_state rf' = Leader \<and> rf_currentTerm rf' = rf_currentTerm rf \<and>
    int (length (log_list (rf_log rf))) \<le> rf_matchIndex rf' ! nat p \<and>
    list_all2 (\<le>) (rf_matchIndex rf) (rf_matchIndex rf') \<and> (\<not> again \<longrightarrow> (\<forall>k. \<not> commit_point rf' k)) \<and>
    (again \<longrightarrow> can_replicate cfg i p rf' f' \<and> replication_work p rf' < replication_work p rf)"
proof -
  let ?n = "int (length (log_list (rf_log rf)))"
  let ?rf1 = "record_match (nat p) ?n rf"
  have c: "wf_cfg cfg" "node_ok cfg i rf" "p \<in> node_ids cfg" "rf_state rf = Leader"
      "rf_nextIndex rf ! nat p \<le> ?n + 1" "rf_commitIndex rf \<le> ?n"
    using can by (auto simp: can_replicate_def)
  then have len: "log_wf (rf_log rf)" "0 \<le> p" "p < int (length (rf_matchIndex rf))"
      "length (rf_nextIndex rf) = length (rf_matchIndex rf)"
    by (auto simp: node_ok_def node_ids_wf)
  from node_ok_recv [OF c(1-3) args(1), of r reply] obtain rf' again
    where rcv: "sendAppendEntries_recv r p args reply rf = Inr (rf', again)" "node_ok cfg i rf'" by blast
  have recd: "?n \<le> rf_matchIndex ?rf1 ! nat p" "rf_nextIndex ?rf1 ! nat p \<le> ?n + 1"
    using len c(5) by (auto simp: record_match_def)
  have grows: "list_all2 (\<le>) (rf_matchIndex rf) (rf_matchIndex ?rf1)"
    using len by (auto simp: record_match_def list_all2_conv_all_nth nth_list_update)
  have "(\<exists>m. commit_point ?rf1 m \<and> rf' = applyCond_Signal (?rf1\<lparr>rf_commitIndex := m\<rparr>) \<and> again) \<or>
      rf' = ?rf1 \<and> \<not> again \<and> (\<forall>k. \<not> commit_point ?rf1 k)"
    using sendAppendEntries_recv_success [OF len(1) node_ok_ids [OF c(1,2)] len(2-4)
        eq_refl [OF reply(2)] c(4) args(2) [symmetric] reply(1), of r] rcv(1)
    unfolding Let_def args(3) by auto
  then show ?thesis
  proof (elim disjE exE conjE)
    fix m
    assume m: "commit_point ?rf1 m" "rf' = applyCond_Signal (?rf1\<lparr>rf_commitIndex := m\<rparr>)" "again"
    then have "replication_work p rf' < replication_work p rf"
      using recd by (intro work_commit) (auto simp: commit_point_def)
    then show ?thesis
      using m rcv c f' recd grows by (auto simp: can_replicate_def commit_point_def)
  qed (use rcv(1) recd c(4) grows in auto)
qed

lemma reject_round:
  assumes can: "can_replicate cfg i p rf f" and args: "ae_wf args" "ae_Term args = rf_currentTerm rf"
    and ni: "1 < rf_nextIndex rf ! nat p" and reply: "\<not> aer_Success reply" "aer_Term reply = rf_currentTerm rf"
    and f': "rf_log f' = rf_log f" "rf_currentTerm f' = rf_currentTerm rf"
  shows "\<exists>rf'. sendAppendEntries_recv r p args reply rf = Inr (rf', True) \<and> rf_log rf' = rf_log rf \<and>
    rf_currentTerm rf' = rf_currentTerm rf \<and> rf_matchIndex rf' = rf_matchIndex rf \<and>
    can_replicate cfg i p rf' f' \<and> replication_work p rf' < replication_work p rf"
proof -
  have c: "wf_cfg cfg" "node_ok cfg i rf" "p \<in> node_ids cfg" "rf_state rf = Leader"
    using can by (auto simp: can_replicate_def)
  then have len: "0 \<le> p" "p < int (length (rf_nextIndex rf))" by (auto simp: node_ok_def node_ids_wf)
  let ?rf' = "rf\<lparr>rf_nextIndex := (rf_nextIndex rf)[nat p := rf_nextIndex rf ! nat p - 1]\<rparr>"
  have rcv: "sendAppendEntries_recv r p args reply rf = Inr (?rf', True)"
    using sendAppendEntries_recv_reject [OF len eq_refl [OF reply(2)] c(4) args(2) [symmetric] reply(1), of r] ni
    by simp
  then have "node_ok cfg i ?rf'" using node_ok_recv [OF c(1-3) args(1), of r reply] by auto
  then have "can_replicate cfg i p ?rf' f'" using can f' len by (auto simp: can_replicate_def)
  moreover have "replication_work p ?rf' < replication_work p rf"
    using len ni by (simp add: replication_work_def Let_def)
  ultimately show ?thesis using rcv by auto
qed

lemma replication_ends:
  assumes "can_replicate cfg i p rf f"
  shows "\<exists>fuel rf' f'. fuel \<le> Suc (replication_work p rf) \<and>
    sendAppendEntries fuel r p (follower_rpc r') (rf, f) = Some (Inr (rf', f')) \<and>
    rf_log rf' = rf_log rf \<and> rf_state rf' = Leader \<and> rf_currentTerm rf' = rf_currentTerm rf \<and>
    int (length (log_list (rf_log rf))) \<le> rf_matchIndex rf' ! nat p \<and>
    take (length (log_list (rf_log rf))) (log_list (rf_log f')) = log_list (rf_log rf)"
  using assms
proof (induction "replication_work p rf" arbitrary: rf f rule: less_induct)
  case less
  let ?L = "log_list (rf_log rf)"
  from can_replicate_send [OF less.prems] obtain args where
    args: "sendAppendEntries_send p rf = Inr (Some args)" "ae_wf args" "ae_Term args = rf_currentTerm rf"
      "ae_PrevLogIndex args = rf_nextIndex rf ! nat p - 1" "ae_prev args \<le> length ?L"
      "map from_pb (ae_Entries args) = drop (ae_prev args) ?L"
      "0 < ae_prev args \<longrightarrow> ae_PrevLogTerm args = le_Term (?L ! (ae_prev args - 1))"
    by (elim exE conjE) (rule that)
  have total: "ae_PrevLogIndex args + int (length (ae_Entries args)) = int (length ?L)"
    using args(2,5) arg_cong [OF args(6), of length] by (simp add: ae_wf_def ae_prev_def)
  have next_round: ?case
    if rpc: "follower_rpc r' args f = (f', Some reply)"
      and rcv: "sendAppendEntries_recv r p args reply rf = Inr (rf', True)" "rf_log rf' = rf_log rf"
        "rf_currentTerm rf' = rf_currentTerm rf"
      and can: "can_replicate cfg i p rf' f'" "replication_work p rf' < replication_work p rf" for f' reply rf'
  proof -
    from less.hyps [OF can(2,1)] obtain fuel rf'' f'' where
      fin: "fuel \<le> Suc (replication_work p rf')"
        "sendAppendEntries fuel r p (follower_rpc r') (rf', f') = Some (Inr (rf'', f''))"
        "rf_log rf'' = rf_log rf'" "rf_state rf'' = Leader" "rf_currentTerm rf'' = rf_currentTerm rf'"
        "int (length (log_list (rf_log rf'))) \<le> rf_matchIndex rf'' ! nat p"
        "take (length (log_list (rf_log rf'))) (log_list (rf_log f'')) = log_list (rf_log rf')"
      by blast
    then show ?thesis
      using rpc rcv can(2) args(1) by (intro exI [of _ "Suc fuel"]) (auto simp: args(1))
  qed
  show ?case
  proof (cases "prev_matches args (log_list (rf_log f))")
    case True
    from accept_copies [OF less.prems args(2,3,5,6) _ True, of r'] args(7) obtain f' reply where
      f': "follower_rpc r' args f = (f', Some reply)" "aer_Success reply" "aer_Term reply = rf_currentTerm rf"
        "log_wf (rf_log f')" "rf_currentTerm f' = rf_currentTerm rf"
        "take (length ?L) (log_list (rf_log f')) = ?L" "matching_logs (log_list (rf_log f')) ?L"
      by blast
    from success_round [OF less.prems args(2,3) total f'(2-5,7), of r] obtain rf' again where
      rf': "sendAppendEntries_recv r p args reply rf = Inr (rf', again)" "rf_log rf' = rf_log rf"
        "rf_state rf' = Leader" "rf_currentTerm rf' = rf_currentTerm rf"
        "int (length ?L) \<le> rf_matchIndex rf' ! nat p"
        "again \<longrightarrow> can_replicate cfg i p rf' f' \<and> replication_work p rf' < replication_work p rf"
      by blast
    show ?thesis
    proof (cases again)
      case True
      then show ?thesis using next_round [OF f'(1) _ rf'(2,4)] rf'(1,6) by simp
    next
      case False
      then show ?thesis
        using f' rf' args(1) by (intro exI [of _ "Suc 0"]) auto
    qed
  next
    case False
    from reject_keeps [OF less.prems args(2,3) False, of r'] obtain f' reply where
      f': "follower_rpc r' args f = (f', Some reply)" "\<not> aer_Success reply" "aer_Term reply = rf_currentTerm rf"
        "rf_log f' = rf_log f" "rf_currentTerm f' = rf_currentTerm rf"
      by blast
    have "1 < rf_nextIndex rf ! nat p" using False args(4) by (auto simp: prev_matches_def ae_prev_def)
    from reject_round [OF less.prems args(2,3) this f'(2-5), of r] next_round [OF f'(1)]
    show ?thesis by blast
  qed
qed

end
