(* ===== verification/Raft_Progress.thy ===== *)
theory Raft_Progress
  imports Raft_Electability Raft_Replication
begin

text \<open>
  A leader and its majority make progress by steps of their own: the leader brings its log
  to every member, commits it, has them commit it, and each delivers it to its state
  machine. With the elections of \<^theory_text>\<open>Raft_Electability\<close>, no reachable state of the cluster
  is a dead end.
\<close>

section \<open>Replication\<close>

lemma reach_can_replicate:
  assumes "cluster_reach cfg s" and "i \<in> node_ids cfg" and "p \<in> node_ids cfg"
    and "node_state s i = Leader" and "node_term s p \<le> node_term s i"
  shows "can_replicate cfg i p (cl_nodes s i) (cl_nodes s p)"
proof -
  note inv = reach_invs [OF assms(1)] and node = reach_node [OF assms(1,2)]
  have "0 \<le> p" "p < int (length (rf_nextIndex (cl_nodes s i)))"
    using node(1,3) assms(3) by (auto simp: node_ok_def node_ids_wf)
  then have "rf_nextIndex (cl_nodes s i) ! nat p \<le> int (length (node_log s i)) + 1"
    using match_invD(7) [OF inv(4) assms(2,4)] by simp
  moreover have "matching_logs (node_log s p) (node_log s i)"
    using prefix_ok_agree [OF match_invD(1) [OF inv(4) assms(3)] match_invD(1) [OF inv(4) assms(2)]]
    by (simp add: matching_logs_def)
  ultimately show ?thesis
    using assms node nodes_committedD(2) [OF inv(7) assms(2)] reach_node(2) [OF assms(1,3)]
    by (simp add: can_replicate_def)
qed

text \<open>The leader's side of the states between which one peer is brought up to date.\<close>

definition keeps_leading :: "int \<Rightarrow> int \<Rightarrow> Cluster \<Rightarrow> Cluster \<Rightarrow> bool" where
  "keeps_leading i p s t \<longleftrightarrow> node_state t i = Leader \<and> node_term t i = node_term s i \<and>
     node_log t i = node_log s i \<and> node_term t p = node_term s i \<and>
     list_all2 (\<le>) (rf_matchIndex (cl_nodes s i)) (rf_matchIndex (cl_nodes t i)) \<and>
     (\<forall>j. j \<noteq> i \<longrightarrow> j \<noteq> p \<longrightarrow> cl_nodes t j = cl_nodes s j)"

lemma keeps_leading_trans: "keeps_leading i p s t \<Longrightarrow> keeps_leading i p t u \<Longrightarrow> keeps_leading i p s u"
  using list_all2_trans [of "(\<le>)" "(\<le>)" "(\<le>)" "rf_matchIndex (cl_nodes s i)" "rf_matchIndex (cl_nodes t i)"
      "rf_matchIndex (cl_nodes u i)"]
  by (simp add: keeps_leading_def)

text \<open>The peer holds the leader's log and commits what the leader has committed.\<close>

definition caught_up :: "int \<Rightarrow> int \<Rightarrow> Cluster \<Rightarrow> Cluster \<Rightarrow> bool" where
  "caught_up i p s t \<longleftrightarrow> int (length (node_log s i)) \<le> rf_matchIndex (cl_nodes t i) ! nat p \<and>
     (\<forall>k. \<not> commit_point (cl_nodes t i) k) \<and> node_commit s i \<le> node_commit t p"

lemma accept_commits:
  assumes "AppendEntries r args f = Inr (f', reply)" and "aer_Success reply" and "log_wf (rf_log f)" and "ae_wf args"
    and "ae_LeaderCommit args \<le> int (length (log_list (rf_log f')))"
  shows "ae_LeaderCommit args \<le> rf_commitIndex f'"
proof -
  have le: "rf_currentTerm f \<le> ae_Term args"
    using assms(1,2) AppendEntries_stale [of args f r] by (cases "ae_Term args < rf_currentTerm f") auto
  have prev: "prev_matches args (log_list (rf_log f))"
    using assms(1,2) AppendEntries_reject [OF assms(3,4) le, of r]
    by (cases "prev_matches args (log_list (rf_log f))") auto
  from AppendEntries_accept [OF assms(3,4) le prev, of r] show ?thesis using assms(1,5) by auto
qed

lemma replicate_round:
  assumes s: "cluster_reach cfg s" and A: "A \<subseteq> node_ids cfg" "i \<in> A" "p \<in> A" "p \<noteq> i"
    and lead: "node_state s i = Leader" "node_term s p \<le> node_term s i"
  shows "\<exists>t. (among cfg A)\<^sup>*\<^sup>* s t \<and> keeps_leading i p s t \<and>
    (caught_up i p s t \<or> replication_work p (cl_nodes t i) < replication_work p (cl_nodes s i))"
proof -
  let ?L = "node_log s i" and ?rf = "cl_nodes s i" and ?f = "cl_nodes s p"
  have ids: "i \<in> node_ids cfg" "p \<in> node_ids cfg" using A by auto
  note node = reach_node [OF s ids(1)] and wfp = reach_node(2) [OF s ids(2)]
  note can = reach_can_replicate [OF s ids lead]
  from can_replicate_send [OF can] obtain args where
    args: "sendAppendEntries_send p ?rf = Inr (Some args)" "ae_wf args" "ae_Term args = node_term s i"
      "ae_PrevLogIndex args = rf_nextIndex ?rf ! nat p - 1" "ae_prev args \<le> length ?L"
      "map from_pb (ae_Entries args) = drop (ae_prev args) ?L"
      "0 < ae_prev args \<longrightarrow> ae_PrevLogTerm args = le_Term (?L ! (ae_prev args - 1))"
    by (elim exE conjE) (rule that)
  have total: "ae_PrevLogIndex args + int (length (ae_Entries args)) = int (length ?L)"
    using args(2,5) arg_cong [OF args(6), of length] by (simp add: ae_wf_def ae_prev_def)
  have lc: "ae_LeaderCommit args = node_commit s i"
    using append_send_ok [OF node(3,1) ids(2) args(1)] by simp
  let ?s1 = "post (MAppend i p args) s"
  have s1: "among cfg A s ?s1" using among_send [OF A(2) ids A(4) args(1)] .
  have run: "\<exists>t. (among cfg A)\<^sup>*\<^sup>* s t \<and> cl_nodes t i = rf' \<and> cl_nodes t p = f' \<and>
      (\<forall>j. j \<noteq> i \<longrightarrow> j \<noteq> p \<longrightarrow> cl_nodes t j = cl_nodes s j)"
    if ae: "AppendEntries 0 args ?f = Inr (f', reply)"
      and rcv: "sendAppendEntries_recv 0 p args reply ?rf = Inr (rf', again)" for f' reply rf' again
  proof -
    let ?s2 = "post (MAppendReply i p args reply) (set_node p f' ?s1)"
    have "among cfg A ?s1 ?s2" by (rule among_recv_append) (use A ae in simp_all)
    moreover have "among cfg A ?s2 (set_node i rf' ?s2)" by (rule among_append_reply) (use A rcv in simp_all)
    ultimately have "(among cfg A)\<^sup>*\<^sup>* s (set_node i rf' ?s2)" using s1 by (meson r_into_rtranclp rtranclp.rtrancl_into_rtrancl)
    then show ?thesis using A(4) by (intro exI [of _ "set_node i rf' ?s2"]) (auto simp: fun_upd_def)
  qed
  show ?thesis
  proof (cases "prev_matches args (node_log s p)")
    case True
    from accept_copies [OF can args(2,3,5,6) _ True, of 0] args(7) obtain f' reply where
      f': "follower_rpc 0 args ?f = (f', Some reply)" "aer_Success reply" "aer_Term reply = node_term s i"
        "log_wf (rf_log f')" "rf_currentTerm f' = node_term s i"
        "take (length ?L) (log_list (rf_log f')) = ?L" "matching_logs (log_list (rf_log f')) ?L"
      by blast
    have ae: "AppendEntries 0 args ?f = Inr (f', reply)"
      using f'(1) by (auto simp: follower_rpc_def split: sum.splits prod.splits)
    have "length ?L \<le> length (log_list (rf_log f'))" using f'(6) by (metis length_take min.cobounded1)
    then have commit: "node_commit s i \<le> rf_commitIndex f'"
      using accept_commits [OF ae f'(2) wfp args(2)] nodes_committedD(2) [OF reach_invs(7) [OF s] ids(1)] lc by simp
    from success_round [OF can args(2,3) total f'(2-5,7), of 0] obtain rf' again where
      rf': "sendAppendEntries_recv 0 p args reply ?rf = Inr (rf', again)" "rf_log rf' = rf_log ?rf"
        "rf_state rf' = Leader" "rf_currentTerm rf' = node_term s i"
        "int (length ?L) \<le> rf_matchIndex rf' ! nat p"
        "list_all2 (\<le>) (rf_matchIndex ?rf) (rf_matchIndex rf')" "\<not> again \<longrightarrow> (\<forall>k. \<not> commit_point rf' k)"
        "again \<longrightarrow> replication_work p rf' < replication_work p ?rf"
      by blast
    from run [OF ae rf'(1)] show ?thesis
      using rf' f'(5) commit by (auto simp: keeps_leading_def caught_up_def)
  next
    case False
    from reject_keeps [OF can args(2,3) False, of 0] obtain f' reply where
      f': "follower_rpc 0 args ?f = (f', Some reply)" "\<not> aer_Success reply" "aer_Term reply = node_term s i"
        "rf_log f' = rf_log ?f" "rf_currentTerm f' = node_term s i"
      by blast
    have ae: "AppendEntries 0 args ?f = Inr (f', reply)"
      using f'(1) by (auto simp: follower_rpc_def split: sum.splits prod.splits)
    have "1 < rf_nextIndex ?rf ! nat p" using False args(4) by (auto simp: prev_matches_def ae_prev_def)
    from reject_round [OF can args(2,3) this f'(2-5), of 0] obtain rf' where
      rf': "sendAppendEntries_recv 0 p args reply ?rf = Inr (rf', True)" "rf_log rf' = rf_log ?rf"
        "rf_currentTerm rf' = node_term s i" "rf_matchIndex rf' = rf_matchIndex ?rf"
        "can_replicate cfg i p rf' f'" "replication_work p rf' < replication_work p ?rf" by blast
    then have "rf_state rf' = Leader" by (simp add: can_replicate_def)
    with run [OF ae rf'(1)] show ?thesis
      using rf' f'(5) by (auto simp: keeps_leading_def list.rel_refl)
  qed
qed

text \<open>Rounds are repeated until the peer has caught up.\<close>

lemma replicate_peer:
  assumes "cluster_reach cfg s" and A: "A \<subseteq> node_ids cfg" "i \<in> A" "p \<in> A" "p \<noteq> i"
    and "node_state s i = Leader" and "node_term s p \<le> node_term s i"
  shows "\<exists>t. (among cfg A)\<^sup>*\<^sup>* s t \<and> keeps_leading i p s t \<and> caught_up i p s t"
  using assms(1,6,7)
proof (induction "replication_work p (cl_nodes s i)" arbitrary: s rule: less_induct)
  case less
  from replicate_round [OF less.prems(1) A less.prems(2,3)] obtain t where
    t: "(among cfg A)\<^sup>*\<^sup>* s t" "keeps_leading i p s t"
      "caught_up i p s t \<or> replication_work p (cl_nodes t i) < replication_work p (cl_nodes s i)" by blast
  show ?case
  proof (cases "caught_up i p s t")
    case True
    then show ?thesis using t by blast
  next
    case False
    have rt: "cluster_reach cfg t" by (rule among_reach [OF t(1) less.prems(1)])
    obtain u where u: "(among cfg A)\<^sup>*\<^sup>* t u" "keeps_leading i p t u" "caught_up i p t u"
      using less.hyps [OF _ rt] t(2,3) False by (auto simp: keeps_leading_def)
    have "node_commit s i \<le> node_commit t i" using among_commit [OF t(1) less.prems(1)] A by blast
    then have "caught_up i p s u" using u(3) t(2) by (auto simp: caught_up_def keeps_leading_def)
    then show ?thesis using t(1,2) u(1,2) keeps_leading_trans by (meson rtranclp_trans)
  qed
qed

text \<open>The leader brings a list of peers up to date, one after the other.\<close>

definition still_leads :: "int set \<Rightarrow> int \<Rightarrow> Cluster \<Rightarrow> Cluster \<Rightarrow> bool" where
  "still_leads A i s t \<longleftrightarrow> node_state t i = Leader \<and> node_term t i = node_term s i \<and>
     node_log t i = node_log s i \<and> (\<forall>j \<in> A. node_term t j \<le> node_term t i) \<and>
     list_all2 (\<le>) (rf_matchIndex (cl_nodes s i)) (rf_matchIndex (cl_nodes t i))"

lemma still_leads_trans: "still_leads A i s t \<Longrightarrow> still_leads A i t u \<Longrightarrow> still_leads A i s u"
  using list_all2_trans [of "(\<le>)" "(\<le>)" "(\<le>)" "rf_matchIndex (cl_nodes s i)" "rf_matchIndex (cl_nodes t i)"
      "rf_matchIndex (cl_nodes u i)"]
  by (auto simp: still_leads_def)

lemma keeps_leading_still:
  assumes "keeps_leading i p s t" and "\<And>j. j \<in> A \<Longrightarrow> node_term s j \<le> node_term s i"
  shows "still_leads A i s t"
proof -
  have "node_term t j \<le> node_term t i" if "j \<in> A" for j
    using assms(1) assms(2) [OF that] by (cases "j = i"; cases "j = p") (auto simp: keeps_leading_def)
  then show ?thesis using assms(1) by (simp add: keeps_leading_def still_leads_def)
qed

lemma replicate_all:
  assumes "cluster_reach cfg s" and A: "A \<subseteq> node_ids cfg" "i \<in> A"
    and "node_state s i = Leader" and "\<And>j. j \<in> A \<Longrightarrow> node_term s j \<le> node_term s i"
    and "set ps \<subseteq> A - {i}" and "ps \<noteq> []"
  shows "\<exists>t. (among cfg A)\<^sup>*\<^sup>* s t \<and> still_leads A i s t \<and> (\<forall>k. \<not> commit_point (cl_nodes t i) k) \<and>
    (\<forall>p \<in> set ps. int (length (node_log s i)) \<le> rf_matchIndex (cl_nodes t i) ! nat p \<and>
       node_commit s i \<le> node_commit t p)"
  using assms(1,4-7)
proof (induction ps arbitrary: s)
  case (Cons p ps)
  have p: "p \<in> A" "p \<noteq> i" using Cons.prems(4) by auto
  then have pn: "p \<in> node_ids cfg" "i \<in> node_ids cfg" using A by auto
  obtain t where t: "(among cfg A)\<^sup>*\<^sup>* s t" "keeps_leading i p s t" "caught_up i p s t"
    using replicate_peer [OF Cons.prems(1) A p Cons.prems(2,3)] p(1) by blast
  have rt: "cluster_reach cfg t" by (rule among_reach [OF t(1) Cons.prems(1)])
  have st: "still_leads A i s t" by (rule keeps_leading_still [OF t(2) Cons.prems(3)])
  show ?case
  proof (cases "ps = []")
    case True
    then show ?thesis using t(1,3) st by (auto simp: caught_up_def)
  next
    case False
    obtain u where u: "(among cfg A)\<^sup>*\<^sup>* t u" "still_leads A i t u" "\<forall>k. \<not> commit_point (cl_nodes u i) k"
        "\<forall>q \<in> set ps. int (length (node_log t i)) \<le> rf_matchIndex (cl_nodes u i) ! nat q \<and> node_commit t i \<le> node_commit u q"
      using Cons.IH [OF rt] st Cons.prems(4) False unfolding still_leads_def by auto
    have "nat p < length (rf_matchIndex (cl_nodes t i))"
      using reach_node(1,3) [OF rt pn(2)] pn(1) by (auto simp: node_ok_def node_ids_wf)
    then have "rf_matchIndex (cl_nodes t i) ! nat p \<le> rf_matchIndex (cl_nodes u i) ! nat p"
      using u(2) by (auto simp: still_leads_def dest: list_all2_nthD)
    moreover have "node_commit t p \<le> node_commit u p" by (rule among_commit [OF u(1) rt pn(1)])
    moreover have "node_commit s i \<le> node_commit t i" by (rule among_commit [OF t(1) Cons.prems(1) pn(2)])
    ultimately have "\<forall>q \<in> set (p # ps). int (length (node_log s i)) \<le> rf_matchIndex (cl_nodes u i) ! nat q \<and>
        node_commit s i \<le> node_commit u q"
      using t(3) u(4) st by (auto simp: caught_up_def still_leads_def)
    then show ?thesis using t(1) u(1,3) still_leads_trans [OF st u(2)] by (meson rtranclp_trans)
  qed
qed simp

text \<open>What a majority holds and the leader wrote in its own term is committed.\<close>

lemma replicas_members:
  assumes "node_ok cfg i rf" and "A \<subseteq> node_ids cfg" and "\<And>p. p \<in> A \<Longrightarrow> p \<noteq> i \<Longrightarrow> n \<le> rf_matchIndex rf ! nat p"
  shows "card (A - {i}) \<le> length (replicas n rf (rf_peers rf))"
proof -
  have "A - {i} \<subseteq> nc_ID ` set (replicas n rf (rf_peers rf))"
    using assms by (auto simp: replicas_def node_ok_def node_ids_def)
  then have "card (A - {i}) \<le> card (nc_ID ` set (replicas n rf (rf_peers rf)))" by (intro card_mono) simp_all
  also have "\<dots> \<le> card (set (replicas n rf (rf_peers rf)))" by (rule card_image_le) simp
  also have "\<dots> \<le> length (replicas n rf (rf_peers rf))" by (rule card_length)
  finally show ?thesis .
qed

lemma held_is_committed:
  assumes s: "cluster_reach cfg s" and A: "majority cfg A" and i: "i \<in> A"
    and none: "\<forall>k. \<not> commit_point (cl_nodes s i) k"
    and held: "\<And>p. p \<in> A \<Longrightarrow> p \<noteq> i \<Longrightarrow> int (length (node_log s i)) \<le> rf_matchIndex (cl_nodes s i) ! nat p"
    and own: "node_log s i \<noteq> []" "le_Term (last (node_log s i)) = node_term s i"
  shows "int (length (node_log s i)) \<le> node_commit s i"
proof (rule ccontr)
  let ?n = "length (node_log s i)"
  assume low: "\<not> ?thesis"
  note mem = majority_members [OF A]
  have inn: "i \<in> node_ids cfg" using i mem by blast
  have "card (A - {i}) \<le> length (replicas (int ?n) (cl_nodes s i) (rf_peers (cl_nodes s i)))"
    by (rule replicas_members [OF reach_node(1) [OF s inn] conjunct1 [OF mem] held])
  then have "quorum (cl_nodes s i) \<le> 1 + int (length (replicas (int ?n) (cl_nodes s i) (rf_peers (cl_nodes s i))))"
    using quorum_node [OF s inn] A i mem by (simp add: majority_def)
  moreover have "le_Term (node_log s i ! nat (int ?n - 1)) = node_term s i"
    using own by (simp add: last_conv_nth nat_diff_distrib')
  ultimately have "commit_point (cl_nodes s i) (int ?n)"
    using low own(1) by (simp add: commit_point_def)
  then show False using none by blast
qed

text \<open>A leader that has written in its term gets its whole log committed by all of its majority.\<close>

lemma majority_commits:
  assumes s: "cluster_reach cfg s" and A: "majority cfg A" "2 \<le> card (node_ids cfg)" and i: "i \<in> A"
    and lead: "node_state s i = Leader" "\<And>j. j \<in> A \<Longrightarrow> node_term s j \<le> node_term s i"
    and own: "node_log s i \<noteq> []" "le_Term (last (node_log s i)) = node_term s i"
  obtains t where "(among cfg A)\<^sup>*\<^sup>* s t" "still_leads A i s t"
    "\<And>j. j \<in> A \<Longrightarrow> int (length (node_log s i)) \<le> node_commit t j"
proof -
  note mem = majority_members [OF A(1)]
  obtain ps where ps: "set ps = A - {i}" "distinct ps" using finite_distinct_list [of "A - {i}"] mem by blast
  have "1 \<le> card (node_ids cfg) div 2" using A(2) by linarith
  then have "card A \<noteq> 1" using A(1) by (simp add: majority_def)
  then have "A \<noteq> {i}" by auto
  then have "set ps \<noteq> {}" unfolding ps(1) using i by blast
  then have "ps \<noteq> []" by simp
  with ps(1) have ne: "set ps \<subseteq> A - {i}" "ps \<noteq> []" by blast+
  from replicate_all [OF s conjunct1 [OF mem] i lead ne] obtain t where
    t: "(among cfg A)\<^sup>*\<^sup>* s t" "still_leads A i s t" "\<forall>k. \<not> commit_point (cl_nodes t i) k"
      "\<forall>p \<in> set ps. int (length (node_log s i)) \<le> rf_matchIndex (cl_nodes t i) ! nat p" by blast
  have rt: "cluster_reach cfg t" by (rule among_reach [OF t(1) s])
  have lt: "node_state t i = Leader" "node_term t i = node_term s i" "node_log t i = node_log s i"
    and terms: "\<And>j. j \<in> A \<Longrightarrow> node_term t j \<le> node_term t i" using t(2) by (auto simp: still_leads_def)
  have ci: "int (length (node_log t i)) \<le> node_commit t i"
    by (rule held_is_committed [OF rt A(1) i t(3)]) (use t(4) ps(1) lt own in auto)
  from replicate_all [OF rt conjunct1 [OF mem] i lt(1) terms ne] obtain u where
    u: "(among cfg A)\<^sup>*\<^sup>* t u" "still_leads A i t u" "\<forall>p \<in> set ps. node_commit t i \<le> node_commit u p" by blast
  have "node_commit t i \<le> node_commit u j" if "j \<in> A" for j
    using that u(3) ps(1) among_commit [OF u(1) rt, of i] i mem by (cases "j = i") auto
  then have "int (length (node_log s i)) \<le> node_commit u j" if "j \<in> A" for j
    using that ci lt(3) by fastforce
  then show thesis
    using that [OF _ still_leads_trans [OF t(2) u(2)]] t(1) u(1) by (meson rtranclp_trans)
qed

section \<open>Delivery\<close>

text \<open>The apply goroutine of a node that has not been killed is running.\<close>

lemma Start_dead: "Start c rf = Inr (rf', res, ps) \<Longrightarrow> rf_dead rf' = rf_dead rf"
  by (auto simp: Start_def Let_def go_bind_Inr_iff split: if_splits)

lemma applyLoop_iter_role [simp]:
  "rf_state ((applyLoop ^^ n) rf) = rf_state rf" "rf_currentTerm ((applyLoop ^^ n) rf) = rf_currentTerm rf"
  by (induction n) simp_all

lemma step_dead: "cluster_step cfg s t \<Longrightarrow> rf_dead (cl_nodes t i) = rf_dead (cl_nodes s i) \<or> rf_dead (cl_nodes t i)"
  by (erule cluster_step.cases) (auto simp: Kill_def dest!: handler_dead voteReply_dead recv_dead Start_dead)

definition running_inv :: "ClusterConfig \<Rightarrow> Cluster \<Rightarrow> bool" where
  "running_inv cfg s \<longleftrightarrow> (\<forall>i \<in> node_ids cfg. rf_dead (cl_nodes s i) \<or> apply_running (cl_nodes s i))"

lemma running_inv_step: "cluster_step cfg s t \<Longrightarrow> running_inv cfg s \<Longrightarrow> running_inv cfg t"
  unfolding running_inv_def
proof
  fix i
  assume st: "cluster_step cfg s t" and inv: "\<forall>i \<in> node_ids cfg. rf_dead (cl_nodes s i) \<or> apply_running (cl_nodes s i)"
    and i: "i \<in> node_ids cfg"
  show "rf_dead (cl_nodes t i) \<or> apply_running (cl_nodes t i)"
    using step_apply [OF st, of i] step_dead [OF st, of i] inv [rule_format, OF i]
    by (auto simp: apply_running_def apply_frame_def applyLoop_def apply_park_def Let_def
        split: ApplyPc.splits if_splits prod.splits)
qed

lemma running_inv_start: "cluster_start cfg s \<Longrightarrow> running_inv cfg s"
  by (auto simp: cluster_start_def init_cluster_def running_inv_def apply_running_def)

interpretation runs: invariant_of "cluster_start cfg" "cluster_step cfg" "\<lambda>_. True" "running_inv cfg" for cfg
  by unfold_locales (auto intro: running_inv_start running_inv_step)

lemma apply_rounds: "i \<in> A \<Longrightarrow> i \<in> node_ids cfg \<Longrightarrow> (among cfg A)\<^sup>*\<^sup>* s (set_node i ((applyLoop ^^ n) (cl_nodes s i)) s)"
proof (induction n)
  case (Suc n)
  let ?t = "set_node i ((applyLoop ^^ n) (cl_nodes s i)) s"
  have "among cfg A ?t (set_node i (applyLoop (cl_nodes ?t i)) ?t)" by (rule among_apply [OF Suc.prems])
  from rtranclp.rtrancl_into_rtrancl [OF Suc.IH [OF Suc.prems] this] show ?case by (simp add: set_node_def)
qed simp

definition drained :: "Raft \<Rightarrow> bool" where
  "drained rf \<longleftrightarrow> rf_commitCh rf = map apply_msg (take (nat (rf_commitIndex rf)) (log_list (rf_log rf)))"

lemma drain_all:
  assumes "cluster_reach cfg s" and "set js \<subseteq> A" and "A \<subseteq> node_ids cfg" and "\<And>i. i \<in> A \<Longrightarrow> \<not> rf_dead (cl_nodes s i)"
  shows "\<exists>t. (among cfg A)\<^sup>*\<^sup>* s t \<and> (\<forall>i \<in> set js. drained (cl_nodes t i)) \<and>
    (\<forall>i. i \<notin> set js \<longrightarrow> cl_nodes t i = cl_nodes s i) \<and>
    (\<forall>i. node_log t i = node_log s i \<and> node_commit t i = node_commit s i \<and> node_state t i = node_state s i \<and>
       node_term t i = node_term s i)"
  using assms
proof (induction js arbitrary: s)
  case Nil
  then show ?case by (intro exI [of _ s]) simp
next
  case (Cons i js)
  have i: "i \<in> A" "i \<in> node_ids cfg" using Cons.prems by auto
  have "apply_running (cl_nodes s i)"
    using runs.reach_inv [OF Cons.prems(1)] Cons.prems(4) i by (auto simp: running_inv_def)
  from applyLoop_drains [OF reach_node(4,2) [OF Cons.prems(1) i(2)] this] obtain n where
    n: "drained ((applyLoop ^^ n) (cl_nodes s i))" by (auto simp: drained_def)
  let ?t = "set_node i ((applyLoop ^^ n) (cl_nodes s i)) s"
  have st: "(among cfg A)\<^sup>*\<^sup>* s ?t" by (rule apply_rounds [OF i])
  have rt: "cluster_reach cfg ?t" by (rule among_reach [OF st Cons.prems(1)])
  have "\<not> rf_dead (cl_nodes ?t j)" if "j \<in> A" for j using among_dead [OF st, of j] Cons.prems(4) [OF that] by simp
  then obtain u where u: "(among cfg A)\<^sup>*\<^sup>* ?t u" "\<forall>j \<in> set js. drained (cl_nodes u j)"
      "\<forall>j. j \<notin> set js \<longrightarrow> cl_nodes u j = cl_nodes ?t j"
      "\<forall>j. node_log u j = node_log ?t j \<and> node_commit u j = node_commit ?t j \<and>
         node_state u j = node_state ?t j \<and> node_term u j = node_term ?t j"
    using Cons.IH [OF rt] Cons.prems(2,3) by auto
  have "drained (cl_nodes u i)" using u(2,3) n by (cases "i \<in> set js") auto
  then show ?case using st u by (intro exI [of _ u]) (auto intro: rtranclp_trans)
qed

end
