(* ===== verification/Raft_Theorems.thy ===== *)
theory Raft_Theorems
  imports Raft_Progress
begin

text \<open>
  The theorems about the Raft cluster, over the reachable states of
  \<^theory_text>\<open>Raft_Cluster\<close>: the five safety properties of the protocol, absence of panics, and
  what the apply goroutine delivers. Each follows from the invariants of the earlier
  theories.
\<close>

section \<open>Safety of the protocol\<close>

text \<open>C10 Election safety: in every reachable state of the cluster, two nodes that lead the
  same term are the same node.\<close>

theorem election_safety:
  assumes "cluster_reach cfg s" and "i \<in> node_ids cfg" and "j \<in> node_ids cfg"
    and "node_state s i = Leader" and "node_state s j = Leader" and "node_term s i = node_term s j"
  shows "i = j"
  using leader_invL [OF reach_invs(3) [OF assms(1)] assms(2,4)]
    leader_invL [OF reach_invs(3) [OF assms(1)] assms(3,5)] assms(6)
  by (metis option.inject)

theorem election_safety_witness:
  "cluster_reach demo_cfg handover_state \<and> node_state handover_state 0 = Leader \<and>
   node_state handover_state 1 = Leader \<and> node_term handover_state 0 \<noteq> node_term handover_state 1"
  using election_safety [OF handover_reach, of 0 1] handover_reach
  by (simp add: handover_facts demo_ids)

text \<open>C11 Log matching: in every reachable state, when the logs of two nodes hold an entry of
  the same term at the same index, the logs are identical up to that index.\<close>

theorem log_matching:
  assumes "cluster_reach cfg s" and "i \<in> node_ids cfg" and "j \<in> node_ids cfg"
    and "k < length (node_log s i)" and "k < length (node_log s j)"
    and "le_Term (node_log s i ! k) = le_Term (node_log s j ! k)"
  shows "take (Suc k) (node_log s i) = take (Suc k) (node_log s j)"
  using match_invD(1) [OF reach_invs(4) [OF assms(1)]] assms(2-6) by (intro prefix_ok_agree)

theorem log_matching_witness:
  "take 2 (node_log handover_state 0) = take 2 (node_log handover_state 1) \<and>
   length (node_log handover_state 0) = 2 \<and> length (node_log handover_state 1) = 3"
proof -
  have "length (node_log handover_state 0) = 2" "length (node_log handover_state 1) = 3"
    "le_Term (node_log handover_state 0 ! 1) = le_Term (node_log handover_state 1 ! 1)" by code_simp+
  then show ?thesis
    using log_matching [OF handover_reach, of 0 1 1] by (simp add: demo_ids numeral_2_eq_2)
qed

text \<open>A leader has everything that was committed in its own or an earlier term.\<close>

lemma leader_has_committed:
  assumes "cluster_reach cfg s" and "i \<in> node_ids cfg" and "j \<in> node_ids cfg"
    and "node_state s i = Leader" and "node_term s j \<le> node_term s i"
  shows "take (nat (node_commit s j)) (node_log s i) = take (nat (node_commit s j)) (node_log s j)"
proof (cases "node_commit s j = 0")
  case False
  then have "committed cfg s (node_term s j) (nat (node_commit s j)) (node_log s j)"
    using nodes_committedD(3) [OF reach_invs(7) [OF assms(1)] assms(3)] by simp
  from committed_leader [OF reach_invs(6) [OF assms(1)] this assms(5)] show ?thesis
    using leader_invL [OF reach_invs(3) [OF assms(1)] assms(2,4)]
      match_invD(6) [OF reach_invs(4) [OF assms(1)] assms(2,4)] by simp
qed simp

text \<open>C9 Leader completeness: in every reachable state, a leader's log contains everything
  that any node of the same or an earlier term has committed.\<close>

theorem leader_completeness:
  assumes "cluster_reach cfg s" and "i \<in> node_ids cfg" and "j \<in> node_ids cfg"
    and "node_state s i = Leader" and "node_term s j \<le> node_term s i"
  shows "take (nat (node_commit s j)) (node_log s i) = take (nat (node_commit s j)) (node_log s j)"
  using assms by (rule leader_has_committed)

theorem leader_completeness_witness:
  "take 2 (node_log handover_state 1) = take 2 (node_log handover_state 0)"
  using leader_completeness [OF handover_reach, of 1 0] by (simp add: handover_facts demo_ids)

text \<open>C5 State machine safety: in every reachable state, two nodes that have both committed
  index \<open>n\<close> have identical logs up to \<open>n\<close>.\<close>

theorem state_machine_safety:
  assumes "cluster_reach cfg s" and "i \<in> node_ids cfg" and "j \<in> node_ids cfg"
    and "int n \<le> node_commit s i" and "int n \<le> node_commit s j"
  shows "take n (node_log s i) = take n (node_log s j)"
proof (cases "n = 0")
  case False
  note c = nodes_committedD(3) [OF reach_invs(7) [OF assms(1)]]
  have "take (min (nat (node_commit s i)) (nat (node_commit s j))) (node_log s i) =
      take (min (nat (node_commit s i)) (nat (node_commit s j))) (node_log s j)"
    using committed_agree [OF reach_invs(5,6) [OF assms(1)]] c [OF assms(2)] c [OF assms(3)] assms(4,5) False
    by fastforce
  then show ?thesis using assms(4,5) by (elim take_eq_mono) auto
qed simp

theorem state_machine_safety_witness:
  "node_commit demo_state 0 = 2 \<and> node_commit demo_state 1 = 2 \<and>
   take 2 (node_log demo_state 0) = take 2 (node_log demo_state 1)"
  using state_machine_safety [OF demo_reach, of 0 1 2] demo_commit by (simp add: demo_ids)


section \<open>What the state machines see\<close>

lemma delivered_le: "apply_ok rf \<Longrightarrow> int (delivered rf) \<le> rf_commitIndex rf"
  by (auto simp: delivered_def apply_ok_def split: ApplyPc.splits)

lemma length_commitCh: "apply_ok rf \<Longrightarrow> length (rf_commitCh rf) = delivered rf"
  using delivered_le [of rf] by (auto simp: apply_ok_def)

lemma channel_prefix:
  assumes "cluster_reach cfg s" and "i \<in> node_ids cfg" and "j \<in> node_ids cfg"
    and "length (rf_commitCh (cl_nodes s i)) \<le> length (rf_commitCh (cl_nodes s j))"
  shows "rf_commitCh (cl_nodes s i) =
    take (length (rf_commitCh (cl_nodes s i))) (rf_commitCh (cl_nodes s j))"
proof -
  let ?n = "delivered (cl_nodes s i)" and ?m = "delivered (cl_nodes s j)"
  note inv = reach_invs [OF assms(1)]
  note ok = reach_node(4) [OF assms(1,2)] reach_node(4) [OF assms(1,3)]
  have len: "length (rf_commitCh (cl_nodes s i)) = ?n" "length (rf_commitCh (cl_nodes s j)) = ?m"
    using ok by (simp_all add: length_commitCh)
  then have nm: "?n \<le> ?m" using assms(4) by simp
  have "take ?n (node_log s i) = take ?n (node_log s j)"
  proof (cases "?n = 0")
    case False
    have c: "committed cfg s (node_term s i) (nat (node_commit s i)) (node_log s i)"
      "committed cfg s (node_term s j) (nat (node_commit s j)) (node_log s j)"
      using nodes_committedD(3) [OF inv(7) assms(2)] nodes_committedD(3) [OF inv(7) assms(3)]
        delivered_le [OF ok(1)] delivered_le [OF ok(2)] nm False by auto
    show ?thesis
      using delivered_le [OF ok(1)] delivered_le [OF ok(2)] nm
      by (intro take_eq_mono [OF committed_agree [OF inv(5,6) c]]) auto
  qed simp
  moreover have "rf_commitCh (cl_nodes s i) = map apply_msg (take ?n (node_log s i))"
    "rf_commitCh (cl_nodes s j) = map apply_msg (take ?m (node_log s j))"
    using ok by (simp_all add: apply_ok_def)
  ultimately show ?thesis using len nm by (simp add: take_map min_absorb1)
qed

lemma channels_agree:
  assumes "cluster_reach cfg s" and "i \<in> node_ids cfg" and "j \<in> node_ids cfg"
  shows "length (rf_commitCh (cl_nodes s i)) \<le> length (rf_commitCh (cl_nodes s j)) \<Longrightarrow>
      rf_commitCh (cl_nodes s i) = take (length (rf_commitCh (cl_nodes s i))) (rf_commitCh (cl_nodes s j))"
    and "length (rf_commitCh (cl_nodes s j)) \<le> length (rf_commitCh (cl_nodes s i)) \<Longrightarrow>
      rf_commitCh (cl_nodes s j) = take (length (rf_commitCh (cl_nodes s j))) (rf_commitCh (cl_nodes s i))"
  using channel_prefix [OF assms] channel_prefix [OF assms(1,3,2)] by blast+

text \<open>The sequences of messages that any two nodes have delivered on their commit channels
  agree: the shorter one is a prefix of the longer one.\<close>

lemma replicas_apply_same:
  assumes "cluster_reach cfg s" and "i \<in> node_ids cfg" and "j \<in> node_ids cfg"
    and "length (rf_commitCh (cl_nodes s i)) \<le> length (rf_commitCh (cl_nodes s j))"
  shows "rf_commitCh (cl_nodes s i) =
    take (length (rf_commitCh (cl_nodes s i))) (rf_commitCh (cl_nodes s j))"
  by (rule channel_prefix [OF assms])

text \<open>C12 What a node has delivered is final: a step never lowers its commit index, never
  changes its log below it, and only appends to its commit channel.\<close>

theorem commit_durable:
  assumes "cluster_reach cfg s" and "cluster_step cfg s t" and "i \<in> node_ids cfg"
  shows "node_commit s i \<le> node_commit t i \<and>
    take (nat (node_commit s i)) (node_log t i) = take (nat (node_commit s i)) (node_log s i) \<and>
    (\<exists>ms. rf_commitCh (cl_nodes t i) = rf_commitCh (cl_nodes s i) @ ms)"
proof -
  have "cluster_reach cfg t" using assms(1,2) by (rule reach.reach_step)
  note step = step_committed [OF reach_invs(9) [OF assms(1)] assms(2) reach_invs(9) [OF this] assms(3)]
  have "\<exists>ms. rf_commitCh (cl_nodes t i) = rf_commitCh (cl_nodes s i) @ ms"
    using step_apply [OF assms(2), of i]
    by (auto simp: apply_frame_def applyLoop_def apply_park_def Let_def split: ApplyPc.splits prod.splits)
  then show ?thesis using step by blast
qed

theorem commit_durable_witness:
  "\<exists>t. cluster_step demo_cfg demo_state t \<and> node_commit t 0 = 2 \<and>
     take 2 (node_log t 0) = take 2 (node_log demo_state 0)"
proof -
  let ?t = "set_node 0 (applyLoop (cl_nodes demo_state 0)) demo_state"
  have step: "cluster_step demo_cfg demo_state ?t"
    by (rule cluster_step.apply_round) (simp add: demo_ids)
  show ?thesis
    using commit_durable [OF demo_reach step, of 0] demo_commit step
    by (intro exI [of _ ?t]) (simp add: demo_ids)
qed

text \<open>C13 The apply goroutine delivers exactly the committed log: the channel has received the
  first entries of the log, in order, without gaps and never past \<open>commitIndex\<close>; and it
  waits on the condition variable only when everything committed has been delivered.\<close>

theorem applied_exactly:
  assumes "cluster_reach cfg s" and "i \<in> node_ids cfg"
  shows "rf_lastApplied (cl_nodes s i) \<le> node_commit s i \<and>
    rf_commitCh (cl_nodes s i) = map apply_msg (take (length (rf_commitCh (cl_nodes s i))) (node_log s i)) \<and>
    int (length (rf_commitCh (cl_nodes s i))) \<le> node_commit s i \<and>
    (rf_applyPc (cl_nodes s i) = ApplyParked \<longrightarrow>
       int (length (rf_commitCh (cl_nodes s i))) = node_commit s i)"
proof -
  note ok = reach_node(4) [OF assms]
  have "rf_commitCh (cl_nodes s i) = map apply_msg (take (delivered (cl_nodes s i)) (node_log s i))"
    "rf_lastApplied (cl_nodes s i) \<le> node_commit s i"
    "rf_applyPc (cl_nodes s i) = ApplyParked \<Longrightarrow> int (delivered (cl_nodes s i)) = node_commit s i"
    using ok by (auto simp: apply_ok_def delivered_def)
  then show ?thesis using length_commitCh [OF ok] delivered_le [OF ok] by auto
qed

theorem applied_exactly_witness:
  "rf_commitCh (cl_nodes demo_state 0) = map apply_msg (take 1 (node_log demo_state 0))"
proof -
  have "length (rf_commitCh (cl_nodes demo_state 0)) = 1" by code_simp
  then show ?thesis using applied_exactly [OF demo_reach, of 0] by (simp add: demo_ids)
qed


text \<open>C14 Every committed entry is delivered: run on its own, the apply goroutine of a node that
  has not been killed reaches, within a bounded number of rounds, a state in which the
  channel has received the whole committed prefix of the log.\<close>

theorem applies_everything:
  assumes "cluster_reach cfg s" and "i \<in> node_ids cfg" and "apply_running (cl_nodes s i)"
  shows "\<exists>n \<le> apply_work (cl_nodes s i). rf_commitCh ((applyLoop ^^ n) (cl_nodes s i)) =
    map apply_msg (take (nat (node_commit s i)) (node_log s i))"
  using applyLoop_drains [OF reach_node(4,2) [OF assms(1,2)] assms(3)] .

theorem applies_everything_witness:
  "\<exists>n \<le> 3. map am_Command (rf_commitCh ((applyLoop ^^ n) (cl_nodes demo_state 0))) = [''noop'', ''x'']"
proof -
  have run: "apply_running (cl_nodes demo_state 0)" and w: "apply_work (cl_nodes demo_state 0) = 3"
    and cmd: "map am_Command (map apply_msg (take 2 (node_log demo_state 0))) = [''noop'', ''x'']"
    by code_simp+
  from applies_everything [OF demo_reach _ run] obtain n where "n \<le> 3"
    "rf_commitCh ((applyLoop ^^ n) (cl_nodes demo_state 0)) = map apply_msg (take 2 (node_log demo_state 0))"
    by (auto simp: demo_ids w demo_commit)
  then show ?thesis using cmd by metis
qed

section \<open>What the comments in the source promise\<close>

lemma node_term_sorted:
  assumes minv: "match_inv cfg s" and i: "i \<in> node_ids cfg"
  shows "sorted (map le_Term (node_log s i))"
  unfolding sorted_iff_nth_mono
proof (intro allI impI)
  fix k m
  assume km: "k \<le> m" "m < length (map le_Term (node_log s i))"
  then have m: "m < length (node_log s i)" by simp
  note pre = prefix_okD [OF match_invD(1) [OF minv i] m]
  have "node_log s i ! k = h_tlog s (le_Term (node_log s i ! m)) ! k"
    using take_eq_nth [OF pre, of k] km by simp
  moreover have "k < length (h_tlog s (le_Term (node_log s i ! m)))"
    using prefix_ok_length [OF match_invD(1) [OF minv i] m] km by simp
  ultimately have "le_Term (node_log s i ! k) \<le> le_Term (node_log s i ! m)"
    using match_invD(4) [OF minv] by simp
  then show "map le_Term (node_log s i) ! k \<le> map le_Term (node_log s i) ! m" using km by simp
qed

text \<open>C17 The invariants stated beside the fields of the \<open>Raft\<close> struct: terms never decrease
  along a log and never exceed the current term, the log is the slice of entries
  1, 2, 3, ... after its sentinel, \<open>commitIndex\<close> stays within the log, and at a leader
  every \<open>nextIndex\<close> lies between 1 and one past the end of the log.\<close>

theorem node_invariants:
  assumes "cluster_reach cfg s" and "i \<in> node_ids cfg"
  shows "log_wf (rf_log (cl_nodes s i)) \<and> sorted (map le_Term (node_log s i)) \<and>
    (\<forall>e \<in> set (node_log s i). 1 \<le> le_Term e \<and> le_Term e \<le> node_term s i) \<and>
    0 \<le> node_commit s i \<and> node_commit s i \<le> int (length (node_log s i)) \<and>
    (node_state s i = Leader \<longrightarrow> (\<forall>x \<in> set (rf_nextIndex (cl_nodes s i)).
       1 \<le> x \<and> x \<le> int (length (node_log s i)) + 1))"
proof (intro conjI)
  note inv = reach_invs [OF assms(1)] and node = reach_node [OF assms]
  show "log_wf (rf_log (cl_nodes s i))" by (rule node(2))
  show "sorted (map le_Term (node_log s i))" by (rule node_term_sorted [OF inv(4) assms(2)])
  show "\<forall>e \<in> set (node_log s i). 1 \<le> le_Term e \<and> le_Term e \<le> node_term s i"
    using node(1) by (simp add: node_ok_def)
  show "0 \<le> node_commit s i" "node_commit s i \<le> int (length (node_log s i))"
    using nodes_committedD(1,2) [OF inv(7) assms(2)] .
  show "node_state s i = Leader \<longrightarrow> (\<forall>x \<in> set (rf_nextIndex (cl_nodes s i)).
      1 \<le> x \<and> x \<le> int (length (node_log s i)) + 1)"
    using node(1) match_invD(7) [OF inv(4) assms(2)] by (simp add: node_ok_def)
qed

theorem node_invariants_witness:
  "sorted (map le_Term (node_log handover_state 1)) \<and> length (node_log handover_state 1) = 3"
proof -
  have "length (node_log handover_state 1) = 3" by code_simp
  then show ?thesis using node_invariants [OF handover_reach, of 1] by (simp add: demo_ids)
qed

text \<open>A step never lowers a node's term; within a term a cast vote is never changed, a
  leader never steps down and only appends to its log; a node that enters a new term is
  not its leader.\<close>

lemma term_vote_monotone:
  assumes "cluster_reach cfg s" and "cluster_step cfg s t" and "i \<in> node_ids cfg"
  shows "node_term s i \<le> node_term t i \<and>
    (node_term t i = node_term s i \<and> rf_votedFor (cl_nodes s i) \<noteq> - 1 \<longrightarrow>
       rf_votedFor (cl_nodes t i) = rf_votedFor (cl_nodes s i)) \<and>
    (node_term t i = node_term s i \<and> node_state s i = Leader \<longrightarrow>
       node_state t i = Leader \<and> (\<exists>es. node_log t i = node_log s i @ es)) \<and>
    (node_term s i < node_term t i \<longrightarrow> node_state t i \<noteq> Leader)"
proof -
  note inv = reach_invs [OF assms(1)]
  note ev = step_evolves [OF assms(2) inv(1) assms(3), unfolded raft_evolves_def]
  have t: "cluster_reach cfg t" using assms(1,2) by (rule reach.reach_step)
  have "\<exists>es. node_log t i = node_log s i @ es"
    if "node_term t i = node_term s i" "node_state s i = Leader"
  proof -
    have "node_state t i = Leader" using ev that by auto
    then have "h_tlog t (node_term s i) = node_log t i" "h_tlog s (node_term s i) = node_log s i"
      using match_invD(6) [OF reach_invs(4) [OF t] assms(3)] match_invD(6) [OF inv(4) assms(3) that(2)] that
      by auto
    moreover have "move cfg s t" using assms(2) inv(5) reach_invs(5) [OF t] by (simp add: move_def)
    ultimately show ?thesis using move_ext unfolding tlog_ext_def by metis
  qed
  then show ?thesis using ev by auto
qed

section \<open>No panics\<close>

lemma recv_total:
  assumes wf: "wf_cfg cfg" and ok: "node_ok cfg i rf" and p: "p \<in> node_ids cfg"
  shows "\<exists>x. sendAppendEntries_recv r p args reply rf = Inr x"
proof -
  have lw: "log_wf (rf_log rf)" "0 \<le> p" "p < int (length (rf_matchIndex rf))"
      "length (rf_nextIndex rf) = length (rf_matchIndex rf)"
    using ok p wf by (auto simp: node_ok_def node_ids_wf)
  consider "aer_Term reply > rf_currentTerm rf"
    | "aer_Term reply \<le> rf_currentTerm rf" "rf_state rf \<noteq> Leader \<or> rf_currentTerm rf \<noteq> ae_Term args"
    | "aer_Term reply \<le> rf_currentTerm rf" "rf_state rf = Leader" "rf_currentTerm rf = ae_Term args" "aer_Success reply"
    | "aer_Term reply \<le> rf_currentTerm rf" "rf_state rf = Leader" "rf_currentTerm rf = ae_Term args" "\<not> aer_Success reply"
    by linarith
  then show ?thesis
  proof cases
    case 3
    from sendAppendEntries_recv_success [OF lw(1) node_ok_ids [OF wf ok] lw(2-4) 3, of r]
    show ?thesis by (auto simp: Let_def)
  next
    case 4
    have "p < int (length (rf_nextIndex rf))" using lw(3,4) by simp
    from sendAppendEntries_recv_reject [OF lw(2) this 4, of r] show ?thesis by (rule exI)
  qed (auto simp: sendAppendEntries_recv_other)
qed

text \<open>C16 No code path of a node panics: in every reachable state, an election, a client command,
  a vote request with any arguments, every \<open>AppendEntries\<close> request on the network, any
  vote reply and any reply to \<open>AppendEntries\<close> are handled without an index out of range
  or the log's \<open>Append\<close> panic.\<close>

theorem no_panic:
  assumes "cluster_reach cfg s" and "i \<in> node_ids cfg"
  shows "(\<exists>x. startElection r (cl_nodes s i) = Inr x) \<and> (\<exists>x. Start c (cl_nodes s i) = Inr x) \<and>
    (\<exists>x. RequestVote r1 r2 req (cl_nodes s i) = Inr x) \<and>
    (\<exists>x. voteReply r tm reply n (cl_nodes s i) = Inr x) \<and>
    (\<forall>j args. MAppend j i args \<in> sent s \<longrightarrow> (\<exists>x. AppendEntries r args (cl_nodes s i) = Inr x)) \<and>
    (\<forall>p \<in> node_ids cfg. (\<exists>x. sendAppendEntries_send p (cl_nodes s i) = Inr x) \<and>
       (\<exists>x. sendAppendEntries_recv r p args' reply' (cl_nodes s i) = Inr x))"
proof (intro conjI ballI allI impI)
  note node = reach_node [OF assms]
  show "\<exists>x. startElection r (cl_nodes s i) = Inr x"
    using node(2) by (auto simp: startElection_def Let_def log_LastTerm_last_term)
  show "\<exists>x. Start c (cl_nodes s i) = Inr x" using Start_effect [OF node(2)] by blast
  show "\<exists>x. RequestVote r1 r2 req (cl_nodes s i) = Inr x" using RequestVote_total [OF node(2)] by blast
  show "\<exists>x. voteReply r tm reply n (cl_nodes s i) = Inr x"
    using voteReply_total [OF node(2)] node(1) by (fastforce simp: node_ok_def)
next
  fix j args
  assume "MAppend j i args \<in> sent s"
  then have "ae_wf args"
    using type_inv_msgD [OF reach_invs(1) [OF assms(1)]] by (fastforce simp: msg_ok_def)
  then show "\<exists>x. AppendEntries r args (cl_nodes s i) = Inr x"
    using AppendEntries_accept [OF reach_node(2) [OF assms], of args r]
      AppendEntries_reject [OF reach_node(2) [OF assms], of args r]
      AppendEntries_stale [of args "cl_nodes s i" r] by (meson linorder_not_less)
next
  fix p
  assume p: "p \<in> node_ids cfg"
  note node = reach_node [OF assms]
  show "\<exists>x. sendAppendEntries_recv r p args' reply' (cl_nodes s i) = Inr x"
    by (rule recv_total [OF node(3,1) p])
  have "0 \<le> p" "p < int (length (rf_nextIndex (cl_nodes s i)))"
    using node(1,3) p by (auto simp: node_ok_def node_ids_wf)
  then show "\<exists>x. sendAppendEntries_send p (cl_nodes s i) = Inr x"
    by (simp add: sendAppendEntries_send_def Let_def)
qed

theorem no_panic_witness:
  "\<exists>x. RequestVote 0 0 \<lparr>rv_Term = 7, rv_CandidateId = 99, rv_LastLogIndex = - 4, rv_LastLogTerm = 0\<rparr>
     (cl_nodes demo_state 1) = Inr x"
  using no_panic [OF demo_reach, of 1] by (simp add: demo_ids)


section \<open>Replication makes progress\<close>

text \<open>C15 The retry loop of \<open>sendAppendEntries\<close> ends and does its job: from any reachable
  state, a leader that talks to a peer of no higher term stops within the stated number of
  rounds; the peer then holds the leader's whole log, and the leader has recorded it.\<close>

theorem replication_converges:
  assumes "cluster_reach cfg s" and "i \<in> node_ids cfg" and "p \<in> node_ids cfg"
    and "node_state s i = Leader" and "node_term s p \<le> node_term s i"
  shows "\<exists>fuel rf' f'. fuel \<le> Suc (replication_work p (cl_nodes s i)) \<and>
    sendAppendEntries fuel r p (follower_rpc r') (cl_nodes s i, cl_nodes s p) = Some (Inr (rf', f')) \<and>
    log_list (rf_log rf') = node_log s i \<and> rf_state rf' = Leader \<and>
    take (length (node_log s i)) (log_list (rf_log f')) = node_log s i \<and>
    int (length (node_log s i)) \<le> rf_matchIndex rf' ! nat p"
  using replication_ends [OF reach_can_replicate [OF assms], of r r'] by (elim exE conjE) (intro exI conjI; simp)

theorem replication_converges_witness:
  "node_log handover_state 2 = [] \<and>
   (\<exists>fuel rf' f'. sendAppendEntries fuel 0 2 (follower_rpc 0) (cl_nodes handover_state 1, cl_nodes handover_state 2) =
      Some (Inr (rf', f')) \<and> take 3 (log_list (rf_log f')) = node_log handover_state 1)"
proof -
  have n: "length (node_log handover_state 1) = 3" "node_log handover_state 2 = []"
    "node_term handover_state 2 = 2" by code_simp+
  show ?thesis
    using replication_converges [OF handover_reach, of 1 2 0 0] n(2,3)
    unfolding n(1) handover_facts demo_ids by auto
qed

section \<open>Single handlers\<close>

text \<open>C18 The vote rule: a node grants its vote exactly when the request is not from an older
  term, it has not voted for somebody else in that term, and the candidate's log is at
  least as up to date as its own; a granted vote is recorded, and the reply carries the
  node's term after the call.\<close>

theorem vote_rule:
  assumes "log_wf (rf_log rf)"
  shows "\<exists>rf' reply. RequestVote r1 r2 req rf = Inr (rf', reply) \<and>
    rf_currentTerm rf' = max (rf_currentTerm rf) (rv_Term req) \<and> rvr_Term reply = rf_currentTerm rf' \<and>
    rf_log rf' = rf_log rf \<and> rf_commitIndex rf' = rf_commitIndex rf \<and>
    (rvr_VoteGranted reply \<longleftrightarrow> rf_currentTerm rf \<le> rv_Term req \<and>
       (rf_currentTerm rf < rv_Term req \<or> rf_votedFor rf = - 1 \<or> rf_votedFor rf = rv_CandidateId req) \<and>
       up_to_date (rv_LastLogIndex req) (rv_LastLogTerm req) (log_list (rf_log rf))) \<and>
    (rvr_VoteGranted reply \<longrightarrow> rf_votedFor rf' = rv_CandidateId req)"
  using assms by (auto simp: RequestVote_def Let_def log_LastTerm_last_term up_to_date_def lg.last_index_els)

theorem vote_rule_witness:
  "\<exists>rf' reply. RequestVote 0 0 \<lparr>rv_Term = 5, rv_CandidateId = 2, rv_LastLogIndex = 0, rv_LastLogTerm = 0\<rparr>
     (cl_nodes demo_state 1) = Inr (rf', reply) \<and> \<not> rvr_VoteGranted reply \<and> rf_currentTerm rf' = 5"
proof -
  have wf: "log_wf (rf_log (cl_nodes demo_state 1))" by (rule reach_node(2) [OF demo_reach]) (simp add: demo_ids)
  have "node_term demo_state 1 = 1" "\<not> up_to_date 0 0 (node_log demo_state 1)" by code_simp+
  then show ?thesis
    using vote_rule [OF wf, of 0 0 "\<lparr>rv_Term = 5, rv_CandidateId = 2, rv_LastLogIndex = 0, rv_LastLogTerm = 0\<rparr>"]
    by auto
qed

text \<open>C19 The \<open>AppendEntries\<close> handler on every branch, for a request with consecutive indices:
  an older term is refused without a change; a failed consistency check is refused with
  the log unchanged; otherwise the log becomes the merge of the entries and the commit
  index rises to the smaller of \<open>LeaderCommit\<close> and the new last index.\<close>

theorem append_rule:
  assumes "log_wf (rf_log rf)" and "ae_wf req"
  shows "\<exists>rf' reply. AppendEntries r req rf = Inr (rf', reply) \<and>
    aer_Term reply = max (rf_currentTerm rf) (ae_Term req) \<and> rf_currentTerm rf' = aer_Term reply \<and>
    (aer_Success reply \<longleftrightarrow> rf_currentTerm rf \<le> ae_Term req \<and> prev_matches req (log_list (rf_log rf))) \<and>
    (ae_Term req < rf_currentTerm rf \<longrightarrow> rf' = rf) \<and>
    (\<not> aer_Success reply \<longrightarrow> rf_log rf' = rf_log rf \<and> rf_commitIndex rf' = rf_commitIndex rf) \<and>
    (aer_Success reply \<longrightarrow> log_wf (rf_log rf') \<and>
       log_list (rf_log rf') = merge_spec (ae_prev req) (map from_pb (ae_Entries req)) (log_list (rf_log rf)) \<and>
       rf_commitIndex rf' = (if ae_LeaderCommit req > rf_commitIndex rf
         then min (ae_LeaderCommit req) (int (length (log_list (rf_log rf')))) else rf_commitIndex rf))"
proof -
  consider "ae_Term req < rf_currentTerm rf"
    | "rf_currentTerm rf \<le> ae_Term req" "prev_matches req (log_list (rf_log rf))"
    | "rf_currentTerm rf \<le> ae_Term req" "\<not> prev_matches req (log_list (rf_log rf))" by linarith
  then show ?thesis
  proof cases
    case 1
    then show ?thesis by (simp add: AppendEntries_stale)
  next
    case 2
    from AppendEntries_accept [OF assms 2, of r] obtain rf' where
      "AppendEntries r req rf = Inr (rf', \<lparr>aer_Term = ae_Term req, aer_Success = True,
         aer_ConflictIndex = 0, aer_ConflictTerm = 0\<rparr>)"
      "rf_currentTerm rf' = ae_Term req" "log_wf (rf_log rf')"
      "log_list (rf_log rf') = merge_spec (ae_prev req) (map from_pb (ae_Entries req)) (log_list (rf_log rf))"
      "rf_commitIndex rf' = (if ae_LeaderCommit req > rf_commitIndex rf
         then min (ae_LeaderCommit req) (int (length (log_list (rf_log rf')))) else rf_commitIndex rf)"
      by (elim exE conjE) (rule that)
    then show ?thesis
      using 2 by (intro exI [of _ rf'] exI conjI) (auto simp: max_absorb2)
  next
    case 3
    then show ?thesis using AppendEntries_reject [OF assms 3, of r] by (auto simp: max_absorb2 same_data_def)
  qed
qed

theorem append_rule_witness:
  "\<exists>rf' reply. AppendEntries 0 \<lparr>ae_Term = 3, ae_LeaderId = 2, ae_PrevLogIndex = 1, ae_PrevLogTerm = 1,
       ae_Entries = [\<lparr>pe_Index = 2, pe_Term = 3, pe_Command = ''y''\<rparr>], ae_LeaderCommit = 9\<rparr> (cl_nodes handover_state 0) =
     Inr (rf', reply) \<and> aer_Success reply \<and> rf_currentTerm rf' = 3"
proof -
  let ?req = "\<lparr>ae_Term = 3, ae_LeaderId = 2, ae_PrevLogIndex = 1, ae_PrevLogTerm = 1,
    ae_Entries = [\<lparr>pe_Index = 2, pe_Term = 3, pe_Command = ''y''\<rparr>], ae_LeaderCommit = 9\<rparr>"
  have wf: "log_wf (rf_log (cl_nodes handover_state 0))"
    by (rule reach_node(2) [OF handover_reach]) (simp add: demo_ids)
  have "ae_wf ?req" by (simp add: ae_wf_def consecutive_def)
  moreover have "prev_matches ?req (node_log handover_state 0)" by code_simp
  ultimately show ?thesis
    using append_rule [OF wf, of ?req 0] by (auto simp: handover_facts)
qed

text \<open>The executable interpreter of schedules is the step relation: a step from one state to
  another exists exactly when some event makes it.\<close>

lemma interpreter_exact: "cluster_step cfg s t \<longleftrightarrow> (\<exists>e. cluster_exec cfg e s = Some t)"
  using cluster_exec_sound cluster_exec_complete by blast

text \<open>
  The code takes identifiers for positions but never checks that they are: \<open>Load\<close> and
  \<open>Self\<close> accept any list of nodes, and a leader's first heartbeat to a peer whose
  identifier is not a position panics.
\<close>

lemma unchecked_ids_accepted:
  assumes "n \<in> set ns"
  shows "Load (\<lambda>_. Some data) (\<lambda>_. Some \<lparr>cc_Nodes = ns\<rparr>) path = Inr \<lparr>cc_Nodes = ns\<rparr> \<and>
    (\<exists>m. Self \<lparr>cc_Nodes = ns\<rparr> (nc_ID n) = Inr m)"
  using assms self_loop_complete [OF assms] by (auto simp: Load_def Self_def)

lemma unchecked_ids_panic:
  assumes "becomeLeader rf = Inr rf'" and "p < 0 \<or> int (length (rf_nextIndex rf)) \<le> p"
  shows "sendAppendEntries_send p rf' = Inl (IndexOutOfRange p (int (length (rf_nextIndex rf))))"
proof -
  have "rf_state rf' = Leader \<and> length (rf_nextIndex rf') = length (rf_nextIndex rf)"
    using assms(1) by (auto simp: becomeLeader_def Let_def go_bind_Inr_iff split: if_splits)
  then show ?thesis using assms(2) by (auto simp: sendAppendEntries_send_def slice_get_def)
qed

text \<open>C27 A cluster of one node never has a leader: votes are counted only when a peer's reply
  arrives, so the only node, which is its own majority, stays a follower or candidate.\<close>

theorem single_node_stuck:
  assumes "cluster_reach cfg s" and "length (cc_Nodes cfg) = 1" and "i \<in> node_ids cfg"
  shows "node_state s i \<noteq> Leader"
proof -
  have one: "node_ids cfg = {i}" if "type_inv cfg u" for u
    using that assms(2,3) by (auto simp: type_inv_def node_ids_wf)
  have "\<forall>j \<in> node_ids cfg. node_state s j \<noteq> Leader"
    using assms(1)
  proof (induction rule: reach.induct)
    case (reach_start s)
    then show ?case by (auto simp: cluster_start_def init_cluster_def)
  next
    case (reach_step s t)
    note type = typed.reach_inv [OF reach_step.hyps(1)]
    from reach_step.hyps(2) type show ?case
    proof (cases rule: cluster_step_cases)
      case (won c tm v reply rf')
      then show ?thesis using type_inv_waitD [OF type won(1)] one [OF type] by auto
    next
      case (stepdown j r tm w)
      then show ?thesis using reach_step.IH by (auto split: if_splits)
    qed (use reach_step.IH in \<open>auto simp: quiet_def role_after_def split: if_splits\<close>)
  qed
  then show ?thesis using assms(3) by blast
qed

theorem single_node_stuck_witness:
  "\<exists>cfg. length (cc_Nodes cfg) = 1 \<and> cluster_reach cfg (init_cluster (\<lambda>_. 0) cfg) \<and>
     node_state (init_cluster (\<lambda>_. 0) cfg) 0 \<noteq> Leader"
proof -
  let ?cfg = "\<lparr>cc_Nodes = [\<lparr>nc_ID = 0, nc_ClientAddr = ''A'', nc_PeerAddr = ''a''\<rparr>]\<rparr>"
  have "cluster_start ?cfg (init_cluster (\<lambda>_. 0) ?cfg)" by (auto simp: cluster_start_def wf_cfg_def)
  then have r: "cluster_reach ?cfg (init_cluster (\<lambda>_. 0) ?cfg)" by (rule reach.reach_start)
  then show ?thesis
    using single_node_stuck [OF r, of 0] by (intro exI [of _ ?cfg]) (simp add: node_ids_def)
qed

end
