(* ===== verification/Go_Strings.thy ===== *)
theory Go_Strings
  imports Prelude
begin

text \<open>
  The parts of Go's standard library that the broker's command format uses:
  \<open>strings.SplitN\<close> with a one-byte separator and \<open>base64.StdEncoding\<close>. A Go string is a
  byte sequence, and so is an Isabelle \<open>string\<close>.
\<close>

section \<open>strings.SplitN\<close>

fun SplitN :: "nat \<Rightarrow> char \<Rightarrow> string \<Rightarrow> string list" where
  "SplitN 0 sep s = []"
| "SplitN (Suc 0) sep s = [s]"
| "SplitN (Suc (Suc n)) sep s =
     (if sep \<in> set s
      then takeWhile (\<lambda>c. c \<noteq> sep) s # SplitN (Suc n) sep (tl (dropWhile (\<lambda>c. c \<noteq> sep) s))
      else [s])"

lemma split_first [simp]:
  "sep \<notin> set a \<Longrightarrow> takeWhile (\<lambda>c. c \<noteq> sep) (a @ sep # b) = a"
  "sep \<notin> set a \<Longrightarrow> dropWhile (\<lambda>c. c \<noteq> sep) (a @ sep # b) = sep # b"
  by (induction a) auto

lemma SplitN_Cons:
  "sep \<notin> set a \<Longrightarrow> SplitN (Suc (Suc n)) sep (a @ sep # b) = a # SplitN (Suc n) sep b"
  by simp

lemma SplitN_no_sep: "sep \<notin> set s \<Longrightarrow> 0 < n \<Longrightarrow> SplitN n sep s = [s]"
  by (cases "(n, sep, s)" rule: SplitN.cases) auto

section \<open>base64.StdEncoding\<close>

definition encodeStd :: string where
  "encodeStd = ''ABCDEFGHIJKLMNOPQRSTUVWXYZabcdefghijklmnopqrstuvwxyz0123456789+/''"

definition b64_char :: "nat \<Rightarrow> char" where
  "b64_char n = encodeStd ! (n mod 64)"

fun index_of :: "char \<Rightarrow> string \<Rightarrow> nat option" where
  "index_of c [] = None"
| "index_of c (x # xs) = (if c = x then Some 0 else map_option Suc (index_of c xs))"

definition decodeMap :: "char \<Rightarrow> nat option" where
  "decodeMap c = index_of c encodeStd"

definition byte_of :: "nat \<Rightarrow> char" where
  "byte_of n = char_of n"

text \<open>Three bytes at a time; the last group of one or two bytes is padded.\<close>

fun EncodeToString :: "string \<Rightarrow> string" where
  "EncodeToString (a # b # c # rest) =
     (let val = of_char a * 65536 + of_char b * 256 + of_char c
      in b64_char (val div 262144) # b64_char (val div 4096) # b64_char (val div 64) # b64_char val #
         EncodeToString rest)"
| "EncodeToString [a, b] =
     (let val = of_char a * 65536 + of_char b * 256
      in [b64_char (val div 262144), b64_char (val div 4096), b64_char (val div 64), CHR ''=''])"
| "EncodeToString [a] =
     (let val = of_char a * 65536
      in [b64_char (val div 262144), b64_char (val div 4096), CHR ''='', CHR ''=''])"
| "EncodeToString [] = []"

text \<open>
  Decoding drops carriage returns and line feeds wherever they are, wants whole groups of
  four, and takes padding only at the very end. The leftover low bits of a padded group
  are ignored.
\<close>

definition quantum :: "nat \<Rightarrow> nat \<Rightarrow> nat \<Rightarrow> nat \<Rightarrow> string" where
  "quantum a b c d =
     (let val = a * 262144 + b * 4096 + c * 64 + d
      in [byte_of (val div 65536), byte_of (val div 256), byte_of val])"

fun decode_quanta :: "string \<Rightarrow> string option" where
  "decode_quanta [] = Some []"
| "decode_quanta (a # b # c # d # rest) =
     (case (decodeMap a, decodeMap b) of
        (Some na, Some nb) \<Rightarrow>
          (case decodeMap c of
             Some nc \<Rightarrow>
               (case decodeMap d of
                  Some nd \<Rightarrow> map_option (\<lambda>out. quantum na nb nc nd @ out) (decode_quanta rest)
                | None \<Rightarrow> if d = CHR ''='' \<and> rest = [] then Some (take 2 (quantum na nb nc 0)) else None)
           | None \<Rightarrow>
               if c = CHR ''='' \<and> d = CHR ''='' \<and> rest = [] then Some (take 1 (quantum na nb 0 0)) else None)
      | _ \<Rightarrow> None)"
| "decode_quanta _ = None"

definition DecodeString :: "string \<Rightarrow> string option" where
  "DecodeString s = decode_quanta (filter (\<lambda>c. c \<noteq> char_of (10 :: nat) \<and> c \<noteq> char_of (13 :: nat)) s)"

subsection \<open>Decoding undoes encoding\<close>

lemma length_encodeStd: "length encodeStd = 64"
  by (simp add: encodeStd_def)

lemma distinct_encodeStd: "distinct encodeStd"
  by (simp add: encodeStd_def)

lemma index_of_nth: "distinct xs \<Longrightarrow> n < length xs \<Longrightarrow> index_of (xs ! n) xs = Some n"
proof (induction xs arbitrary: n)
  case (Cons x xs)
  then show ?case by (cases n) auto
qed simp

lemma decodeMap_b64 [simp]: "decodeMap (b64_char n) = Some (n mod 64)"
  by (simp add: decodeMap_def b64_char_def index_of_nth distinct_encodeStd length_encodeStd)

lemma decodeMap_pad: "decodeMap CHR ''='' = None"
  by (simp add: decodeMap_def encodeStd_def)

lemma b64_char_in: "b64_char n \<in> set encodeStd"
  by (simp add: b64_char_def length_encodeStd)

lemma b64_not:
  "b64_char n \<noteq> CHR ''=''" "b64_char n \<noteq> CHR '':''" "b64_char n \<noteq> char_of (10 :: nat)" "b64_char n \<noteq> char_of (13 :: nat)"
  using b64_char_in [of n] by (auto simp: encodeStd_def char_of_def)

lemma set_EncodeToString: "set (EncodeToString s) \<subseteq> set encodeStd \<union> {CHR ''=''}"
  by (induction s rule: EncodeToString.induct) (auto simp: Let_def b64_char_in)

lemma EncodeToString_no_colon: "CHR '':'' \<notin> set (EncodeToString s)"
  using set_EncodeToString [of s] by (auto simp: encodeStd_def)

lemma of_char_less: "(of_char c :: nat) < 256"
  using of_char_mod_256 [of c, where ?'a = nat] mod_less_divisor [of 256 "of_char c"] by simp

lemma byte_of_add: "byte_of (256 * k + of_char c) = c"
proof -
  have "(256 * k + of_char c) mod 256 = (of_char c :: nat)" by simp
  then have "char_of (256 * k + of_char c) = (char_of (of_char c :: nat) :: char)"
    by (metis char_of_mod_256)
  then show ?thesis by (simp add: byte_of_def)
qed

lemma b64_digits:
  assumes "v < 16777216"
  shows "v div 262144 mod 64 * 262144 + v div 4096 mod 64 * 4096 + v div 64 mod 64 * 64 + v mod 64 = (v :: nat)"
proof -
  have "v div 262144 < 64" using assms by (simp add: less_mult_imp_div_less)
  moreover have "v div 64 div 64 = v div 4096" "v div 4096 div 64 = v div 262144"
    by (simp_all add: div_mult2_eq [symmetric])
  ultimately show ?thesis
    using div_mult_mod_eq [of v 64] div_mult_mod_eq [of "v div 64" 64] div_mult_mod_eq [of "v div 4096" 64]
    by (simp only: mod_less)
qed

lemma b64_padding:
  fixes x y :: nat
  shows "(x * 65536 + y * 256) mod 64 = 0" "x * 65536 mod 64 = 0" "x * 65536 div 64 mod 64 = 0"
proof -
  have "x * 65536 + y * 256 = 64 * (x * 1024 + y * 4)" "x * 65536 = 64 * (x * 1024)" "x * 1024 = 64 * (x * 16)"
    by simp_all
  then show "(x * 65536 + y * 256) mod 64 = 0" "x * 65536 mod 64 = 0" "x * 65536 div 64 mod 64 = 0"
    by (metis mod_mult_self1_is_0 nonzero_mult_div_cancel_left zero_neq_numeral)+
qed

lemma quantum_bytes: "quantum (v div 262144 mod 64) (v div 4096 mod 64) (v div 64 mod 64) (v mod 64) = [a, b, c]"
  if v: "v = of_char a * 65536 + of_char b * 256 + of_char c"
proof -
  have lt: "of_char a < (256 :: nat)" "of_char b < (256 :: nat)" "of_char c < (256 :: nat)"
    by (simp_all add: of_char_less)
  have "v < 16777216" using lt v by linarith
  then have "quantum (v div 262144 mod 64) (v div 4096 mod 64) (v div 64 mod 64) (v mod 64) =
      [byte_of (v div 65536), byte_of (v div 256), byte_of v]"
    by (simp only: quantum_def Let_def b64_digits)
  moreover have "v div 65536 = 256 * 0 + of_char a"
    using div_nat_eqI [of 65536 "of_char a" v] lt v by simp
  moreover have "v div 256 = 256 * of_char a + of_char b"
    using div_nat_eqI [of 256 "256 * of_char a + of_char b" v] lt v by simp
  moreover have "v = 256 * (256 * of_char a + of_char b) + of_char c" using v by simp
  ultimately show ?thesis by (metis byte_of_add)
qed

lemma decode_quanta_encode: "decode_quanta (EncodeToString s) = Some s"
proof (induction s rule: EncodeToString.induct)
  case (1 a b c rest)
  then show ?case by (simp add: Let_def quantum_bytes)
next
  case (2 a b)
  let ?v = "of_char a * 65536 + of_char b * 256 :: nat"
  have "quantum (?v div 262144 mod 64) (?v div 4096 mod 64) (?v div 64 mod 64) 0 = [a, b, char_of (0 :: nat)]"
    using quantum_bytes [of ?v a b "char_of (0 :: nat)"] by (simp add: b64_padding)
  then show ?case by (simp add: Let_def decodeMap_pad)
next
  case (3 a)
  let ?v = "of_char a * 65536 :: nat"
  have "quantum (?v div 262144 mod 64) (?v div 4096 mod 64) 0 0 = [a, char_of (0 :: nat), char_of (0 :: nat)]"
    using quantum_bytes [of ?v a "char_of (0 :: nat)" "char_of (0 :: nat)"] by (simp add: b64_padding)
  then show ?case by (simp add: Let_def decodeMap_pad)
qed simp

lemma DecodeString_EncodeToString [simp]: "DecodeString (EncodeToString s) = Some s"
proof -
  have "filter (\<lambda>c. c \<noteq> char_of (10 :: nat) \<and> c \<noteq> char_of (13 :: nat)) (EncodeToString s) = EncodeToString s"
    using set_EncodeToString [of s] by (intro filter_True) (auto simp: encodeStd_def char_of_def)
  then show ?thesis by (simp add: DecodeString_def decode_quanta_encode)
qed


interpretation b64: codec EncodeToString DecodeString Some "\<lambda>_. True"
  by unfold_locales simp_all

text \<open>A byte outside the alphabet, other than padding and line ends, spoils the whole text.\<close>

lemma decode_quanta_bad:
  assumes "decodeMap x = None" and "x \<noteq> CHR ''=''" and "x \<in> set s"
  shows "decode_quanta s = None"
  using assms(3)
proof (induction s rule: decode_quanta.induct)
  case (2 a b c d rest)
  then show ?case using assms(1,2) by (auto split: option.splits)
qed simp_all

lemma DecodeString_colon: "CHR '':'' \<in> set s \<Longrightarrow> DecodeString s = None"
  unfolding DecodeString_def
  by (rule decode_quanta_bad [of "CHR '':''"]) (simp_all add: decodeMap_def encodeStd_def char_of_def)

end
