(* ===== verification/Broker.thy ===== *)
theory Broker
  imports Raft Go_Strings
begin

text \<open>
  The broker server of \<^verbatim>\<open>src/broker/main.go\<close>: its state, the commands it replicates
  through Raft, the apply loop, the RPC handlers and the scan for stalled tasks. Each
  section under \<open>s.mu\<close> is one function; a handler is their composition. The two places
  where a handler waits (between \<open>Start\<close> and the registration, and for the commit) take
  what the rest of the server does meanwhile as an argument.
\<close>

section \<open>Constants, messages and state\<close>

definition TaskTimeout :: int where "TaskTimeout = 10 * 1000000000"
definition CheckInterval :: int where "CheckInterval = 5 * 1000000000"
definition commitTimeout :: int where "commitTimeout = 5 * 1000000000"

record Task =
  tk_Id :: string
  tk_Payload :: string

record SubmitRequest = sq_Payload :: string

record SubmitResponse =
  sr_TaskId :: string
  sr_Ok :: bool
  sr_RedirectAddr :: string

record PollRequest = pq_WorkerId :: string

record PollResponse =
  pr_Task :: "Task option"
  pr_HasTask :: bool
  pr_RedirectAddr :: string

record CompleteRequest =
  cq_TaskId :: string
  cq_WorkerId :: string
  cq_Error :: string

record CompleteResponse =
  cr_Ok :: bool
  cr_RedirectAddr :: string

record HeartbeatRequest =
  hq_WorkerId :: string
  hq_TaskId :: string

record HeartbeatResponse =
  hr_Ok :: bool
  hr_RedirectAddr :: string

record GetResultRequest = gq_TaskId :: string

record GetResultResponse =
  gr_Done :: bool
  gr_Error :: string

record inFlightEntry =
  ife_task :: Task
  ife_workerID :: string
  ife_lastHeartbeat :: int

record pendingOp =
  po_term :: int
  po_closed :: bool

text \<open>
  \<open>bs_ops\<close> is the heap of \<open>pendingOp\<close> objects, which the handler that waits and the map
  share; the map holds positions in it.
\<close>

record brokerServer =
  bs_id :: int
  bs_cfg :: ClusterConfig
  bs_rf :: Raft
  bs_submitted :: "string \<rightharpoonup> string"
  bs_submittedOrder :: "string list"
  bs_done :: "string \<rightharpoonup> bool"
  bs_errors :: "string \<rightharpoonup> string"
  bs_inflight :: "string \<rightharpoonup> inFlightEntry"
  bs_wasLeader :: bool
  bs_pendingOps :: "int \<rightharpoonup> nat"
  bs_leaderID :: int
  bs_ops :: "pendingOp list"

text \<open>Reading a Go map: the zero value for an absent key.\<close>

definition is_done :: "brokerServer \<Rightarrow> string \<Rightarrow> bool" where
  "is_done s i = (case bs_done s i of Some b \<Rightarrow> b | None \<Rightarrow> False)"

definition map_string :: "(string \<rightharpoonup> string) \<Rightarrow> string \<Rightarrow> string" where
  "map_string m k = (case m k of Some v \<Rightarrow> v | None \<Rightarrow> '''')"

definition newBrokerServer :: "int \<Rightarrow> (string \<Rightarrow> bool) \<Rightarrow> int \<Rightarrow> ClusterConfig \<Rightarrow> brokerServer option" where
  "newBrokerServer r dial i cfg =
     map_option (\<lambda>rf.
       \<lparr>bs_id = i, bs_cfg = cfg, bs_rf = rf, bs_submitted = Map.empty, bs_submittedOrder = [],
        bs_done = Map.empty, bs_errors = Map.empty, bs_inflight = Map.empty, bs_wasLeader = False,
        bs_pendingOps = Map.empty, bs_leaderID = - 1, bs_ops = []\<rparr>) (New r dial i cfg)"

section \<open>Command encoding\<close>

definition encodeSubmit :: "string \<Rightarrow> string \<Rightarrow> string" where
  "encodeSubmit i payload = ''submit:'' @ i @ '':'' @ EncodeToString payload"

definition encodeComplete :: "string \<Rightarrow> string \<Rightarrow> string" where
  "encodeComplete i errMsg = ''complete:'' @ i @ '':'' @ EncodeToString errMsg"

definition decodeCommand :: "string \<Rightarrow> string \<times> string \<times> string" where
  "decodeCommand cmd =
     (let parts = SplitN 3 CHR '':'' cmd
      in if length parts \<noteq> 3 then ('''', '''', '''')
         else (case DecodeString (parts ! 2) of
             None \<Rightarrow> ('''', '''', '''')
           | Some raw \<Rightarrow> (parts ! 0, parts ! 1, raw)))"

section \<open>Apply loop\<close>

text \<open>The \<open>switch\<close>, and the wake-up of the handler that waits for this index.\<close>

definition apply_command :: "string \<Rightarrow> brokerServer \<Rightarrow> brokerServer" where
  "apply_command cmd s =
     (case decodeCommand cmd of (op, i, data) \<Rightarrow>
        if op = ''submit'' then
          (if bs_submitted s i = None
           then s\<lparr>bs_submitted := (bs_submitted s)(i \<mapsto> data),
                  bs_submittedOrder := bs_submittedOrder s @ [i]\<rparr>
           else s)
        else if op = ''complete'' then
          s\<lparr>bs_done := (bs_done s)(i \<mapsto> True), bs_errors := (bs_errors s)(i \<mapsto> data),
            bs_inflight := (bs_inflight s)(i := None)\<rparr>
        else s)"

definition wake_waiter :: "ApplyMsg \<Rightarrow> brokerServer \<Rightarrow> brokerServer" where
  "wake_waiter msg s =
     (case bs_pendingOps s (am_Index msg) of
        None \<Rightarrow> s
      | Some a \<Rightarrow> s\<lparr>bs_ops := (bs_ops s)[a := \<lparr>po_term = am_Term msg, po_closed = True\<rparr>],
                    bs_pendingOps := (bs_pendingOps s)(am_Index msg := None)\<rparr>)"

definition apply_message :: "ApplyMsg \<Rightarrow> brokerServer \<Rightarrow> brokerServer" where
  "apply_message msg s = wake_waiter msg (apply_command (am_Command msg) s)"

text \<open>The loop over everything the channel has delivered.\<close>

definition broker_applyLoop :: "ApplyMsg list \<Rightarrow> brokerServer \<Rightarrow> brokerServer" where
  "broker_applyLoop msgs s = fold apply_message msgs s"

section \<open>Leadership\<close>

text \<open>
  Two critical sections: \<open>GetState\<close> under the mutex of the Raft node, then the note under
  the mutex of the server, of a leadership that may have changed in between.
\<close>

definition note_leadership :: "bool \<Rightarrow> brokerServer \<Rightarrow> brokerServer" where
  "note_leadership isLeader s =
     (let s1 = (if isLeader \<and> \<not> bs_wasLeader s then s\<lparr>bs_inflight := Map.empty\<rparr> else s)
      in s1\<lparr>bs_wasLeader := isLeader\<rparr>)"

definition refreshLeaderState :: "brokerServer \<Rightarrow> brokerServer \<times> bool" where
  "refreshLeaderState s =
     (let isLeader = snd (GetState (bs_rf s)) in (note_leadership isLeader s, isLeader))"

definition currentLeaderAddr :: "brokerServer \<Rightarrow> string go" where
  "currentLeaderAddr s =
     (if snd (GetState (bs_rf s))
      then go_bind (slice_get (cc_Nodes (bs_cfg s)) (bs_id s)) (\<lambda>n. Inr (nc_ClientAddr n))
      else
        let i = bs_leaderID s
        in if i < 0 \<or> i \<ge> int (length (cc_Nodes (bs_cfg s))) then Inr ''''
           else go_bind (slice_get (cc_Nodes (bs_cfg s)) i) (\<lambda>n. Inr (nc_ClientAddr n)))"

section \<open>Proposals\<close>

definition register_op :: "int \<Rightarrow> int \<Rightarrow> brokerServer \<Rightarrow> brokerServer" where
  "register_op index term s =
     s\<lparr>bs_ops := bs_ops s @ [\<lparr>po_term = term, po_closed = False\<rparr>],
       bs_pendingOps := (bs_pendingOps s)(index \<mapsto> length (bs_ops s))\<rparr>"

definition forget_op :: "int \<Rightarrow> brokerServer \<Rightarrow> brokerServer" where
  "forget_op index s = s\<lparr>bs_pendingOps := (bs_pendingOps s)(index := None)\<rparr>"

text \<open>
  \<open>before\<close> is what other goroutines do between \<open>Start\<close> and the registration, \<open>during\<close>
  what they do until \<open>select\<close> returns; \<open>timedOut\<close> says that \<open>select\<close> took the timer
  (which it must when the channel is still open).
\<close>

definition proposeAndWait ::
  "(brokerServer \<Rightarrow> brokerServer) \<Rightarrow> (brokerServer \<Rightarrow> brokerServer) \<Rightarrow> bool \<Rightarrow> string \<Rightarrow> brokerServer
     \<Rightarrow> (brokerServer \<times> bool) go" where
  "proposeAndWait before during timedOut cmd s =
     go_bind (Start cmd (bs_rf s)) (\<lambda>(rf', (index, term, isLeader), peers).
       if \<not> isLeader then Inr (s\<lparr>bs_rf := rf'\<rparr>, False)
       else
         let s1 = before (s\<lparr>bs_rf := rf'\<rparr>);
             a = length (bs_ops s1);
             s2 = during (register_op index term s1)
         in if po_closed (bs_ops s2 ! a) \<and> \<not> timedOut
            then Inr (s2, po_term (bs_ops s2 ! a) = term)
            else Inr (forget_op index s2, False))"

section \<open>Client-facing handlers\<close>

definition Submit ::
  "(brokerServer \<Rightarrow> brokerServer) \<Rightarrow> (brokerServer \<Rightarrow> brokerServer) \<Rightarrow> bool \<Rightarrow> string \<Rightarrow> SubmitRequest
     \<Rightarrow> brokerServer \<Rightarrow> (brokerServer \<times> SubmitResponse) go" where
  "Submit before during timedOut uuid req s =
     go_bind (proposeAndWait before during timedOut (encodeSubmit uuid (sq_Payload req)) s) (\<lambda>(s', ok).
       if \<not> ok then
         go_bind (currentLeaderAddr s') (\<lambda>addr.
           Inr (s', \<lparr>sr_TaskId = '''', sr_Ok = False, sr_RedirectAddr = addr\<rparr>))
       else Inr (s', \<lparr>sr_TaskId = uuid, sr_Ok = True, sr_RedirectAddr = ''''\<rparr>))"

fun poll_scan :: "brokerServer \<Rightarrow> string list \<Rightarrow> string option" where
  "poll_scan s [] = None"
| "poll_scan s (i # ids) =
     (if is_done s i then poll_scan s ids
      else if bs_inflight s i \<noteq> None then poll_scan s ids
      else Some i)"

definition Poll_locked :: "int \<Rightarrow> PollRequest \<Rightarrow> brokerServer \<Rightarrow> brokerServer \<times> PollResponse" where
  "Poll_locked now req s =
     (case poll_scan s (bs_submittedOrder s) of
        Some i \<Rightarrow>
          let task = \<lparr>tk_Id = i, tk_Payload = map_string (bs_submitted s) i\<rparr>
          in (s\<lparr>bs_inflight := (bs_inflight s)(i \<mapsto>
                 \<lparr>ife_task = task, ife_workerID = pq_WorkerId req, ife_lastHeartbeat = now\<rparr>)\<rparr>,
              \<lparr>pr_Task = Some task, pr_HasTask = True, pr_RedirectAddr = ''''\<rparr>)
      | None \<Rightarrow> (s, \<lparr>pr_Task = None, pr_HasTask = False, pr_RedirectAddr = ''''\<rparr>))"

text \<open>
  \<open>Poll\<close>, \<open>Heartbeat\<close> and the scan below are \<open>refreshLeaderState\<close> and then a section of their own,
  composed here as they run when nothing comes between; the events of \<^verbatim>\<open>Broker_Proofs\<close> and
  the steps of \<^verbatim>\<open>System\<close> take the sections one by one.
\<close>

definition Poll :: "int \<Rightarrow> PollRequest \<Rightarrow> brokerServer \<Rightarrow> (brokerServer \<times> PollResponse) go" where
  "Poll now req s =
     (case refreshLeaderState s of (s1, isLeader) \<Rightarrow>
        if \<not> isLeader then
          go_bind (currentLeaderAddr s1) (\<lambda>addr.
            Inr (s1, \<lparr>pr_Task = None, pr_HasTask = False, pr_RedirectAddr = addr\<rparr>))
        else Inr (Poll_locked now req s1))"

definition Complete ::
  "(brokerServer \<Rightarrow> brokerServer) \<Rightarrow> (brokerServer \<Rightarrow> brokerServer) \<Rightarrow> bool \<Rightarrow> CompleteRequest
     \<Rightarrow> brokerServer \<Rightarrow> (brokerServer \<times> CompleteResponse) go" where
  "Complete before during timedOut req s =
     go_bind (proposeAndWait before during timedOut (encodeComplete (cq_TaskId req) (cq_Error req)) s)
       (\<lambda>(s', ok).
         if \<not> ok then
           go_bind (currentLeaderAddr s') (\<lambda>addr. Inr (s', \<lparr>cr_Ok = False, cr_RedirectAddr = addr\<rparr>))
         else Inr (s', \<lparr>cr_Ok = True, cr_RedirectAddr = ''''\<rparr>))"

definition GetResult :: "GetResultRequest \<Rightarrow> brokerServer \<Rightarrow> GetResultResponse" where
  "GetResult req s =
     (if \<not> is_done s (gq_TaskId req) then \<lparr>gr_Done = False, gr_Error = ''''\<rparr>
      else \<lparr>gr_Done = True, gr_Error = map_string (bs_errors s) (gq_TaskId req)\<rparr>)"

definition Heartbeat_locked :: "int \<Rightarrow> HeartbeatRequest \<Rightarrow> brokerServer \<Rightarrow> brokerServer" where
  "Heartbeat_locked now req s =
     (case bs_inflight s (hq_TaskId req) of
        Some e \<Rightarrow> s\<lparr>bs_inflight := (bs_inflight s)(hq_TaskId req \<mapsto> e\<lparr>ife_lastHeartbeat := now\<rparr>)\<rparr>
      | None \<Rightarrow> s)"

definition Heartbeat :: "int \<Rightarrow> HeartbeatRequest \<Rightarrow> brokerServer \<Rightarrow> (brokerServer \<times> HeartbeatResponse) go" where
  "Heartbeat now req s =
     (case refreshLeaderState s of (s1, isLeader) \<Rightarrow>
        if \<not> isLeader then
          go_bind (currentLeaderAddr s1) (\<lambda>addr. Inr (s1, \<lparr>hr_Ok = False, hr_RedirectAddr = addr\<rparr>))
        else Inr (Heartbeat_locked now req s1, \<lparr>hr_Ok = True, hr_RedirectAddr = ''''\<rparr>))"

section \<open>Stalled tasks\<close>

text \<open>\<open>now i\<close> is the clock when the loop reaches task \<open>i\<close>.\<close>

definition drop_stalled :: "(string \<Rightarrow> int) \<Rightarrow> brokerServer \<Rightarrow> brokerServer" where
  "drop_stalled now s =
     s\<lparr>bs_inflight := (\<lambda>i. case bs_inflight s i of
          Some e \<Rightarrow> if now i - ife_lastHeartbeat e > TaskTimeout then None else Some e
        | None \<Rightarrow> None)\<rparr>"

definition checkStalledTasks :: "(string \<Rightarrow> int) \<Rightarrow> brokerServer \<Rightarrow> brokerServer" where
  "checkStalledTasks now s =
     (case refreshLeaderState s of (s1, isLeader) \<Rightarrow> if \<not> isLeader then s1 else drop_stalled now s1)"

text \<open>The background goroutine: one scan per tick; \<open>step\<close> is what happens between ticks.\<close>

definition reEnqueueStalled :: "(string \<Rightarrow> int) list \<Rightarrow> (brokerServer \<Rightarrow> brokerServer) \<Rightarrow> brokerServer \<Rightarrow> brokerServer" where
  "reEnqueueStalled ticks step s = fold (\<lambda>now s. checkStalledTasks now (step s)) ticks s"

section \<open>Peer-facing handlers\<close>

definition broker_RequestVote ::
  "int \<Rightarrow> int \<Rightarrow> RequestVoteArgs \<Rightarrow> brokerServer \<Rightarrow> (brokerServer \<times> RequestVoteReply) go" where
  "broker_RequestVote r1 r2 req s =
     go_bind (RequestVote r1 r2 req (bs_rf s)) (\<lambda>(rf', reply). Inr (s\<lparr>bs_rf := rf'\<rparr>, reply))"

text \<open>
  Two critical sections again: the request under the mutex of the Raft node, then the note of
  the leader under the mutex of the server; \<open>between\<close> is what other goroutines do in between.
\<close>

definition note_accepted :: "AppendEntriesArgs \<Rightarrow> AppendEntriesReply \<Rightarrow> brokerServer \<Rightarrow> brokerServer" where
  "note_accepted req reply s =
     (if aer_Term reply = ae_Term req then s\<lparr>bs_leaderID := ae_LeaderId req\<rparr> else s)"

definition broker_AppendEntries ::
  "(brokerServer \<Rightarrow> brokerServer) \<Rightarrow> int \<Rightarrow> AppendEntriesArgs \<Rightarrow> brokerServer
     \<Rightarrow> (brokerServer \<times> AppendEntriesReply) go" where
  "broker_AppendEntries between r req s =
     go_bind (AppendEntries r req (bs_rf s)) (\<lambda>(rf', reply).
       Inr (note_accepted req reply (between (s\<lparr>bs_rf := rf'\<rparr>)), reply))"

definition broker_InstallSnapshot ::
  "InstallSnapshotArgs \<Rightarrow> brokerServer \<Rightarrow> brokerServer \<times> InstallSnapshotReply" where
  "broker_InstallSnapshot req s =
     (case InstallSnapshot req (bs_rf s) of (rf', reply) \<Rightarrow> (s\<lparr>bs_rf := rf'\<rparr>, reply))"

section \<open>Start-up\<close>

text \<open>
  \<open>main\<close> up to the two \<open>Serve\<close> calls: the flags, the configuration, the server and the
  ports. The operating system's answers are arguments; \<open>log.Fatal\<close> is the left value.
\<close>

datatype broker_fatal =
    IdRequired
  | LoadConfig config_error
  | NoSelf config_error
  | DialPeer
  | ParseAddr string
  | ListenError string

definition listen_on ::
  "(string \<Rightarrow> string option) \<Rightarrow> (string \<Rightarrow> bool) \<Rightarrow> string \<Rightarrow> broker_fatal + string" where
  "listen_on splitHostPort listen addr =
     (case splitHostPort addr of
        None \<Rightarrow> Inl (ParseAddr addr)
      | Some port \<Rightarrow> if listen ('':'' @ port) then Inr ('':'' @ port) else Inl (ListenError addr))"

definition broker_main ::
  "(string \<Rightarrow> string option) \<Rightarrow> (string \<Rightarrow> ClusterConfig option) \<Rightarrow> (string \<Rightarrow> bool) \<Rightarrow> (string \<Rightarrow> string option)
     \<Rightarrow> (string \<Rightarrow> bool) \<Rightarrow> int \<Rightarrow> int \<Rightarrow> string \<Rightarrow> broker_fatal + (brokerServer \<times> string \<times> string)" where
  "broker_main readFile unmarshal dial splitHostPort listen r idFlag cfgPath =
     (if idFlag < 0 then Inl IdRequired
      else
        (case Load readFile unmarshal cfgPath of
           Inl e \<Rightarrow> Inl (LoadConfig e)
         | Inr cfg \<Rightarrow>
             (case Self cfg (int32 idFlag) of
                Inl e \<Rightarrow> Inl (NoSelf e)
              | Inr self \<Rightarrow>
                  (case newBrokerServer r dial (nc_ID self) cfg of
                     None \<Rightarrow> Inl DialPeer
                   | Some srv \<Rightarrow>
                       (case listen_on splitHostPort listen (nc_ClientAddr self) of
                          Inl e \<Rightarrow> Inl e
                        | Inr clientLis \<Rightarrow>
                            (case listen_on splitHostPort listen (nc_PeerAddr self) of
                               Inl e \<Rightarrow> Inl e
                             | Inr peerLis \<Rightarrow> Inr (srv, clientLis, peerLis)))))))"

end
