(* ===== verification/Broker_Proofs.thy ===== *)
theory Broker_Proofs
  imports Broker Raft_Node
begin

text \<open>
  What the broker server guarantees on its own: the command format, the abstract task
  board that the replicated state implements, the invariant of the scheduling state, the
  queue of pending tasks that \<open>Poll\<close> serves, and what a successful proposal means.
\<close>

section \<open>The command format\<close>

datatype command = CSubmit string string | CComplete string string

fun command_id :: "command \<Rightarrow> string" where
  "command_id (CSubmit i p) = i"
| "command_id (CComplete i e) = i"

fun encode_command :: "command \<Rightarrow> string" where
  "encode_command (CSubmit i p) = encodeSubmit i p"
| "encode_command (CComplete i e) = encodeComplete i e"

fun command_fields :: "command \<Rightarrow> string \<times> string \<times> string" where
  "command_fields (CSubmit i p) = (''submit'', i, p)"
| "command_fields (CComplete i e) = (''complete'', i, e)"

lemma decode_fields:
  assumes "CHR '':'' \<notin> set op" and "CHR '':'' \<notin> set i"
  shows "decodeCommand (op @ '':'' @ i @ '':'' @ EncodeToString d) = (op, i, d)"
proof -
  have "SplitN 3 CHR '':'' (op @ '':'' @ i @ '':'' @ EncodeToString d) = [op, i, EncodeToString d]"
    using assms by (simp add: numeral_3_eq_3)
  then show ?thesis by (simp add: decodeCommand_def)
qed

lemma decode_encode_command:
  "CHR '':'' \<notin> set (command_id c) \<Longrightarrow> decodeCommand (encode_command c) = command_fields c"
  using decode_fields [of "''submit''"] decode_fields [of "''complete''"]
  by (cases c) (auto simp: encodeSubmit_def encodeComplete_def)

interpretation cmds: codec encode_command decodeCommand command_fields "\<lambda>c. CHR '':'' \<notin> set (command_id c)"
proof
  fix x y
  assume "command_fields x = command_fields y"
  then show "x = y" by (cases x; cases y) auto
qed (simp add: decode_encode_command)

lemma decode_submit [simp]: "CHR '':'' \<notin> set i \<Longrightarrow> decodeCommand (encodeSubmit i d) = (''submit'', i, d)"
  using decode_encode_command [of "CSubmit i d"] by simp

lemma decode_complete [simp]: "CHR '':'' \<notin> set i \<Longrightarrow> decodeCommand (encodeComplete i d) = (''complete'', i, d)"
  using decode_encode_command [of "CComplete i d"] by simp

text \<open>An identifier with a colon spoils the command.\<close>

lemma decode_colon_id:
  assumes "CHR '':'' \<notin> set op" and "CHR '':'' \<in> set i"
  shows "decodeCommand (op @ '':'' @ i @ '':'' @ EncodeToString d) = ('''', '''', '''')"
proof -
  obtain a b where i: "i = a @ CHR '':'' # b" "CHR '':'' \<notin> set a"
    using assms(2) by (meson split_list_first)
  have "SplitN 3 CHR '':'' (op @ '':'' @ i @ '':'' @ EncodeToString d) =
      [op, a, b @ CHR '':'' # EncodeToString d]"
    using assms(1) i by (simp add: numeral_3_eq_3)
  then show ?thesis by (simp add: decodeCommand_def DecodeString_colon)
qed

lemma decode_noop [simp]: "decodeCommand ''noop'' = ('''', '''', '''')"
  by (simp add: decodeCommand_def numeral_3_eq_3)

section \<open>Events of one server\<close>

text \<open>
  Everything that changes a server is a sequence of these, in any order: the sections
  under the mutex, and changes of the Raft node below it.
\<close>

datatype broker_event =
    BRaft Raft
  | BLeader int
  | BApply ApplyMsg
  | BRefresh bool
  | BPoll int PollRequest
  | BBeat int HeartbeatRequest
  | BStalled "string \<Rightarrow> int"
  | BRegister int int
  | BForget int

fun broker_exec :: "broker_event \<Rightarrow> brokerServer \<Rightarrow> brokerServer" where
  "broker_exec (BRaft rf) s = s\<lparr>bs_rf := rf\<rparr>"
| "broker_exec (BLeader l) s = s\<lparr>bs_leaderID := l\<rparr>"
| "broker_exec (BApply m) s = apply_message m s"
| "broker_exec (BRefresh b) s = note_leadership b s"
| "broker_exec (BPoll now req) s = fst (Poll_locked now req s)"
| "broker_exec (BBeat now req) s = Heartbeat_locked now req s"
| "broker_exec (BStalled now) s = drop_stalled now s"
| "broker_exec (BRegister index term) s = register_op index term s"
| "broker_exec (BForget index) s = forget_op index s"

definition broker_run :: "broker_event list \<Rightarrow> brokerServer \<Rightarrow> brokerServer" where
  "broker_run es s = fold broker_exec es s"

lemma broker_run_simps [simp]:
  "broker_run [] s = s" "broker_run (e # es) s = broker_run es (broker_exec e s)"
  "broker_run (es @ fs) s = broker_run fs (broker_run es s)"
  by (simp_all add: broker_run_def)

section \<open>The invariant\<close>

definition board_ok :: "brokerServer \<Rightarrow> bool" where
  "board_ok s \<longleftrightarrow> distinct (bs_submittedOrder s) \<and> set (bs_submittedOrder s) = dom (bs_submitted s) \<and>
     (\<forall>i. bs_done s i \<noteq> Some False) \<and> dom (bs_done s) = dom (bs_errors s)"

text \<open>Tasks in flight are submitted, not done, and described correctly.\<close>

definition flights_ok :: "brokerServer \<Rightarrow> bool" where
  "flights_ok s \<longleftrightarrow> (\<forall>i e. bs_inflight s i = Some e \<longrightarrow> i \<in> set (bs_submittedOrder s) \<and> \<not> is_done s i \<and>
     ife_task e = \<lparr>tk_Id = i, tk_Payload = map_string (bs_submitted s) i\<rparr>)"

definition ops_ok :: "brokerServer \<Rightarrow> bool" where
  "ops_ok s \<longleftrightarrow> (\<forall>n a. bs_pendingOps s n = Some a \<longrightarrow> a < length (bs_ops s) \<and> \<not> po_closed (bs_ops s ! a)) \<and>
     (\<forall>n m a. bs_pendingOps s n = Some a \<longrightarrow> bs_pendingOps s m = Some a \<longrightarrow> n = m)"

definition broker_ok :: "brokerServer \<Rightarrow> bool" where
  "broker_ok s \<longleftrightarrow> board_ok s \<and> flights_ok s \<and> ops_ok s"

lemma is_done_dom: "board_ok s \<Longrightarrow> is_done s i \<longleftrightarrow> i \<in> dom (bs_done s)"
proof -
  assume "board_ok s"
  then have "bs_done s i \<noteq> Some False" by (simp add: board_ok_def)
  then show ?thesis by (cases "bs_done s i") (auto simp: is_done_def)
qed

lemma board_ok_command: "board_ok s \<Longrightarrow> board_ok (apply_command cmd s)"
  by (auto simp: board_ok_def apply_command_def split: prod.splits)

lemma wake_waiter_simps [simp]:
  "bs_submitted (wake_waiter m s) = bs_submitted s" "bs_submittedOrder (wake_waiter m s) = bs_submittedOrder s"
  "bs_done (wake_waiter m s) = bs_done s" "bs_errors (wake_waiter m s) = bs_errors s"
  "bs_inflight (wake_waiter m s) = bs_inflight s" "bs_rf (wake_waiter m s) = bs_rf s"
  "bs_cfg (wake_waiter m s) = bs_cfg s" "bs_id (wake_waiter m s) = bs_id s"
  "bs_wasLeader (wake_waiter m s) = bs_wasLeader s" "bs_leaderID (wake_waiter m s) = bs_leaderID s"
  by (auto simp: wake_waiter_def split: option.splits)

lemma apply_command_simps [simp]:
  "bs_pendingOps (apply_command c s) = bs_pendingOps s" "bs_ops (apply_command c s) = bs_ops s"
  "bs_rf (apply_command c s) = bs_rf s" "bs_cfg (apply_command c s) = bs_cfg s"
  "bs_id (apply_command c s) = bs_id s" "bs_leaderID (apply_command c s) = bs_leaderID s"
  "bs_wasLeader (apply_command c s) = bs_wasLeader s"
  by (auto simp: apply_command_def split: prod.splits)

lemma note_leadership_simps [simp]:
  "bs_submitted (note_leadership b s) = bs_submitted s"
  "bs_submittedOrder (note_leadership b s) = bs_submittedOrder s"
  "bs_done (note_leadership b s) = bs_done s" "bs_errors (note_leadership b s) = bs_errors s"
  "bs_pendingOps (note_leadership b s) = bs_pendingOps s" "bs_ops (note_leadership b s) = bs_ops s"
  "bs_rf (note_leadership b s) = bs_rf s" "bs_cfg (note_leadership b s) = bs_cfg s"
  "bs_id (note_leadership b s) = bs_id s" "bs_leaderID (note_leadership b s) = bs_leaderID s"
  by (simp_all add: note_leadership_def Let_def)

lemma refresh_simps [simp]:
  "bs_submitted (fst (refreshLeaderState s)) = bs_submitted s"
  "bs_submittedOrder (fst (refreshLeaderState s)) = bs_submittedOrder s"
  "bs_done (fst (refreshLeaderState s)) = bs_done s" "bs_errors (fst (refreshLeaderState s)) = bs_errors s"
  "bs_pendingOps (fst (refreshLeaderState s)) = bs_pendingOps s" "bs_ops (fst (refreshLeaderState s)) = bs_ops s"
  "bs_rf (fst (refreshLeaderState s)) = bs_rf s" "bs_cfg (fst (refreshLeaderState s)) = bs_cfg s"
  "bs_id (fst (refreshLeaderState s)) = bs_id s" "bs_leaderID (fst (refreshLeaderState s)) = bs_leaderID s"
  "snd (refreshLeaderState s) = (rf_state (bs_rf s) = Leader)"
  by (auto simp: refreshLeaderState_def Let_def GetState_def)

lemma broker_exec_refresh: "broker_exec (BRefresh (rf_state (bs_rf s) = Leader)) s = fst (refreshLeaderState s)"
  by (simp add: refreshLeaderState_def Let_def GetState_def)

lemma poll_simps [simp]:
  "bs_submitted (fst (Poll_locked now req s)) = bs_submitted s"
  "bs_submittedOrder (fst (Poll_locked now req s)) = bs_submittedOrder s"
  "bs_done (fst (Poll_locked now req s)) = bs_done s" "bs_errors (fst (Poll_locked now req s)) = bs_errors s"
  "bs_pendingOps (fst (Poll_locked now req s)) = bs_pendingOps s" "bs_ops (fst (Poll_locked now req s)) = bs_ops s"
  "bs_rf (fst (Poll_locked now req s)) = bs_rf s"
  by (auto simp: Poll_locked_def Let_def split: option.splits)

lemma beat_simps [simp]:
  "bs_submitted (Heartbeat_locked now req s) = bs_submitted s"
  "bs_submittedOrder (Heartbeat_locked now req s) = bs_submittedOrder s"
  "bs_done (Heartbeat_locked now req s) = bs_done s" "bs_errors (Heartbeat_locked now req s) = bs_errors s"
  "bs_pendingOps (Heartbeat_locked now req s) = bs_pendingOps s" "bs_ops (Heartbeat_locked now req s) = bs_ops s"
  by (auto simp: Heartbeat_locked_def split: option.splits)

lemma board_ok_cong:
  "bs_submitted t = bs_submitted s \<Longrightarrow> bs_submittedOrder t = bs_submittedOrder s \<Longrightarrow> bs_done t = bs_done s \<Longrightarrow>
     bs_errors t = bs_errors s \<Longrightarrow> board_ok t \<longleftrightarrow> board_ok s"
  by (simp add: board_ok_def)

lemma board_ok_exec: "board_ok s \<Longrightarrow> board_ok (broker_exec e s)"
proof (cases e)
  case (BApply m)
  assume "board_ok s"
  then show ?thesis using BApply board_ok_command
    by (simp add: apply_message_def board_ok_cong [of "wake_waiter m _"])
qed (auto simp: board_ok_def drop_stalled_def register_op_def forget_op_def)

lemma poll_scan_Some:
  "poll_scan s is = Some i \<Longrightarrow> i \<in> set is \<and> \<not> is_done s i \<and> bs_inflight s i = None"
  by (induction "is") (auto split: if_splits)

lemma is_done_cong: "bs_done t = bs_done s \<Longrightarrow> is_done t = is_done s"
  by (simp add: is_done_def fun_eq_iff)

lemma flights_ok_command:
  assumes "board_ok s" and "flights_ok s"
  shows "flights_ok (apply_command cmd s)"
proof -
  have "map_string ((bs_submitted s)(j \<mapsto> d)) i = map_string (bs_submitted s) i"
    if "bs_submitted s j = None" "i \<in> set (bs_submittedOrder s)" for i j d
    using that assms(1) by (auto simp: board_ok_def map_string_def)
  then show ?thesis
    using assms(2) by (auto simp: flights_ok_def apply_command_def is_done_def split: prod.splits if_splits)
qed

lemma flights_ok_exec:
  assumes "board_ok s" and "flights_ok s"
  shows "flights_ok (broker_exec e s)"
proof (cases e)
  case (BApply m)
  then show ?thesis
    using flights_ok_command [OF assms, of "am_Command m"]
    by (simp add: apply_message_def flights_ok_def is_done_def)
next
  case (BRefresh b)
  then show ?thesis using assms(2)
    by (auto simp: flights_ok_def note_leadership_def Let_def is_done_def split: if_splits)
next
  case (BPoll now req)
  then show ?thesis using assms(2) poll_scan_Some [of s "bs_submittedOrder s"]
    by (auto simp: flights_ok_def Poll_locked_def Let_def is_done_def split: option.splits if_splits)
next
  case (BBeat now req)
  then show ?thesis using assms(2)
    by (auto simp: flights_ok_def Heartbeat_locked_def is_done_def split: option.splits if_splits)
next
  case (BStalled now)
  then show ?thesis using assms(2)
    by (auto simp: flights_ok_def drop_stalled_def is_done_def split: option.splits if_splits)
qed (use assms(2) in \<open>auto simp: flights_ok_def is_done_def register_op_def forget_op_def\<close>)

lemma ops_ok_exec:
  assumes "ops_ok s"
  shows "ops_ok (broker_exec e s)"
proof (cases e)
  case (BApply m)
  show ?thesis
  proof (cases "bs_pendingOps s (am_Index m)")
    case None
    then show ?thesis using assms BApply by (simp add: ops_ok_def apply_message_def wake_waiter_def)
  next
    case (Some a)
    have "b \<noteq> a" if "bs_pendingOps s n = Some b" "n \<noteq> am_Index m" for n b
      using assms Some that by (auto simp: ops_ok_def)
    then show ?thesis using assms BApply Some by (simp add: ops_ok_def apply_message_def wake_waiter_def)
      (metis nth_list_update_neq)
  qed
next
  case (BRegister n t)
  then show ?thesis using assms by (auto simp: ops_ok_def register_op_def nth_append intro: less_SucI)
qed (use assms in \<open>auto simp: ops_ok_def drop_stalled_def forget_op_def\<close>)

lemma broker_ok_exec [wf_intros]: "broker_ok s \<Longrightarrow> broker_ok (broker_exec e s)"
  by (simp add: broker_ok_def board_ok_exec flights_ok_exec ops_ok_exec)

lemma broker_ok_run [wf_intros]: "broker_ok s \<Longrightarrow> broker_ok (broker_run es s)"
  by (induction es arbitrary: s) (simp_all add: broker_ok_exec)

lemma broker_ok_new: "newBrokerServer r dial i cfg = Some s \<Longrightarrow> broker_ok s"
  by (auto simp: newBrokerServer_def broker_ok_def board_ok_def flights_ok_def ops_ok_def)


section \<open>The replicated state as a task board\<close>

text \<open>
  The specification of the replicated part: the tasks in the order in which they were
  first submitted, and the result of each completed task (the last one wins).
\<close>

record TaskBoard =
  tb_tasks :: "(string \<times> string) list"
  tb_results :: "string \<rightharpoonup> string"

definition board_empty :: TaskBoard where
  "board_empty = \<lparr>tb_tasks = [], tb_results = Map.empty\<rparr>"

fun board_step :: "string \<times> string \<times> string \<Rightarrow> TaskBoard \<Rightarrow> TaskBoard" where
  "board_step (op, i, d) b =
     (if op = ''submit'' then
        (if i \<in> fst ` set (tb_tasks b) then b else b\<lparr>tb_tasks := tb_tasks b @ [(i, d)]\<rparr>)
      else if op = ''complete'' then b\<lparr>tb_results := (tb_results b)(i \<mapsto> d)\<rparr>
      else b)"

definition board_run :: "ApplyMsg list \<Rightarrow> TaskBoard" where
  "board_run ms = fold (\<lambda>m. board_step (decodeCommand (am_Command m))) ms board_empty"

definition board_of :: "brokerServer \<Rightarrow> TaskBoard" where
  "board_of s = \<lparr>tb_tasks = map (\<lambda>i. (i, map_string (bs_submitted s) i)) (bs_submittedOrder s),
     tb_results = (\<lambda>i. if is_done s i then Some (map_string (bs_errors s) i) else None)\<rparr>"

lemma board_of_command:
  assumes "board_ok s"
  shows "board_of (apply_command cmd s) = board_step (decodeCommand cmd) (board_of s)"
proof -
  obtain op i d where dec: "decodeCommand cmd = (op, i, d)" by (cases "decodeCommand cmd") auto
  have new: "map_string ((bs_submitted s)(i \<mapsto> d)) j = map_string (bs_submitted s) j"
    if "j \<in> set (bs_submittedOrder s)" "bs_submitted s i = None" for j
    using that assms by (auto simp: board_ok_def map_string_def)
  have "i \<in> set (bs_submittedOrder s) \<longleftrightarrow> bs_submitted s i \<noteq> None" using assms by (auto simp: board_ok_def)
  then show ?thesis
    using new by (auto simp: apply_command_def board_of_def dec is_done_def map_string_def image_image fun_eq_iff)
qed

lemma board_of_exec:
  assumes "board_ok s"
  shows "board_of (broker_exec e s) =
    (case e of BApply m \<Rightarrow> board_step (decodeCommand (am_Command m)) (board_of s) | _ \<Rightarrow> board_of s)"
proof (cases e)
  case (BApply m)
  have "board_of (wake_waiter m u) = board_of u" for u by (simp add: board_of_def is_done_def fun_eq_iff)
  then show ?thesis using BApply board_of_command [OF assms] by (simp add: apply_message_def)
qed (simp_all add: board_of_def is_done_def drop_stalled_def register_op_def forget_op_def fun_eq_iff)

fun applied_by :: "broker_event list \<Rightarrow> ApplyMsg list" where
  "applied_by [] = []"
| "applied_by (BApply m # es) = m # applied_by es"
| "applied_by (_ # es) = applied_by es"

lemma set_applied_by: "m \<in> set (applied_by es) \<longleftrightarrow> BApply m \<in> set es"
  by (induction es rule: applied_by.induct) auto

lemma board_of_run:
  "board_ok s \<Longrightarrow> board_of (broker_run es s) =
     fold (\<lambda>m. board_step (decodeCommand (am_Command m))) (applied_by es) (board_of s)"
  by (induction es arbitrary: s rule: applied_by.induct)
    (simp_all add: board_ok_exec board_of_exec [where e = "BApply _"] board_of_exec del: broker_exec.simps)

lemma board_of_new: "newBrokerServer r dial i cfg = Some s \<Longrightarrow> board_of s = board_empty"
  by (auto simp: newBrokerServer_def board_of_def board_empty_def is_done_def)

text \<open>More messages only extend the board.\<close>

definition board_extends :: "TaskBoard \<Rightarrow> TaskBoard \<Rightarrow> bool" where
  "board_extends b c \<longleftrightarrow> (\<exists>ts. tb_tasks c = tb_tasks b @ ts) \<and> dom (tb_results b) \<subseteq> dom (tb_results c)"

lemma board_extends_refl [simp]: "board_extends b b"
  by (simp add: board_extends_def)

lemma board_extends_trans: "board_extends a b \<Longrightarrow> board_extends b c \<Longrightarrow> board_extends a c"
  unfolding board_extends_def by (metis append.assoc subset_trans)

lemma board_step_extends: "board_extends b (board_step c b)"
  by (cases c) (auto simp: board_extends_def)

lemma board_fold_extends:
  "board_extends b (fold (\<lambda>m. board_step (decodeCommand (am_Command m))) ms b)"
  by (induction ms arbitrary: b) (auto intro: board_extends_trans board_step_extends)

lemma board_run_append:
  "board_run (ms @ ns) = fold (\<lambda>m. board_step (decodeCommand (am_Command m))) ns (board_run ms)"
  by (simp add: board_run_def)

lemma board_run_extends: "board_extends (board_run ms) (board_run (ms @ ns))"
  by (simp add: board_run_append board_fold_extends)

section \<open>The queue of pending tasks\<close>

text \<open>\<open>pending\<close> is the derived view of the package comment: submitted, not done, not in flight.\<close>

definition pending :: "brokerServer \<Rightarrow> string list" where
  "pending s = filter (\<lambda>i. \<not> is_done s i \<and> bs_inflight s i = None) (bs_submittedOrder s)"

text \<open>A source of work items: taking removes exactly the first pending item.\<close>

locale work_queue =
  fixes items :: "'s \<Rightarrow> 'i list" and take_item :: "'s \<Rightarrow> 's" and taken :: "'s \<Rightarrow> 'i option" and ok :: "'s \<Rightarrow> bool"
  assumes taken_items: "ok s \<Longrightarrow> taken s = (case items s of [] \<Rightarrow> None | i # is \<Rightarrow> Some i)"
    and items_take: "ok s \<Longrightarrow> items (take_item s) = tl (items s)"
    and ok_take: "ok s \<Longrightarrow> ok (take_item s)"
begin

lemma ok_takes: "ok s \<Longrightarrow> ok ((take_item ^^ n) s)"
  by (induction n) (simp_all add: ok_take)

lemma items_takes: "ok s \<Longrightarrow> items ((take_item ^^ n) s) = drop n (items s)"
proof (induction n)
  case (Suc n)
  then show ?case by (simp add: items_take ok_takes drop_Suc tl_drop)
qed simp

text \<open>The \<open>n\<close>-th call returns the \<open>n\<close>-th item: everything is handed out, once, in order.\<close>

lemma taken_takes:
  assumes "ok s"
  shows "taken ((take_item ^^ n) s) = (if n < length (items s) then Some (items s ! n) else None)"
  using taken_items [OF ok_takes [OF assms]] items_takes [OF assms, of n]
  by (cases "n < length (items s)") (auto simp: Cons_nth_drop_Suc [symmetric])

end

lemma poll_scan_pending:
  "poll_scan s ids = (case filter (\<lambda>i. \<not> is_done s i \<and> bs_inflight s i = None) ids of
     [] \<Rightarrow> None | i # _ \<Rightarrow> Some i)"
  by (induction ids) auto

lemma pending_poll:
  assumes "distinct (bs_submittedOrder s)"
  shows "pending (fst (Poll_locked now req s)) = tl (pending s)"
proof (cases "pending s")
  case Nil
  then show ?thesis by (simp add: Poll_locked_def poll_scan_pending pending_def)
next
  case (Cons i rest)
  have "distinct (pending s)" using assms by (simp add: pending_def)
  then have "i \<notin> set rest" using Cons by simp
  have "poll_scan s (bs_submittedOrder s) = Some i" using Cons by (simp add: poll_scan_pending pending_def)
  then obtain e where "bs_inflight (fst (Poll_locked now req s)) = (bs_inflight s)(i \<mapsto> e)"
    by (simp add: Poll_locked_def Let_def)
  then have "pending (fst (Poll_locked now req s)) = filter (\<lambda>j. j \<noteq> i) (pending s)"
    by (auto simp: pending_def is_done_def intro!: filter_cong)
  also have "\<dots> = rest" using Cons \<open>i \<notin> set rest\<close> by (auto intro: filter_True)
  finally show ?thesis using Cons by simp
qed

definition poll_taken :: "int \<Rightarrow> PollRequest \<Rightarrow> brokerServer \<Rightarrow> string option" where
  "poll_taken now req s = map_option tk_Id (pr_Task (snd (Poll_locked now req s)))"

interpretation pq: work_queue pending "\<lambda>s. fst (Poll_locked now req s)" "poll_taken now req" broker_ok for now req
proof
  fix s
  assume ok: "broker_ok s"
  show "poll_taken now req s = (case pending s of [] \<Rightarrow> None | i # is \<Rightarrow> Some i)"
    by (simp add: poll_taken_def Poll_locked_def poll_scan_pending pending_def Let_def split: list.split)
  show "pending (fst (Poll_locked now req s)) = tl (pending s)"
    using ok by (intro pending_poll) (simp add: broker_ok_def board_ok_def)
  show "broker_ok (fst (Poll_locked now req s))" using broker_ok_exec [OF ok, of "BPoll now req"] by simp
qed


section \<open>Proposals\<close>

text \<open>
  While the server runs on, the object registered at \<open>index\<close> stays reachable from that
  index only; it is closed only by an applied message with that index, whose term it takes.
\<close>

definition op_tracks :: "nat \<Rightarrow> int \<Rightarrow> int \<Rightarrow> ApplyMsg set \<Rightarrow> brokerServer \<Rightarrow> bool" where
  "op_tracks a index term ms s \<longleftrightarrow> a < length (bs_ops s) \<and>
     (\<forall>n. bs_pendingOps s n = Some a \<longrightarrow> n = index) \<and>
     (\<forall>n b. bs_pendingOps s n = Some b \<longrightarrow> b < length (bs_ops s)) \<and>
     (po_closed (bs_ops s ! a) \<longrightarrow> (\<exists>m \<in> ms. am_Index m = index \<and> po_term (bs_ops s ! a) = am_Term m))"

lemma op_tracks_register:
  assumes "ops_ok s"
  shows "op_tracks (length (bs_ops s)) index term ms (register_op index term s)"
  using assms by (auto simp: op_tracks_def register_op_def ops_ok_def nth_append intro: less_SucI)

lemma op_tracks_mono: "op_tracks a n t ms s \<Longrightarrow> ms \<subseteq> ms' \<Longrightarrow> op_tracks a n t ms' s"
  by (auto simp: op_tracks_def)

lemma op_tracks_exec:
  assumes tr: "op_tracks a index term ms s"
  shows "op_tracks a index term (ms \<union> set (applied_by [e])) (broker_exec e s)"
proof (cases e)
  case (BApply m)
  show ?thesis
  proof (cases "bs_pendingOps s (am_Index m)")
    case None
    then show ?thesis using tr BApply by (auto simp: op_tracks_def apply_message_def wake_waiter_def)
  next
    case (Some b)
    let ?t = "broker_exec e s" and ?o = "\<lparr>po_term = am_Term m, po_closed = True\<rparr>"
    have t: "bs_ops ?t = (bs_ops s)[b := ?o]" "bs_pendingOps ?t = (bs_pendingOps s)(am_Index m := None)"
      using BApply Some by (simp_all add: apply_message_def wake_waiter_def)
    have "\<exists>m' \<in> ms \<union> {m}. am_Index m' = index \<and> po_term ((bs_ops s)[b := ?o] ! a) = am_Term m'"
      if "po_closed ((bs_ops s)[b := ?o] ! a)"
    proof (cases "b = a")
      case True
      then have "b < length (bs_ops s)" "am_Index m = index" using tr Some by (auto simp: op_tracks_def)
      then show ?thesis using True by (intro bexI [of _ m]) simp_all
    next
      case False
      then show ?thesis using tr that by (auto simp: op_tracks_def)
    qed
    then show ?thesis using tr BApply unfolding op_tracks_def t by (simp split: if_splits)
  qed
next
  case (BRegister n t)
  then show ?thesis
    using tr by (auto simp: op_tracks_def register_op_def nth_append intro: less_SucI)
qed (use tr in \<open>auto simp: op_tracks_def drop_stalled_def forget_op_def\<close>)

lemma applied_by_Cons: "set (applied_by (e # es)) = set (applied_by [e]) \<union> set (applied_by es)"
  by (cases e) auto

lemma op_tracks_run:
  "op_tracks a index term ms s \<Longrightarrow> op_tracks a index term (ms \<union> set (applied_by es)) (broker_run es s)"
proof (induction es arbitrary: ms s)
  case (Cons e es)
  from Cons.IH [OF op_tracks_exec [OF Cons.prems, of e]] show ?case
    by (simp only: broker_run_simps applied_by_Cons [of e es] Un_assoc)
qed simp

text \<open>
  A proposal that reports success was answered by an applied message with the index and
  the term that \<open>Start\<close> returned.
\<close>

lemma propose_success:
  assumes p: "proposeAndWait (broker_run es1) (broker_run es2) timedOut cmd s = Inr (s', True)"
    and ok: "ops_ok s"
  obtains rf' index tm peers m where "Start cmd (bs_rf s) = Inr (rf', (index, tm, True), peers)"
    "s' = broker_run (es1 @ BRegister index tm # es2) (s\<lparr>bs_rf := rf'\<rparr>)"
    "BApply m \<in> set es2" "am_Index m = index" "am_Term m = tm"
proof -
  from p obtain rf' index tm isLeader peers where
    st: "Start cmd (bs_rf s) = Inr (rf', (index, tm, isLeader), peers)"
    by (auto simp: proposeAndWait_def go_bind_Inr_iff)
  let ?s1 = "broker_run es1 (s\<lparr>bs_rf := rf'\<rparr>)"
  let ?a = "length (bs_ops ?s1)"
  let ?s2 = "broker_run es2 (register_op index tm ?s1)"
  have ld: "isLeader" "po_closed (bs_ops ?s2 ! ?a)" "po_term (bs_ops ?s2 ! ?a) = tm" "s' = ?s2"
    using p st by (auto simp: proposeAndWait_def Let_def split: if_splits)
  have "ops_ok (s\<lparr>bs_rf := rf'\<rparr>)" using ok by (simp add: ops_ok_def)
  then have ok1: "ops_ok ?s1" by (induction es1 arbitrary: s rf' rule: rev_induct) (simp_all add: ops_ok_exec)
  from op_tracks_run [OF op_tracks_register [OF ok1, of index tm "{}"], of es2] ld(2,3) obtain m where
    "m \<in> set (applied_by es2)" "am_Index m = index" "am_Term m = tm"
    by (auto simp: op_tracks_def)
  then show thesis using that [OF _ _ _ _ _] st ld by (auto simp: set_applied_by)
qed

text \<open>Once applied, a submission stays on the board and a completion stays done.\<close>

lemma board_extends_run:
  "board_ok s \<Longrightarrow> board_extends (board_of s) (board_of (broker_run es s))"
  by (simp add: board_of_run board_fold_extends)

lemma board_ok_run: "board_ok s \<Longrightarrow> board_ok (broker_run es s)"
  by (induction es arbitrary: s) (simp_all add: board_ok_exec del: broker_exec.simps)

lemma applied_in_board:
  assumes "m \<in> set ms" and "decodeCommand (am_Command m) = command_fields c"
  shows "case c of CSubmit i d \<Rightarrow> i \<in> fst ` set (tb_tasks (fold (\<lambda>m. board_step (decodeCommand (am_Command m))) ms b))
    | CComplete i d \<Rightarrow> i \<in> dom (tb_results (fold (\<lambda>m. board_step (decodeCommand (am_Command m))) ms b))"
proof -
  let ?f = "\<lambda>m. board_step (decodeCommand (am_Command m))"
  obtain xs ys where ms: "ms = xs @ m # ys" using assms(1) by (meson split_list)
  let ?b1 = "?f m (fold ?f xs b)"
  have "fold ?f ms b = fold ?f ys ?b1" by (simp add: ms)
  then have "board_extends ?b1 (fold ?f ms b)" using board_fold_extends by simp
  moreover have "case c of CSubmit i d \<Rightarrow> i \<in> fst ` set (tb_tasks ?b1) | CComplete i d \<Rightarrow> i \<in> dom (tb_results ?b1)"
    using assms(2) by (cases c) auto
  ultimately show ?thesis by (cases c) (auto simp: board_extends_def)
qed

end
