(* ===== verification/Broker_Theorems.thy ===== *)
theory Broker_Theorems
  imports Broker_Proofs Raft_Steps
begin

text \<open>
  The theorems about one broker server: its command format, its replicated state against
  the task board, the scheduling of tasks and its error answers.
\<close>

section \<open>Commands\<close>

text \<open>A task identifier with a colon makes the command a no-op: it decodes to nothing, and applying it
  leaves every server as it is.\<close>

lemma colon_id_ignored:
  assumes "CHR '':'' \<in> set i"
  shows "decodeCommand (encodeSubmit i d) = ('''', '''', '''') \<and> decodeCommand (encodeComplete i d) = ('''', '''', '''') \<and>
    apply_command (encodeComplete i d) s = s"
proof -
  have "decodeCommand (encodeSubmit i d) = ('''', '''', '''')" "decodeCommand (encodeComplete i d) = ('''', '''', '''')"
    using decode_colon_id [OF _ assms, of "''submit''" d] decode_colon_id [OF _ assms, of "''complete''" d]
    by (simp_all add: encodeSubmit_def encodeComplete_def)
  then show ?thesis by (simp add: apply_command_def)
qed

text \<open>C25 The command format round-trips exactly for task identifiers without a colon: then what
  \<open>encodeSubmit\<close> and \<open>encodeComplete\<close> write is read back by \<open>decodeCommand\<close>, whatever
  bytes the payload or the error message holds; with a colon in the identifier both
  decode to nothing, and applying the completion leaves every server as it is.\<close>

theorem command_roundtrip:
  "(CHR '':'' \<notin> set i \<longrightarrow> decodeCommand (encodeSubmit i d) = (''submit'', i, d) \<and>
      decodeCommand (encodeComplete i d) = (''complete'', i, d)) \<and>
   (CHR '':'' \<in> set i \<longrightarrow> decodeCommand (encodeSubmit i d) = ('''', '''', '''') \<and>
      decodeCommand (encodeComplete i d) = ('''', '''', '''') \<and> apply_command (encodeComplete i d) s = s)"
  using cmds.decode_encode [of "CSubmit i d"] cmds.decode_encode [of "CComplete i d"] colon_id_ignored [of i d s] by simp

theorem command_roundtrip_witness:
  "decodeCommand (encodeSubmit ''t1'' ''a:b:c'') = (''submit'', ''t1'', ''a:b:c'') \<and>
   decodeCommand (encodeComplete ''t:1'' ''boom'') = ('''', '''', '''')"
  using command_roundtrip [of "''t1''" "''a:b:c''"] command_roundtrip [of "''t:1''" "''boom''"] by simp

section \<open>Replicated state\<close>

text \<open>C20 The replicated maps implement the task board: after any interleaving of handlers, scans
  and applied messages, a server that started empty shows exactly the board that the
  applied messages alone, in order, produce.\<close>

theorem board_refinement:
  assumes "newBrokerServer r dial i cfg = Some s"
  shows "board_of (broker_run es s) = board_run (applied_by es)"
  using board_of_run [of s es] board_of_new [OF assms] broker_ok_new [OF assms]
  by (simp add: board_run_def broker_ok_def)

definition demo_server :: brokerServer where
  "demo_server = (case newBrokerServer 0 (\<lambda>_. True) 0
       \<lparr>cc_Nodes = [\<lparr>nc_ID = 0, nc_ClientAddr = ''A'', nc_PeerAddr = ''a''\<rparr>,
          \<lparr>nc_ID = 1, nc_ClientAddr = ''B'', nc_PeerAddr = ''b''\<rparr>,
          \<lparr>nc_ID = 2, nc_ClientAddr = ''C'', nc_PeerAddr = ''c''\<rparr>]\<rparr> of
     Some s \<Rightarrow> s\<lparr>bs_rf := (bs_rf s)\<lparr>rf_state := Leader\<rparr>\<rparr> | None \<Rightarrow> undefined)"

lemmas server_defs = newBrokerServer_def New_def Peers_def Resume_def resetElectionTimer_def
  SetPeerClient_def NewPaused_def Let_def

lemma demo_server_new:
  "newBrokerServer 0 (\<lambda>_. True) 0
     \<lparr>cc_Nodes = [\<lparr>nc_ID = 0, nc_ClientAddr = ''A'', nc_PeerAddr = ''a''\<rparr>,
        \<lparr>nc_ID = 1, nc_ClientAddr = ''B'', nc_PeerAddr = ''b''\<rparr>,
        \<lparr>nc_ID = 2, nc_ClientAddr = ''C'', nc_PeerAddr = ''c''\<rparr>]\<rparr> =
   Some (demo_server\<lparr>bs_rf := (bs_rf demo_server)\<lparr>rf_state := Follower\<rparr>\<rparr>)"
  by (simp add: demo_server_def server_defs)

lemma demo_server_fields [simp]:
  "bs_submitted demo_server = Map.empty" "bs_submittedOrder demo_server = []" "bs_done demo_server = Map.empty"
  "bs_errors demo_server = Map.empty" "bs_inflight demo_server = Map.empty" "bs_pendingOps demo_server = Map.empty"
  "bs_wasLeader demo_server = False" "rf_state (bs_rf demo_server) = Leader" "bs_id demo_server = 0"
  "bs_leaderID demo_server = - 1" "bs_ops demo_server = []"
  by (simp_all add: demo_server_def server_defs)

definition demo_msgs :: "ApplyMsg list" where
  "demo_msgs = [\<lparr>am_Index = 1, am_Term = 1, am_Command = ''noop''\<rparr>,
     \<lparr>am_Index = 2, am_Term = 1, am_Command = encodeSubmit ''t1'' ''p1''\<rparr>,
     \<lparr>am_Index = 3, am_Term = 1, am_Command = encodeSubmit ''t2'' ''p2''\<rparr>,
     \<lparr>am_Index = 4, am_Term = 1, am_Command = encodeComplete ''t1'' ''''\<rparr>]"

definition demo_loaded :: brokerServer where
  "demo_loaded = broker_applyLoop demo_msgs demo_server"

lemma demo_ok: "broker_ok demo_server"
  using broker_ok_exec [OF broker_ok_new [OF demo_server_new], of "BRaft (bs_rf demo_server)"] by simp

lemma demo_loaded_run: "demo_loaded = broker_run (map BApply demo_msgs) demo_server"
  by (simp add: demo_loaded_def broker_applyLoop_def demo_msgs_def)

lemma demo_loaded_fields [simp]:
  "bs_submittedOrder demo_loaded = [''t1'', ''t2'']" "bs_submitted demo_loaded = [''t1'' \<mapsto> ''p1'', ''t2'' \<mapsto> ''p2'']"
  "bs_done demo_loaded = [''t1'' \<mapsto> True]" "bs_errors demo_loaded = [''t1'' \<mapsto> '''']" "bs_inflight demo_loaded = Map.empty"
  "rf_state (bs_rf demo_loaded) = Leader" "bs_wasLeader demo_loaded = False" "bs_id demo_loaded = 0"
  by (simp_all add: demo_loaded_def broker_applyLoop_def demo_msgs_def apply_message_def wake_waiter_def
      apply_command_def fun_eq_iff)

lemma demo_loaded_ok: "broker_ok demo_loaded"
  unfolding demo_loaded_run by (rule broker_ok_run [OF demo_ok])

theorem board_refinement_witness:
  "tb_tasks (board_of (broker_run (map BApply demo_msgs)
     (demo_server\<lparr>bs_rf := (bs_rf demo_server)\<lparr>rf_state := Follower\<rparr>\<rparr>))) = [(''t1'', ''p1''), (''t2'', ''p2'')]"
proof -
  have "tb_tasks (board_run (applied_by (map BApply demo_msgs))) = [(''t1'', ''p1''), (''t2'', ''p2'')]"
    by (simp add: demo_msgs_def board_run_def board_empty_def)
  then show ?thesis by (simp only: board_refinement [OF demo_server_new])
qed

text \<open>C21 The invariant of a server holds from start-up through every interleaving of its
  handlers, background scans and applied messages: \<open>submittedOrder\<close> lists every submitted
  task once, a task in flight is submitted and not done and carries its own payload, and
  every registered proposal is an open object of its own.\<close>

theorem server_invariant:
  assumes "newBrokerServer r dial i cfg = Some s"
  shows "broker_ok (broker_run es s)"
  by (rule broker_ok_run [OF broker_ok_new [OF assms]])

theorem server_invariant_witness:
  "broker_ok (broker_run [BRefresh True, BPoll 5 \<lparr>pq_WorkerId = ''w''\<rparr>]
     (demo_server\<lparr>bs_rf := (bs_rf demo_server)\<lparr>rf_state := Follower\<rparr>\<rparr>))"
  using server_invariant [OF demo_server_new] by blast

text \<open>Results are final and truthful: \<open>GetResult\<close> reports a task as done exactly when the board
  has a result for it, and then returns that result; once reported done, a task is
  reported done ever after.\<close>

lemma results_final:
  assumes "broker_ok s"
  shows "(gr_Done (GetResult req s) \<longleftrightarrow> tb_results (board_of s) (gq_TaskId req) \<noteq> None) \<and>
    (gr_Done (GetResult req s) \<longrightarrow> tb_results (board_of s) (gq_TaskId req) = Some (gr_Error (GetResult req s)) \<and>
       gr_Done (GetResult req (broker_run es s)))"
proof -
  have iff: "gr_Done (GetResult req u) \<longleftrightarrow> tb_results (board_of u) (gq_TaskId req) \<noteq> None" for u
    by (simp add: GetResult_def board_of_def)
  have "board_extends (board_of s) (board_of (broker_run es s))"
    using assms by (intro board_extends_run) (simp add: broker_ok_def)
  then have "gr_Done (GetResult req s) \<Longrightarrow> gr_Done (GetResult req (broker_run es s))"
    unfolding iff by (auto simp: board_extends_def)
  moreover have "gr_Done (GetResult req s) \<Longrightarrow>
      tb_results (board_of s) (gq_TaskId req) = Some (gr_Error (GetResult req s))"
    by (auto simp: GetResult_def board_of_def split: if_splits)
  ultimately show ?thesis using iff by blast
qed

section \<open>Scheduling\<close>

text \<open>C22 \<open>Poll\<close> on the leader serves the pending tasks in submission order: it answers with the
  first task that is submitted, not done and not in flight, with its payload, moves it in
  flight under the caller's name, and leaves the other pending tasks as they are; it says
  that there is no task exactly when nothing is pending.\<close>

theorem poll_serves_first:
  assumes "broker_ok s" and "rf_state (bs_rf s) = Leader"
  shows "\<exists>s' resp. Poll now req s = Inr (s', resp) \<and> pr_RedirectAddr resp = '''' \<and>
    (let before = pending (fst (refreshLeaderState s))
     in pending s' = tl before \<and> pr_HasTask resp = (before \<noteq> []) \<and>
        (before = [] \<longrightarrow> pr_Task resp = None \<and> s' = fst (refreshLeaderState s)) \<and>
        (before \<noteq> [] \<longrightarrow> pr_Task resp = Some \<lparr>tk_Id = hd before, tk_Payload = map_string (bs_submitted s) (hd before)\<rparr> \<and>
           map_option ife_workerID (bs_inflight s' (hd before)) = Some (pq_WorkerId req) \<and>
           map_option ife_lastHeartbeat (bs_inflight s' (hd before)) = Some now))"
proof -
  let ?s1 = "fst (refreshLeaderState s)"
  have ok: "broker_ok ?s1" 
    using broker_ok_exec [OF assms(1), of "BRefresh (rf_state (bs_rf s) = Leader)"] unfolding broker_exec_refresh .
  have poll: "Poll now req s = Inr (Poll_locked now req ?s1)"
    using assms(2) refresh_simps(11) [of s]
    by (cases "refreshLeaderState s") (simp add: Poll_def)
  have tl: "pending (fst (Poll_locked now req ?s1)) = tl (pending ?s1)" by (rule pq.items_take [OF ok])
  have "poll_scan ?s1 (bs_submittedOrder ?s1) = (case pending ?s1 of [] \<Rightarrow> None | i # _ \<Rightarrow> Some i)"
    by (simp add: poll_scan_pending pending_def)
  then show ?thesis
    using poll tl by (cases "pending ?s1") (auto simp: Poll_locked_def Let_def)
qed

theorem poll_serves_first_witness:
  "\<exists>s' resp. Poll 7 \<lparr>pq_WorkerId = ''w''\<rparr> demo_loaded = Inr (s', resp) \<and>
     pr_Task resp = Some \<lparr>tk_Id = ''t2'', tk_Payload = ''p2''\<rparr> \<and> pending s' = []"
proof -
  have "pending (fst (refreshLeaderState demo_loaded)) = [''t2'']"
    by (simp add: pending_def is_done_def refreshLeaderState_def note_leadership_def Let_def GetState_def)
  then show ?thesis
    using poll_serves_first [OF demo_loaded_ok, of 7 "\<lparr>pq_WorkerId = ''w''\<rparr>"]
    by (auto simp: map_string_def)
qed

text \<open>No task is handed out twice and none is forgotten: when workers poll a leader again and
  again with nothing else happening, the \<open>n\<close>-th answer is the \<open>n\<close>-th pending task, until
  every pending task is in flight.\<close>

lemma poll_serves_all:
  assumes "broker_ok s"
  shows "map_option tk_Id (pr_Task (snd (Poll_locked now req (((\<lambda>s. fst (Poll_locked now req s)) ^^ n) s)))) =
    (if n < length (pending s) then Some (pending s ! n) else None)"
  using pq.taken_takes [OF assms, of now req n] by (simp add: poll_taken_def)

text \<open>C23 The scan for stalled tasks is exact, on every server: on a node that is not the leader
  it only notes that, and changes nothing in flight; on a node that leads and had not yet
  noticed it empties the scheduling state, so that every submitted task without a result is
  pending; and on a leader that has noticed before, it keeps a task in flight exactly when
  its last heartbeat is at most \<open>TaskTimeout\<close> old, so that the pending tasks are those that
  were pending and those in flight that were silent for longer. The replicated board is
  untouched in every case.\<close>

theorem stalled_scan_exact:
  fixes s :: brokerServer and now :: "string \<Rightarrow> int"
  defines "lead \<equiv> rf_state (bs_rf s) = Leader" and "t \<equiv> checkStalledTasks now s"
  assumes "broker_ok s"
  shows "board_of t = board_of s \<and> bs_wasLeader t = lead \<and> (\<not> lead \<longrightarrow> bs_inflight t = bs_inflight s) \<and>
    (lead \<and> \<not> bs_wasLeader s \<longrightarrow> bs_inflight t = Map.empty \<and>
       pending t = filter (\<lambda>i. \<not> is_done s i) (bs_submittedOrder s)) \<and>
    (lead \<and> bs_wasLeader s \<longrightarrow>
       (\<forall>i. bs_inflight t i = (case bs_inflight s i of
           Some e \<Rightarrow> if now i - ife_lastHeartbeat e \<le> TaskTimeout then Some e else None | None \<Rightarrow> None)) \<and>
       (\<forall>i. i \<in> set (pending t) \<longleftrightarrow> i \<in> set (pending s) \<or>
          (\<exists>e. bs_inflight s i = Some e \<and> TaskTimeout < now i - ife_lastHeartbeat e)))"
proof (intro conjI impI allI)
  have refresh: "refreshLeaderState s = (note_leadership lead s, lead)"
    by (simp add: refreshLeaderState_def GetState_def lead_def Let_def)
  have tt: "t = (if lead then drop_stalled now (note_leadership lead s) else note_leadership lead s)"
    by (simp add: t_def checkStalledTasks_def refresh)
  show "board_of t = board_of s"
    by (simp add: tt board_of_def drop_stalled_def is_done_def fun_eq_iff)
  show "bs_wasLeader t = lead" by (simp add: tt drop_stalled_def note_leadership_def Let_def)
  show "bs_inflight t = bs_inflight s" if "\<not> lead" using that by (simp add: tt note_leadership_def)
  show empty: "bs_inflight t = Map.empty" if "lead \<and> \<not> bs_wasLeader s"
    using that by (simp add: tt note_leadership_def Let_def drop_stalled_def)
  have rest: "is_done t i = is_done s i" "bs_submittedOrder t = bs_submittedOrder s" for i
    by (simp_all add: tt drop_stalled_def is_done_def)
  show "pending t = filter (\<lambda>i. \<not> is_done s i) (bs_submittedOrder s)" if "lead \<and> \<not> bs_wasLeader s"
    using empty [OF that] by (simp add: pending_def rest)
  have kept: "bs_inflight t i = (case bs_inflight s i of
        Some e \<Rightarrow> if now i - ife_lastHeartbeat e \<le> TaskTimeout then Some e else None | None \<Rightarrow> None)"
    if "lead \<and> bs_wasLeader s" for i
    using that by (auto simp: tt note_leadership_def Let_def drop_stalled_def split: option.splits)
  show "bs_inflight t i = (case bs_inflight s i of
        Some e \<Rightarrow> if now i - ife_lastHeartbeat e \<le> TaskTimeout then Some e else None | None \<Rightarrow> None)"
    if "lead \<and> bs_wasLeader s" for i by (rule kept [OF that])
  show "i \<in> set (pending t) \<longleftrightarrow> i \<in> set (pending s) \<or>
      (\<exists>e. bs_inflight s i = Some e \<and> TaskTimeout < now i - ife_lastHeartbeat e)" if "lead \<and> bs_wasLeader s" for i
  proof -
    have "i \<in> set (bs_submittedOrder s) \<and> \<not> is_done s i" if "bs_inflight s i = Some e" for e
      using assms(3) that by (auto simp: broker_ok_def flights_ok_def)
    then show ?thesis using kept [OF that, of i] by (auto simp: pending_def rest split: option.splits if_splits)
  qed
qed

definition demo_busy :: brokerServer where
  "demo_busy = broker_run [BRefresh True, BPoll 7 \<lparr>pq_WorkerId = ''w''\<rparr>] demo_loaded"

lemma demo_busy_ok: "broker_ok demo_busy"
  unfolding demo_busy_def by (rule broker_ok_run [OF demo_loaded_ok])

lemma demo_busy_fields:
  "bs_inflight demo_busy ''t2'' = Some \<lparr>ife_task = \<lparr>tk_Id = ''t2'', tk_Payload = ''p2''\<rparr>, ife_workerID = ''w'',
     ife_lastHeartbeat = 7\<rparr>" "rf_state (bs_rf demo_busy) = Leader" "bs_wasLeader demo_busy"
  by (simp_all add: demo_busy_def refreshLeaderState_def note_leadership_def Let_def GetState_def Poll_locked_def is_done_def
      map_string_def)

theorem stalled_scan_exact_witness:
  "''t2'' \<in> set (pending (checkStalledTasks (\<lambda>_. 10 * 1000000000 + 8) demo_busy)) \<and>
   bs_inflight (checkStalledTasks (\<lambda>_. 10 * 1000000000 + 7) demo_busy) ''t2'' \<noteq> None \<and>
   pending (checkStalledTasks (\<lambda>_. 9) demo_loaded) = [''t2'']"
  using stalled_scan_exact [OF demo_busy_ok, of "\<lambda>_. 10 * 1000000000 + 8"]
    stalled_scan_exact [OF demo_busy_ok, of "\<lambda>_. 10 * 1000000000 + 7"]
    stalled_scan_exact [OF demo_loaded_ok, of "\<lambda>_. 9"] demo_busy_fields
  by (simp add: TaskTimeout_def is_done_def)

text \<open>Taking over loses no work: when a node notices that it has become leader, every task
  that is submitted and not done is pending again, whatever it had in flight before.\<close>

lemma takeover_resets:
  assumes "rf_state (bs_rf s) = Leader" and "\<not> bs_wasLeader s"
  shows "pending (fst (refreshLeaderState s)) = filter (\<lambda>i. \<not> is_done s i) (bs_submittedOrder s) \<and>
    board_of (fst (refreshLeaderState s)) = board_of s"
  using assms by (simp add: pending_def refreshLeaderState_def note_leadership_def Let_def GetState_def board_of_def is_done_def fun_eq_iff)

section \<open>Redirects and lost answers\<close>

text \<open>
  A server that handles the calls of its peers one after the other: votes, and
  \<open>AppendEntries\<close> requests, each with the sections of other goroutines that run between the
  Raft node's reply and the note of the leader (any of them but another peer call).
\<close>

datatype peer_call =
    PVote int int RequestVoteArgs
  | PAppend int AppendEntriesArgs "broker_event list"

fun board_event :: "broker_event \<Rightarrow> bool" where
  "board_event (BRaft rf) = False"
| "board_event (BLeader l) = False"
| "board_event _ = True"

fun peer_call_ok :: "peer_call \<Rightarrow> bool" where
  "peer_call_ok (PVote r1 r2 req) = True"
| "peer_call_ok (PAppend r req es) = (ae_wf req \<and> (\<forall>e \<in> set es. board_event e))"

fun hears :: "peer_call list \<Rightarrow> brokerServer \<Rightarrow> brokerServer go" where
  "hears [] s = Inr s"
| "hears (PVote r1 r2 req # qs) s = go_bind (broker_RequestVote r1 r2 req s) (\<lambda>(s', _). hears qs s')"
| "hears (PAppend r req es # qs) s = go_bind (broker_AppendEntries (broker_run es) r req s) (\<lambda>(s', _). hears qs s')"

text \<open>
  What it should have noted: the sender of the last \<open>AppendEntries\<close> request whose term was
  not below any term that the node had or saw in a call before.
\<close>

fun last_accepted :: "int \<Rightarrow> int \<Rightarrow> peer_call list \<Rightarrow> int" where
  "last_accepted l t [] = l"
| "last_accepted l t (PVote r1 r2 req # qs) = last_accepted l (max t (rv_Term req)) qs"
| "last_accepted l t (PAppend r req es # qs) =
     (if t \<le> ae_Term req then last_accepted (ae_LeaderId req) (ae_Term req) qs else last_accepted l t qs)"

lemma board_events_keep:
  "\<forall>e \<in> set es. board_event e \<Longrightarrow> bs_rf (broker_run es s) = bs_rf s \<and> bs_cfg (broker_run es s) = bs_cfg s \<and>
     bs_leaderID (broker_run es s) = bs_leaderID s"
proof (induction es arbitrary: s)
  case (Cons e es)
  have "bs_rf (broker_exec e s) = bs_rf s \<and> bs_cfg (broker_exec e s) = bs_cfg s \<and> bs_leaderID (broker_exec e s) = bs_leaderID s"
    using Cons.prems
    by (cases e) (auto simp: Poll_locked_def Heartbeat_locked_def drop_stalled_def register_op_def forget_op_def
        apply_message_def Let_def split: option.splits)
  then show ?case using Cons by (simp del: broker_exec.simps)
qed simp

text \<open>One request: the reply carries its term exactly when the request is not stale.\<close>

lemma AppendEntries_accepted:
  assumes "log_wf (rf_log rf)" and "ae_wf req"
  obtains rf' reply where "AppendEntries r req rf = Inr (rf', reply)" "log_wf (rf_log rf')"
    "aer_Term reply = ae_Term req \<longleftrightarrow> rf_currentTerm rf \<le> ae_Term req"
    "rf_currentTerm rf' = max (rf_currentTerm rf) (ae_Term req)" "role_after rf (ae_Term req) rf'"
proof -
  consider "ae_Term req < rf_currentTerm rf"
    | "rf_currentTerm rf \<le> ae_Term req" "prev_matches req (log_list (rf_log rf))"
    | "rf_currentTerm rf \<le> ae_Term req" "\<not> prev_matches req (log_list (rf_log rf))" by linarith
  then have "\<exists>rf' reply. AppendEntries r req rf = Inr (rf', reply) \<and> log_wf (rf_log rf') \<and>
    (aer_Term reply = ae_Term req \<longleftrightarrow> rf_currentTerm rf \<le> ae_Term req) \<and>
    rf_currentTerm rf' = max (rf_currentTerm rf) (ae_Term req)"
  proof cases
    case 1
    then show ?thesis using assms(1) by (simp add: AppendEntries_stale)
  next
    case 2
    then show ?thesis using AppendEntries_accept [OF assms 2, of r] by fastforce
  next
    case 3
    then show ?thesis using AppendEntries_reject [OF assms 3, of r] assms(1) by (fastforce simp: same_data_def)
  qed
  then show thesis using that AppendEntries_role by blast
qed

lemma hears_run:
  assumes "log_wf (rf_log (bs_rf s))" and "rf_state (bs_rf s) = Follower" and "\<forall>q \<in> set qs. peer_call_ok q"
  shows "\<exists>s'. hears qs s = Inr s' \<and> rf_state (bs_rf s') = Follower \<and> bs_cfg s' = bs_cfg s \<and>
    bs_leaderID s' = last_accepted (bs_leaderID s) (rf_currentTerm (bs_rf s)) qs"
  using assms
proof (induction qs arbitrary: s)
  case (Cons q qs)
  show ?case
  proof (cases q)
    case (PVote r1 r2 req)
    obtain rf' reply where rv: "RequestVote r1 r2 req (bs_rf s) = Inr (rf', reply)"
      using RequestVote_total [OF Cons.prems(1)] by blast
    have "log_wf (rf_log rf')" "rf_state rf' = Follower" "rf_currentTerm rf' = max (rf_currentTerm (bs_rf s)) (rv_Term req)"
      using RequestVote_effect [OF rv Cons.prems(1)] RequestVote_state [OF rv Cons.prems(1)] Cons.prems(1,2)
      by (auto simp: same_data_def)
    then show ?thesis using Cons.IH [of "s\<lparr>bs_rf := rf'\<rparr>"] Cons.prems(3)
      by (simp add: PVote broker_RequestVote_def rv)
  next
    case (PAppend r req es)
    have req: "ae_wf req" "\<forall>e \<in> set es. board_event e" using Cons.prems(3) PAppend by auto
    obtain rf' reply where ae: "AppendEntries r req (bs_rf s) = Inr (rf', reply)" "log_wf (rf_log rf')"
      "aer_Term reply = ae_Term req \<longleftrightarrow> rf_currentTerm (bs_rf s) \<le> ae_Term req"
      "rf_currentTerm rf' = max (rf_currentTerm (bs_rf s)) (ae_Term req)" "role_after (bs_rf s) (ae_Term req) rf'"
      by (rule AppendEntries_accepted [OF Cons.prems(1) req(1), of r])
    let ?s1 = "broker_run es (s\<lparr>bs_rf := rf'\<rparr>)"
    note keep = board_events_keep [OF req(2), of "s\<lparr>bs_rf := rf'\<rparr>"]
    let ?s' = "note_accepted req reply ?s1"
    have run: "broker_AppendEntries (broker_run es) r req s = Inr (?s', reply)"
      by (simp add: broker_AppendEntries_def ae(1))
    have noted: "bs_cfg ?s' = bs_cfg s" "bs_rf ?s' = rf'"
      "bs_leaderID ?s' = (if rf_currentTerm (bs_rf s) \<le> ae_Term req then ae_LeaderId req else bs_leaderID s)"
      using keep ae(3) by (simp_all add: note_accepted_def)
    have "rf_state rf' = Follower" using ae(5) Cons.prems(2) by (simp add: role_after_def)
    then have "\<exists>t. hears qs ?s' = Inr t \<and> rf_state (bs_rf t) = Follower \<and> bs_cfg t = bs_cfg ?s' \<and>
      bs_leaderID t = last_accepted (bs_leaderID ?s') (rf_currentTerm (bs_rf ?s')) qs"
      using Cons.prems(3) ae(2) by (intro Cons.IH) (auto simp: noted)
    then show ?thesis using ae(4) by (auto simp: PAppend run noted max_def)
  qed
qed simp

text \<open>C24 A follower redirects to the leader it accepted last: after any sequence of votes and
  \<open>AppendEntries\<close> requests, handled one after the other with applied messages, polls,
  heartbeats and scans anywhere in between, the noted leader is the sender of the last
  request whose term was not below any term the node had seen before it; a stale request,
  which is rejected, does not change it. \<open>Poll\<close> and \<open>Heartbeat\<close> then change no task and
  answer with the client address of that leader, or with the empty address when it is not
  in the configuration (as when no request has been accepted yet).\<close>

theorem follower_redirects:
  assumes "log_wf (rf_log (bs_rf s))" and "rf_state (bs_rf s) = Follower" and "\<forall>q \<in> set qs. peer_call_ok q"
  shows "\<exists>s'. hears qs s = Inr s' \<and>
    (let l = last_accepted (bs_leaderID s) (rf_currentTerm (bs_rf s)) qs;
         addr = (if 0 \<le> l \<and> l < int (length (cc_Nodes (bs_cfg s))) then nc_ClientAddr (cc_Nodes (bs_cfg s) ! nat l) else '''');
         s1 = fst (refreshLeaderState s')
     in bs_leaderID s' = l \<and>
        Poll now pq s' = Inr (s1, \<lparr>pr_Task = None, pr_HasTask = False, pr_RedirectAddr = addr\<rparr>) \<and>
        Heartbeat now hq s' = Inr (s1, \<lparr>hr_Ok = False, hr_RedirectAddr = addr\<rparr>) \<and>
        bs_inflight s1 = bs_inflight s' \<and> board_of s1 = board_of s')"
proof -
  obtain s' where run: "hears qs s = Inr s'" and st: "rf_state (bs_rf s') = Follower" and c: "bs_cfg s' = bs_cfg s"
    and l: "bs_leaderID s' = last_accepted (bs_leaderID s) (rf_currentTerm (bs_rf s)) qs"
    using hears_run [OF assms] by blast
  have ref: "refreshLeaderState s' = (s'\<lparr>bs_wasLeader := False\<rparr>, False)"
    using st by (simp add: refreshLeaderState_def note_leadership_def GetState_def)
  have "currentLeaderAddr (s'\<lparr>bs_wasLeader := False\<rparr>) =
      Inr (if 0 \<le> bs_leaderID s' \<and> bs_leaderID s' < int (length (cc_Nodes (bs_cfg s)))
        then nc_ClientAddr (cc_Nodes (bs_cfg s) ! nat (bs_leaderID s')) else '''')"
    using st by (auto simp: currentLeaderAddr_def GetState_def Let_def c)
  moreover have "board_of (s'\<lparr>bs_wasLeader := False\<rparr>) = board_of s'" by (simp add: board_of_def is_done_def fun_eq_iff)
  ultimately show ?thesis unfolding l [symmetric] Let_def
    by (intro exI [of _ s']) (simp add: run ref Poll_def Heartbeat_def)
qed

text \<open>Two leaders one after the other, and then a late request of the first one.\<close>

definition demo_beat_of :: "int \<Rightarrow> int \<Rightarrow> AppendEntriesArgs" where
  "demo_beat_of term l = \<lparr>ae_Term = term, ae_LeaderId = l, ae_PrevLogIndex = 0, ae_PrevLogTerm = 0,
     ae_Entries = [], ae_LeaderCommit = 0\<rparr>"

definition demo_follower :: brokerServer where
  "demo_follower = demo_server\<lparr>bs_rf := (bs_rf demo_server)\<lparr>rf_state := Follower\<rparr>\<rparr>"

lemma demo_follower_fields:
  "log_wf (rf_log (bs_rf demo_follower))" "rf_state (bs_rf demo_follower) = Follower"
  "rf_currentTerm (bs_rf demo_follower) = 0" "map nc_ClientAddr (cc_Nodes (bs_cfg demo_follower)) = [''A'', ''B'', ''C'']"
  using lg.wf_empty by (simp_all add: demo_follower_def demo_server_def server_defs)

theorem follower_redirects_witness:
  "\<exists>s'. hears [PAppend 0 (demo_beat_of 4 1) [], PAppend 0 (demo_beat_of 5 2) [BApply (hd demo_msgs)], PAppend 0 (demo_beat_of 4 1) []]
      demo_follower = Inr s' \<and> bs_leaderID s' = 2 \<and>
     (\<exists>s''. Poll 5 \<lparr>pq_WorkerId = ''w''\<rparr> s' =
       Inr (s'', \<lparr>pr_Task = None, pr_HasTask = False, pr_RedirectAddr = ''C''\<rparr>))"
proof -
  let ?qs = "[PAppend 0 (demo_beat_of 4 1) [], PAppend 0 (demo_beat_of 5 2) [BApply (hd demo_msgs)], PAppend 0 (demo_beat_of 4 1) []]"
  have h: "\<forall>q \<in> set ?qs. peer_call_ok q"
    by (simp add: ae_wf_def demo_beat_of_def consecutive_def)
  have "length (map nc_ClientAddr (cc_Nodes (bs_cfg demo_follower))) = 3"
    "map nc_ClientAddr (cc_Nodes (bs_cfg demo_follower)) ! 2 = ''C''" unfolding demo_follower_fields(4) by simp_all
  then have c: "length (cc_Nodes (bs_cfg demo_follower)) = 3" "nc_ClientAddr (cc_Nodes (bs_cfg demo_follower) ! 2) = ''C''"
    by simp_all
  have l: "last_accepted (bs_leaderID demo_follower) 0 ?qs = 2"
    by (simp add: demo_beat_of_def)
  obtain s' where "hears ?qs demo_follower = Inr s'" "bs_leaderID s' = 2"
    "Poll 5 \<lparr>pq_WorkerId = ''w''\<rparr> s' = Inr (fst (refreshLeaderState s'), \<lparr>pr_Task = None, pr_HasTask = False, pr_RedirectAddr = ''C''\<rparr>)"
    using follower_redirects [OF demo_follower_fields(1,2) h, of 5 "\<lparr>pq_WorkerId = ''w''\<rparr>"]
    unfolding demo_follower_fields(3) l Let_def by (auto simp: c)
  then show ?thesis by blast
qed

text \<open>
  The note of the leader is not ordered by terms, though: two handlers whose sections
  interleave can leave the older leader noted. A request of term 4 that is answered before,
  but noted after, one of term 5 leaves the follower redirecting to the leader of term 4
  until the next heartbeat.
\<close>

lemma overlapping_requests_older_leader:
  "\<exists>s' reply. broker_AppendEntries (\<lambda>s. case broker_AppendEntries id 0 (demo_beat_of 5 2) s of Inr (t, _) \<Rightarrow> t | Inl _ \<Rightarrow> s)
      0 (demo_beat_of 4 1) demo_follower = Inr (s', reply) \<and> rf_currentTerm (bs_rf s') = 5 \<and> bs_leaderID s' = 1"
proof -
  have wf: "ae_wf (demo_beat_of t l)" for t l by (simp add: ae_wf_def demo_beat_of_def consecutive_def)
  have ts: "ae_Term (demo_beat_of t l) = t" "ae_LeaderId (demo_beat_of t l) = l" for t l
    by (simp_all add: demo_beat_of_def)
  obtain rf1 r1 where 1: "AppendEntries 0 (demo_beat_of 4 1) (bs_rf demo_follower) = Inr (rf1, r1)" "log_wf (rf_log rf1)"
    "aer_Term r1 = 4" "rf_currentTerm rf1 = 4"
    by (rule AppendEntries_accepted [OF demo_follower_fields(1) wf, of 0 4 1]) (auto simp: ts demo_follower_fields(3))
  obtain rf2 r2 where 2: "AppendEntries 0 (demo_beat_of 5 2) rf1 = Inr (rf2, r2)" "aer_Term r2 = 5" "rf_currentTerm rf2 = 5"
    by (rule AppendEntries_accepted [OF 1(2) wf, of 0 5 2]) (auto simp: ts 1(4))
  show ?thesis by (simp add: broker_AppendEntries_def note_accepted_def 1 2 ts)
qed

text \<open>A proposal that is applied before its waiter is registered is reported as failed: the
  channel of the waiter is closed only by a message with its index that is applied after
  the registration, so when there is none the caller gets \<open>false\<close>, although the command
  has been committed and applied.\<close>

lemma late_registration_fails:
  assumes "ops_ok s" and "Start cmd (bs_rf s) = Inr (rf', (index, tm, True), peers)"
    and "\<forall>m. BApply m \<in> set es2 \<longrightarrow> am_Index m \<noteq> index"
  shows "\<exists>s'. proposeAndWait (broker_run es1) (broker_run es2) timedOut cmd s = Inr (s', False)"
proof -
  have "\<exists>s' ok. proposeAndWait (broker_run es1) (broker_run es2) timedOut cmd s = Inr (s', ok)"
    using assms(2) by (auto simp: proposeAndWait_def Let_def)
  then obtain s' ok where p: "proposeAndWait (broker_run es1) (broker_run es2) timedOut cmd s = Inr (s', ok)"
    by blast
  have "ok = False"
  proof (rule ccontr)
    assume "ok \<noteq> False"
    with p have "proposeAndWait (broker_run es1) (broker_run es2) timedOut cmd s = Inr (s', True)" by simp
    then show False using assms by (elim propose_success) auto
  qed
  then show ?thesis using p by blast
qed

text \<open>
  What becomes of the waiter registered at \<open>index\<close> while the server runs on: the term of
  the first message applied at that index, unless the slot has been given away before by
  another registration, or emptied by another waiter that timed out.
\<close>

fun slot_answer :: "int \<Rightarrow> broker_event list \<Rightarrow> int option" where
  "slot_answer index [] = None"
| "slot_answer index (BApply m # es) = (if am_Index m = index then Some (am_Term m) else slot_answer index es)"
| "slot_answer index (BRegister n t # es) = (if n = index then None else slot_answer index es)"
| "slot_answer index (BForget n # es) = (if n = index then None else slot_answer index es)"
| "slot_answer index (e # es) = slot_answer index es"

lemma lost_slot:
  assumes "a < length (bs_ops s)" and "a \<notin> ran (bs_pendingOps s)"
  shows "bs_ops (broker_run es s) ! a = bs_ops s ! a"
  using assms
proof (induction es arbitrary: s)
  case (Cons e es)
  let ?t = "broker_exec e s"
  have "a < length (bs_ops ?t) \<and> a \<notin> ran (bs_pendingOps ?t) \<and> bs_ops ?t ! a = bs_ops s ! a"
  proof (cases e)
    case (BApply m)
    show ?thesis
    proof (cases "bs_pendingOps s (am_Index m)")
      case (Some b)
      then have "b \<noteq> a" using Cons.prems(2) by (auto simp: ran_def)
      then show ?thesis using Cons.prems BApply Some by (auto simp: apply_message_def wake_waiter_def ran_def)
    qed (use Cons.prems BApply in \<open>simp add: apply_message_def wake_waiter_def\<close>)
  next
    case (BRegister n t)
    then show ?thesis using Cons.prems by (auto simp: register_op_def ran_def nth_append)
  next
    case (BForget n)
    then show ?thesis using Cons.prems by (auto simp: forget_op_def ran_def)
  qed (use Cons.prems in \<open>simp_all add: drop_stalled_def\<close>)
  then show ?case using Cons.IH [of ?t] by simp
qed simp

lemma not_in_ran_fun_upd:
  "(\<And>n. m n = Some a \<Longrightarrow> n = k) \<Longrightarrow> y \<noteq> Some a \<Longrightarrow> a \<notin> ran (m(k := y))"
  unfolding ran_def by (auto split: if_splits)

lemma slot_outcome:
  assumes "ops_ok s" and "bs_pendingOps s index = Some a"
  shows "(po_closed (bs_ops (broker_run es s) ! a) \<longleftrightarrow> slot_answer index es \<noteq> None) \<and>
    (\<forall>t. slot_answer index es = Some t \<longrightarrow> po_term (bs_ops (broker_run es s) ! a) = t)"
  using assms
proof (induction index es arbitrary: s rule: slot_answer.induct)
  case (1 index)
  then show ?case by (auto simp: ops_ok_def)
next
  case (2 index m es)
  have a: "a < length (bs_ops s)" "\<And>n. bs_pendingOps s n = Some a \<Longrightarrow> n = index"
    using "2.prems" by (auto simp: ops_ok_def)
  have lost: "y \<noteq> Some a \<Longrightarrow> a \<notin> ran ((bs_pendingOps s)(index := y))" for y
    by (rule not_in_ran_fun_upd) (auto dest: a(2))
  show ?case
  proof (cases "am_Index m = index")
    case True
    let ?t = "broker_exec (BApply m) s"
    have t: "bs_ops ?t ! a = \<lparr>po_term = am_Term m, po_closed = True\<rparr>" "a < length (bs_ops ?t)" "a \<notin> ran (bs_pendingOps ?t)"
      using True "2.prems"(2) a(1) lost by (simp_all add: apply_message_def wake_waiter_def)
    then show ?thesis using True lost_slot [OF t(2,3)] by simp
  next
    case False
    then have "bs_pendingOps (broker_exec (BApply m) s) index = Some a"
      using "2.prems"(2) by (auto simp: apply_message_def wake_waiter_def split: option.splits)
    from "2.IH" [OF False ops_ok_exec [OF "2.prems"(1)] this] show ?thesis using False by simp
  qed
next
  case (3 index n t es)
  have a: "a < length (bs_ops s)" "\<not> po_closed (bs_ops s ! a)" "\<And>n. bs_pendingOps s n = Some a \<Longrightarrow> n = index"
    using "3.prems" by (auto simp: ops_ok_def)
  have lost: "y \<noteq> Some a \<Longrightarrow> a \<notin> ran ((bs_pendingOps s)(index := y))" for y
    by (rule not_in_ran_fun_upd) (auto dest: a(3))
  show ?case
  proof (cases "n = index")
    case True
    let ?t = "broker_exec (BRegister n t) s"
    have t: "bs_ops ?t ! a = bs_ops s ! a" "a < length (bs_ops ?t)" "a \<notin> ran (bs_pendingOps ?t)"
      using True a(1) lost [of "Some (length (bs_ops s))"] by (simp_all add: register_op_def nth_append)
    then show ?thesis using True a(2) lost_slot [OF t(2,3)] by simp
  next
    case False
    then have "bs_pendingOps (broker_exec (BRegister n t) s) index = Some a" using "3.prems"(2) by (simp add: register_op_def)
    from "3.IH" [OF False ops_ok_exec [OF "3.prems"(1)] this] show ?thesis using False by simp
  qed
next
  case (4 index n es)
  have a: "a < length (bs_ops s)" "\<not> po_closed (bs_ops s ! a)" "\<And>n. bs_pendingOps s n = Some a \<Longrightarrow> n = index"
    using "4.prems" by (auto simp: ops_ok_def)
  have lost: "y \<noteq> Some a \<Longrightarrow> a \<notin> ran ((bs_pendingOps s)(index := y))" for y
    by (rule not_in_ran_fun_upd) (auto dest: a(3))
  show ?case
  proof (cases "n = index")
    case True
    let ?t = "broker_exec (BForget n) s"
    have t: "bs_ops ?t ! a = bs_ops s ! a" "a < length (bs_ops ?t)" "a \<notin> ran (bs_pendingOps ?t)"
      using True a(1) lost by (simp_all add: forget_op_def)
    then show ?thesis using True a(2) lost_slot [OF t(2,3)] by simp
  next
    case False
    then have "bs_pendingOps (broker_exec (BForget n) s) index = Some a" using "4.prems"(2) by (simp add: forget_op_def)
    from "4.IH" [OF False ops_ok_exec [OF "4.prems"(1)] this] show ?thesis using False by simp
  qed
qed (simp_all add: ops_ok_def drop_stalled_def)

text \<open>C26 What a proposal answers is exactly this: \<open>true\<close> when, before \<open>select\<close> returns and without the
  timer being taken, the first thing to happen to the slot of its index after the
  registration is a message of the term that \<open>Start\<close> returned. So a command that is applied
  before its waiter is registered, or after another waiter of the same index has
  registered or timed out, is reported as failed although it has been committed and applied.\<close>

theorem proposal_outcome:
  assumes "ops_ok s" and "Start cmd (bs_rf s) = Inr (rf', (index, tm, True), peers)"
  shows "\<exists>s'. proposeAndWait (broker_run es1) (broker_run es2) timedOut cmd s =
    Inr (s', \<not> timedOut \<and> slot_answer index es2 = Some tm)"
proof -
  let ?s1 = "broker_run es1 (s\<lparr>bs_rf := rf'\<rparr>)"
  let ?r = "register_op index tm ?s1" and ?a = "length (bs_ops ?s1)"
  have "ops_ok (s\<lparr>bs_rf := rf'\<rparr>)" using assms(1) by (simp add: ops_ok_def)
  then have "ops_ok ?s1" by (induction es1 arbitrary: s rf' rule: rev_induct) (simp_all add: ops_ok_exec)
  then have "ops_ok ?r" using ops_ok_exec [of ?s1 "BRegister index tm"] by simp
  from slot_outcome [OF this, of index ?a es2] show ?thesis
    using assms(2) by (auto simp: proposeAndWait_def Let_def register_op_def split: option.splits)
qed

theorem proposal_outcome_witness:
  "\<exists>index s'. Start ''complete:t2:'' (bs_rf demo_server) = Inr ((bs_rf demo_server)\<lparr>rf_log := rf_log (bs_rf s')\<rparr>, (index, 0, True), [1, 2]) \<and>
     is_done s' ''t2'' \<and>
     proposeAndWait (broker_run [BApply \<lparr>am_Index = index, am_Term = 0, am_Command = ''complete:t2:''\<rparr>]) (broker_run [])
       False ''complete:t2:'' demo_server = Inr (s', False)"
proof -
  let ?m = "\<lparr>am_Index = 1, am_Term = 0, am_Command = ''complete:t2:''\<rparr>"
  obtain rf' where st: "Start ''complete:t2:'' (bs_rf demo_server) = Inr (rf', (1, 0, True), [1, 2])"
      "rf' = (bs_rf demo_server)\<lparr>rf_log := rf_log rf'\<rparr>"
    using Start_effect [of "bs_rf demo_server" "''complete:t2:''"] lg.wf_empty
    by (auto simp: demo_server_def server_defs other_peers_def)
  have "ops_ok demo_server" using demo_ok by (simp add: broker_ok_def)
  from proposal_outcome [OF this st(1), of "[BApply ?m]" "[]" False] obtain s' where
    p: "proposeAndWait (broker_run [BApply ?m]) (broker_run []) False ''complete:t2:'' demo_server = Inr (s', False)"
    by auto
  have "decodeCommand ''complete:t2:'' = (''complete'', ''t2'', '''')"
    using decode_complete [of "''t2''" "''''"] by (simp add: encodeComplete_def)
  then have "is_done s' ''t2''" "bs_rf s' = rf'"
    using p st(1) by (auto simp: proposeAndWait_def apply_message_def wake_waiter_def apply_command_def
        register_op_def forget_op_def is_done_def)
  then show ?thesis using st p by (intro exI [of _ 1] exI [of _ s']) auto
qed

end
