(* ===== verification/Broker_Client.thy ===== *)
theory Broker_Client
  imports Broker_Proofs
begin

text \<open>
  The client library of \<^verbatim>\<open>src/internal/brokerclient/client.go\<close>: leader discovery by
  following redirects through the configured addresses. The cluster behind the addresses
  is a state \<open>'w\<close> that a remote call changes; \<open>dial\<close> says why a connection cannot be
  made, if it cannot.
\<close>

section \<open>Model\<close>

definition rpcTimeout :: int where "rpcTimeout = 5 * 1000000000"
definition retryBackoff :: int where "retryBackoff = 50 * 1000000"

datatype client_error =
    NoAddresses
  | DialError string string        \<comment> \<open>address, cause\<close>
  | CallError string
  | NotLeader string
  | Unreachable int client_error

record Client =
  bc_addrs :: "string list"
  bc_current :: int
  bc_conns :: "string list"

definition client_New :: "string list \<Rightarrow> Client" where
  "client_New addrs = \<lparr>bc_addrs = addrs, bc_current = 0, bc_conns = []\<rparr>"

definition clientFor :: "(string \<Rightarrow> string option) \<Rightarrow> string \<Rightarrow> Client \<Rightarrow> Client \<times> (client_error + string)" where
  "clientFor dial addr c =
     (if addr \<in> set (bc_conns c) then (c, Inr addr)
      else (case dial addr of
          Some err \<Rightarrow> (c, Inl (DialError addr err))
        | None \<Rightarrow> (c\<lparr>bc_conns := addr # bc_conns c\<rparr>, Inr addr)))"

fun addr_loop :: "string \<Rightarrow> string list \<Rightarrow> int \<Rightarrow> int" where
  "addr_loop addr [] i = - 1"
| "addr_loop addr (a # rest) i = (if a = addr then i else addr_loop addr rest (i + 1))"

definition addrIndex :: "Client \<Rightarrow> string \<Rightarrow> int" where
  "addrIndex c addr = addr_loop addr (bc_addrs c) 0"

definition next_addr :: "Client \<Rightarrow> Client" where
  "next_addr c = c\<lparr>bc_current := (bc_current c + 1) mod int (length (bc_addrs c))\<rparr>"

text \<open>
  The loop of \<open>call\<close>: \<open>fn\<close> is the closure, from the address of the node to its redirect
  or error; \<open>s\<close> holds the cluster and the variables the closure captures; \<open>lastErr\<close> is
  \<open>None\<close> for nil.
\<close>

fun call_loop ::
  "(string \<Rightarrow> string option) \<Rightarrow> (string \<Rightarrow> 's \<Rightarrow> 's \<times> (string + string)) \<Rightarrow> nat \<Rightarrow> client_error option \<Rightarrow> Client \<Rightarrow> 's
     \<Rightarrow> (Client \<times> 's \<times> (client_error option) option) go" where
  "call_loop dial fn 0 lastErr c s = Inr (c, s, Some lastErr)"
| "call_loop dial fn (Suc hops) lastErr c s =
     go_bind (slice_get (bc_addrs c) (bc_current c)) (\<lambda>addr.
       case clientFor dial addr c of
         (c1, Inl err) \<Rightarrow> call_loop dial fn hops (Some err) (next_addr c1) s
       | (c1, Inr client) \<Rightarrow>
           (case fn client s of
              (s1, Inl err) \<Rightarrow> call_loop dial fn hops (Some (CallError err)) (next_addr c1) s1
            | (s1, Inr redirect) \<Rightarrow>
                if redirect \<noteq> '''' then
                  (let idx = addrIndex c1 redirect
                   in call_loop dial fn hops (Some (NotLeader redirect))
                        (if idx \<ge> 0 then c1\<lparr>bc_current := idx\<rparr> else next_addr c1) s1)
                else Inr (c1, s1, None)))"

definition maxHops :: "Client \<Rightarrow> nat" where
  "maxHops c = (if 2 * length (bc_addrs c) < 2 then 2 else 2 * length (bc_addrs c))"

text \<open>The result is the client, the state and the error (none on success).\<close>

definition call ::
  "(string \<Rightarrow> string option) \<Rightarrow> (string \<Rightarrow> 's \<Rightarrow> 's \<times> (string + string)) \<Rightarrow> Client \<Rightarrow> 's
     \<Rightarrow> (Client \<times> 's \<times> client_error option) go" where
  "call dial fn c s =
     (if length (bc_addrs c) = 0 then Inr (c, s, Some NoAddresses)
      else go_bind (call_loop dial fn (maxHops c) None c s) (\<lambda>(c', s', res).
        Inr (c', s', case res of
            None \<Rightarrow> None
          | Some lastErr \<Rightarrow> Some (Unreachable (int (maxHops c))
              (case lastErr of Some e \<Rightarrow> e | None \<Rightarrow> CallError ''nil'')))))"

text \<open>
  What the connection to an address does with a request: the cluster after, and an error
  or the response. One such function per remote method.
\<close>

type_synonym ('q, 'a, 'w) rpc = "string \<Rightarrow> 'q \<Rightarrow> 'w \<Rightarrow> 'w \<times> (string + 'a)"

definition submit_fn ::
  "(SubmitRequest, SubmitResponse, 'w) rpc \<Rightarrow> string \<Rightarrow> string \<Rightarrow> 'w \<times> string \<Rightarrow> ('w \<times> string) \<times> (string + string)" where
  "submit_fn rpc payload client = (\<lambda>(w, taskID).
     case rpc client \<lparr>sq_Payload = payload\<rparr> w of
       (w', Inl err) \<Rightarrow> ((w', taskID), Inl err)
     | (w', Inr resp) \<Rightarrow>
         if \<not> sr_Ok resp then ((w', taskID), Inr (sr_RedirectAddr resp))
         else ((w', sr_TaskId resp), Inr ''''))"

definition client_Submit ::
  "(string \<Rightarrow> string option) \<Rightarrow> (SubmitRequest, SubmitResponse, 'w) rpc \<Rightarrow> string \<Rightarrow> Client \<Rightarrow> 'w
     \<Rightarrow> (Client \<times> 'w \<times> string \<times> client_error option) go" where
  "client_Submit dial rpc payload c w =
     go_bind (call dial (submit_fn rpc payload) c (w, '''')) (\<lambda>(c', (w', taskID), err). Inr (c', w', taskID, err))"

definition poll_fn ::
  "(PollRequest, PollResponse, 'w) rpc \<Rightarrow> string \<Rightarrow> string \<Rightarrow> 'w \<times> Task option \<times> bool
     \<Rightarrow> ('w \<times> Task option \<times> bool) \<times> (string + string)" where
  "poll_fn rpc workerID client = (\<lambda>(w, task, ok).
     case rpc client \<lparr>pq_WorkerId = workerID\<rparr> w of
       (w', Inl err) \<Rightarrow> ((w', task, ok), Inl err)
     | (w', Inr resp) \<Rightarrow>
         if \<not> pr_HasTask resp \<and> pr_RedirectAddr resp \<noteq> '''' then ((w', task, ok), Inr (pr_RedirectAddr resp))
         else ((w', pr_Task resp, pr_HasTask resp), Inr ''''))"

definition client_Poll ::
  "(string \<Rightarrow> string option) \<Rightarrow> (PollRequest, PollResponse, 'w) rpc \<Rightarrow> string \<Rightarrow> Client \<Rightarrow> 'w
     \<Rightarrow> (Client \<times> 'w \<times> Task option \<times> bool \<times> client_error option) go" where
  "client_Poll dial rpc workerID c w =
     go_bind (call dial (poll_fn rpc workerID) c (w, None, False)) (\<lambda>(c', (w', task, ok), err).
       Inr (c', w', task, ok, err))"

definition complete_fn ::
  "(CompleteRequest, CompleteResponse, 'w) rpc \<Rightarrow> CompleteRequest \<Rightarrow> string \<Rightarrow> 'w \<Rightarrow> 'w \<times> (string + string)" where
  "complete_fn rpc req client w =
     (case rpc client req w of
        (w', Inl err) \<Rightarrow> (w', Inl err)
      | (w', Inr resp) \<Rightarrow> if \<not> cr_Ok resp then (w', Inr (cr_RedirectAddr resp)) else (w', Inr ''''))"

definition client_Complete ::
  "(string \<Rightarrow> string option) \<Rightarrow> (CompleteRequest, CompleteResponse, 'w) rpc \<Rightarrow> string \<Rightarrow> string \<Rightarrow> string \<Rightarrow> Client \<Rightarrow> 'w
     \<Rightarrow> (Client \<times> 'w \<times> client_error option) go" where
  "client_Complete dial rpc taskID workerID errMsg c w =
     call dial (complete_fn rpc \<lparr>cq_TaskId = taskID, cq_WorkerId = workerID, cq_Error = errMsg\<rparr>) c w"

definition heartbeat_fn ::
  "(HeartbeatRequest, HeartbeatResponse, 'w) rpc \<Rightarrow> HeartbeatRequest \<Rightarrow> string \<Rightarrow> 'w \<Rightarrow> 'w \<times> (string + string)" where
  "heartbeat_fn rpc req client w =
     (case rpc client req w of
        (w', Inl err) \<Rightarrow> (w', Inl err)
      | (w', Inr resp) \<Rightarrow> if \<not> hr_Ok resp then (w', Inr (hr_RedirectAddr resp)) else (w', Inr ''''))"

definition client_Heartbeat ::
  "(string \<Rightarrow> string option) \<Rightarrow> (HeartbeatRequest, HeartbeatResponse, 'w) rpc \<Rightarrow> string \<Rightarrow> string \<Rightarrow> Client \<Rightarrow> 'w
     \<Rightarrow> (Client \<times> 'w \<times> client_error option) go" where
  "client_Heartbeat dial rpc workerID taskID c w =
     call dial (heartbeat_fn rpc \<lparr>hq_WorkerId = workerID, hq_TaskId = taskID\<rparr>) c w"

definition result_fn ::
  "(GetResultRequest, GetResultResponse, 'w) rpc \<Rightarrow> string \<Rightarrow> string \<Rightarrow> 'w \<times> bool \<times> string
     \<Rightarrow> ('w \<times> bool \<times> string) \<times> (string + string)" where
  "result_fn rpc taskID client = (\<lambda>(w, fin, errMsg).
     case rpc client \<lparr>gq_TaskId = taskID\<rparr> w of
       (w', Inl err) \<Rightarrow> ((w', fin, errMsg), Inl err)
     | (w', Inr resp) \<Rightarrow> ((w', gr_Done resp, gr_Error resp), Inr ''''))"

definition client_GetResult ::
  "(string \<Rightarrow> string option) \<Rightarrow> (GetResultRequest, GetResultResponse, 'w) rpc \<Rightarrow> string \<Rightarrow> Client \<Rightarrow> 'w
     \<Rightarrow> (Client \<times> 'w \<times> bool \<times> string \<times> client_error option) go" where
  "client_GetResult dial rpc taskID c w =
     go_bind (call dial (result_fn rpc taskID) c (w, False, '''')) (\<lambda>(c', (w', fin, errMsg), err).
       Inr (c', w', fin, errMsg, err))"

section \<open>The client stays within its addresses\<close>

definition client_ok :: "Client \<Rightarrow> bool" where
  "client_ok c \<longleftrightarrow> bc_addrs c \<noteq> [] \<and> 0 \<le> bc_current c \<and> bc_current c < int (length (bc_addrs c))"

lemma addr_loop_range:
  "addr_loop a xs i = - 1 \<and> a \<notin> set xs \<or>
   i \<le> addr_loop a xs i \<and> addr_loop a xs i < i + int (length xs) \<and> xs ! nat (addr_loop a xs i - i) = a"
  if "0 \<le> i"
  using that
proof (induction xs arbitrary: i)
  case (Cons x xs)
  have "nat (addr_loop a xs (i + 1) - i) = Suc (nat (addr_loop a xs (i + 1) - (i + 1)))"
    if "i + 1 \<le> addr_loop a xs (i + 1)" using that by linarith
  then show ?case using Cons.IH [of "i + 1"] Cons.prems by auto
qed simp

lemma addrIndex_known:
  assumes "addrIndex c a \<ge> 0"
  shows "addrIndex c a < int (length (bc_addrs c)) \<and> bc_addrs c ! nat (addrIndex c a) = a"
  using addr_loop_range [of 0 a "bc_addrs c"] assms by (auto simp: addrIndex_def)

lemma addrIndex_unknown: "a \<notin> set (bc_addrs c) \<longleftrightarrow> addrIndex c a = - 1"
proof (cases "addrIndex c a = - 1")
  case True
  then show ?thesis using addr_loop_range [of 0 a "bc_addrs c"] by (auto simp: addrIndex_def)
next
  case False
  then have "0 \<le> addrIndex c a" using addr_loop_range [of 0 a "bc_addrs c"] by (auto simp: addrIndex_def)
  from addrIndex_known [OF this] this have "a \<in> set (bc_addrs c)" by (metis nat_less_iff nth_mem)
  then show ?thesis using False by simp
qed

lemma client_ok_next [wf_intros]: "client_ok c \<Longrightarrow> client_ok (next_addr c)"
  by (auto simp: client_ok_def next_addr_def)

lemma clientFor_ok [wf_intros]:
  "client_ok c \<Longrightarrow> clientFor dial a c = (c1, r) \<Longrightarrow> client_ok c1 \<and> bc_addrs c1 = bc_addrs c \<and> bc_current c1 = bc_current c"
  by (auto simp: clientFor_def client_ok_def split: if_splits option.splits)

lemma clientFor_addr: "clientFor dial a c = (c1, Inr x) \<Longrightarrow> x = a"
  by (auto simp: clientFor_def split: if_splits option.splits)

lemma client_ok_redirect [wf_intros]:
  "client_ok c \<Longrightarrow> client_ok (if addrIndex c r \<ge> 0 then c\<lparr>bc_current := addrIndex c r\<rparr> else next_addr c)"
  using addrIndex_known [of c r] client_ok_next by (auto simp: client_ok_def)

lemma redirect_addrs [simp]:
  "bc_addrs (next_addr c) = bc_addrs c"
  "bc_addrs (if b then c\<lparr>bc_current := i\<rparr> else next_addr c) = bc_addrs c"
  by (simp_all add: next_addr_def)


section \<open>The loop against any cluster\<close>

text \<open>
  The loop as an interface: what one attempt does to the client. Whatever property of
  client and state every attempt keeps, the loop keeps.
\<close>

lemma call_loop_total:
  assumes "client_ok c" and "\<And>a s s' r. I s \<Longrightarrow> a \<in> set (bc_addrs c) \<Longrightarrow> fn a s = (s', r) \<Longrightarrow> I s'" and "I s"
  shows "\<exists>c' s' res. call_loop dial fn hops lastErr c s = Inr (c', s', res) \<and> client_ok c' \<and>
    bc_addrs c' = bc_addrs c \<and> I s'"
  using assms
proof (induction hops arbitrary: lastErr c s)
  case (Suc hops)
  let ?a = "bc_addrs c ! nat (bc_current c)"
  have a: "slice_get (bc_addrs c) (bc_current c) = Inr ?a" "?a \<in> set (bc_addrs c)"
    using Suc.prems(1) by (auto simp: client_ok_def nat_less_iff)
  obtain c1 r where cf: "clientFor dial ?a c = (c1, r)" by fastforce
  note c1 = clientFor_ok [OF Suc.prems(1) cf]
  have again: "\<exists>c' s' res. call_loop dial fn hops e c2 s2 = Inr (c', s', res) \<and> client_ok c' \<and>
      bc_addrs c' = bc_addrs c \<and> I s'"
    if "client_ok c2" "bc_addrs c2 = bc_addrs c" "I s2" for e c2 s2
    using Suc.IH [OF that(1) _ that(3), of e] Suc.prems(2) that(2) by auto
  show ?case
  proof (cases r)
    case (Inl err)
    then show ?thesis using a cf c1 again [OF client_ok_next] Suc.prems(3) by simp
  next
    case (Inr cl)
    then have cl: "cl = ?a" using cf clientFor_addr by blast
    obtain s1 out where fn: "fn ?a s = (s1, out)" by fastforce
    then have I: "I s1" using Suc.prems(2,3) a(2) by blast
    show ?thesis
    proof (cases out)
      case Inl
      then show ?thesis using a cf c1 Inr cl fn again [OF client_ok_next _ I] by simp
    next
      case out: (Inr red)
      show ?thesis
      proof (cases "red = ''''")
        case True
        then show ?thesis using a cf c1 Inr cl fn I out by simp
      next
        case False
        then show ?thesis
          using a cf c1 Inr cl fn out again [OF client_ok_redirect _ I, of c1 red] by (simp add: Let_def)
      qed
    qed
  qed
qed simp

text \<open>
  The leader \<open>L\<close> answers every call; every other node fails, or redirects to \<open>L\<close> or to
  an address the client does not know, and changes nothing.
\<close>

definition leads :: "(string \<Rightarrow> string option) \<Rightarrow> (string \<Rightarrow> 's \<Rightarrow> 's \<times> (string + string)) \<Rightarrow> Client \<Rightarrow> string \<Rightarrow> bool" where
  "leads dial fn c L \<longleftrightarrow> L \<in> set (bc_addrs c) \<and> L \<noteq> '''' \<and> dial L = None \<and> (\<forall>s. \<exists>s'. fn L s = (s', Inr '''')) \<and>
     (\<forall>a \<in> set (bc_addrs c). a \<noteq> L \<longrightarrow> (\<forall>s s' out. fn a s = (s', out) \<longrightarrow> s' = s \<and>
        ((\<exists>e. out = Inl e) \<or> out = Inr L \<or> (\<exists>x. out = Inr x \<and> x \<noteq> '''' \<and> x \<notin> set (bc_addrs c)))))"

text \<open>How many addresses the round robin is away from the first position of \<open>L\<close>.\<close>

definition hops_to :: "Client \<Rightarrow> string \<Rightarrow> nat" where
  "hops_to c L = nat ((addrIndex c L - bc_current c) mod int (length (bc_addrs c)))"

lemma hops_to_next:
  assumes "client_ok c" and "0 \<le> addrIndex c L" and "hops_to c L \<noteq> 0"
  shows "hops_to (next_addr c) L < hops_to c L"
proof -
  let ?n = "int (length (bc_addrs c))" and ?i = "addrIndex c L" and ?k = "bc_current c"
  have n: "0 < ?n" and k: "0 \<le> ?k" "?k < ?n" and i: "?i < ?n"
    using assms addrIndex_known [OF assms(2)] by (auto simp: client_ok_def)
  have same: "addrIndex (next_addr c) L = ?i" by (simp add: addrIndex_def)
  have "(?i - (?k + 1) mod ?n) mod ?n = (?i - ?k - 1) mod ?n" by (simp add: mod_diff_right_eq diff_diff_eq)
  also have "\<dots> = (?i - ?k) mod ?n - 1"
  proof -
    have "0 < (?i - ?k) mod ?n" using assms(3) n by (simp add: hops_to_def order_less_le)
    moreover have "(?i - ?k) mod ?n < ?n" using n by simp
    ultimately have "((?i - ?k) mod ?n - 1) mod ?n = (?i - ?k) mod ?n - 1" by simp
    then show ?thesis by (simp add: mod_diff_left_eq)
  qed
  finally show ?thesis using assms(3) same by (simp add: hops_to_def next_addr_def)
qed

lemma hops_to_bound: "client_ok c \<Longrightarrow> hops_to c L < length (bc_addrs c)"
  by (simp add: hops_to_def client_ok_def nat_less_iff)


lemma leads_cong: "bc_addrs c' = bc_addrs c \<Longrightarrow> leads dial fn c' L \<longleftrightarrow> leads dial fn c L"
  by (simp add: leads_def)

lemma leads_otherD:
  assumes "leads dial fn c L" and "a \<in> set (bc_addrs c)" and "a \<noteq> L" and "fn a s = (s', out)"
  obtains "s' = s" "\<exists>e. out = Inl e" | "s' = s" "out = Inr L"
    | x where "s' = s" "out = Inr x" "x \<noteq> ''''" "addrIndex c x = - 1"
proof -
  from assms(1) have "\<forall>a \<in> set (bc_addrs c). a \<noteq> L \<longrightarrow> (\<forall>s s' out. fn a s = (s', out) \<longrightarrow> s' = s \<and>
      ((\<exists>e. out = Inl e) \<or> out = Inr L \<or> (\<exists>x. out = Inr x \<and> x \<noteq> '''' \<and> x \<notin> set (bc_addrs c))))"
    by (simp add: leads_def)
  with assms(2-4) have "s' = s \<and> ((\<exists>e. out = Inl e) \<or> out = Inr L \<or>
      (\<exists>x. out = Inr x \<and> x \<noteq> '''' \<and> addrIndex c x = - 1))"
    by (simp add: addrIndex_unknown)
  then show thesis using that by blast
qed

lemma at_leader:
  assumes "client_ok c" and "0 \<le> addrIndex c L" and "hops_to c L = 0"
  shows "bc_addrs c ! nat (bc_current c) = L"
proof -
  have "(addrIndex c L - bc_current c) mod int (length (bc_addrs c)) = 0"
    using assms(1,3) by (auto simp: hops_to_def client_ok_def intro: antisym)
  then have "addrIndex c L mod int (length (bc_addrs c)) = bc_current c mod int (length (bc_addrs c))"
    by (simp add: mod_eq_dvd_iff mod_0_imp_dvd)
  then have "addrIndex c L = bc_current c"
    using assms(1,2) addrIndex_known [OF assms(2)] by (simp add: client_ok_def)
  then show ?thesis using addrIndex_known [OF assms(2)] by simp
qed

lemma finds_leader:
  assumes "client_ok c" and "leads dial fn c L" and "hops_to c L < hops"
  shows "\<exists>c' s'. call_loop dial fn hops lastErr c s = Inr (c', s', None) \<and> client_ok c' \<and>
    bc_addrs c' = bc_addrs c \<and> bc_addrs c' ! nat (bc_current c') = L \<and> fn L s = (s', Inr '''')"
  using assms
proof (induction hops arbitrary: lastErr c)
  case (Suc hops)
  let ?a = "bc_addrs c ! nat (bc_current c)"
  have a: "slice_get (bc_addrs c) (bc_current c) = Inr ?a" "?a \<in> set (bc_addrs c)"
    using Suc.prems(1) by (auto simp: client_ok_def nat_less_iff)
  have L: "L \<noteq> ''''" "dial L = None" "\<exists>s'. fn L s = (s', Inr '''')" and known: "L \<in> set (bc_addrs c)"
    using Suc.prems(2) by (auto simp: leads_def)
  have iL: "0 \<le> addrIndex c L" using known addrIndex_unknown addr_loop_range [of 0 L "bc_addrs c"]
    by (auto simp: addrIndex_def)
  obtain c1 r where cf: "clientFor dial ?a c = (c1, r)" by fastforce
  note c1 = clientFor_ok [OF Suc.prems(1) cf]
  have idx: "addrIndex c1 x = addrIndex c x" "hops_to c1 x = hops_to c x" for x
    using c1 by (auto simp: addrIndex_def hops_to_def)
  show ?case
  proof (cases "?a = L")
    case True
    then have "r = Inr L" using cf L(2) by (auto simp: clientFor_def split: if_splits)
    then show ?thesis using a(1) cf c1 L(3) True by auto
  next
    case False
    then have far: "hops_to c L \<noteq> 0" using at_leader [OF Suc.prems(1) iL] by blast
    have again: "\<exists>c' s'. call_loop dial fn hops e c2 s = Inr (c', s', None) \<and> client_ok c' \<and>
        bc_addrs c' = bc_addrs c \<and> bc_addrs c' ! nat (bc_current c') = L \<and> fn L s = (s', Inr '''')"
      if "client_ok c2" "bc_addrs c2 = bc_addrs c" "hops_to c2 L < hops" for e c2
      using Suc.IH [OF that(1) _ that(3), of e] Suc.prems(2) leads_cong [OF that(2)] that(2) by metis
    have step: "hops_to (next_addr c1) L < hops"
      using hops_to_next [of c1 L] c1 idx iL far Suc.prems(3) by simp
    note next_ok = again [OF client_ok_next _ step]
    show ?thesis
    proof (cases r)
      case (Inl err)
      then show ?thesis using a(1) cf c1 next_ok by simp
    next
      case (Inr cl)
      then have cl: "cl = ?a" using cf clientFor_addr by blast
      obtain s1 out where fn: "fn ?a s = (s1, out)" by fastforce
      from Suc.prems(2) a(2) False fn show ?thesis
      proof (cases rule: leads_otherD)
        case 1
        then show ?thesis using a(1) cf c1 Inr cl fn next_ok by auto
      next
        case 2
        have "hops_to (c1\<lparr>bc_current := addrIndex c1 L\<rparr>) L < hops"
          using far Suc.prems(3) by (simp add: hops_to_def addrIndex_def)
        moreover have "client_ok (c1\<lparr>bc_current := addrIndex c1 L\<rparr>)"
          using client_ok_redirect [of c1 L] c1 iL idx by simp
        ultimately show ?thesis
          using again [of "c1\<lparr>bc_current := addrIndex c1 L\<rparr>" "Some (NotLeader L)"] a(1) cf c1 Inr cl fn 2 L(1) iL idx
          by (simp add: Let_def)
      next
        case (3 x)
        then show ?thesis using a(1) cf c1 Inr cl fn next_ok idx by (simp add: Let_def)
      qed
    qed
  qed
qed simp

lemma call_finds_leader:
  assumes "client_ok c" and "leads dial fn c L"
  shows "\<exists>c' s'. call dial fn c s = Inr (c', s', None) \<and> client_ok c' \<and> bc_addrs c' = bc_addrs c \<and>
    bc_addrs c' ! nat (bc_current c') = L \<and> fn L s = (s', Inr '''')"
proof -
  have "hops_to c L < maxHops c" using hops_to_bound [OF assms(1), of L] by (auto simp: maxHops_def)
  from finds_leader [OF assms this, of None s] show ?thesis
    using assms(1) by (auto simp: call_def client_ok_def)
qed

text \<open>A redirect to nowhere ends the loop as a success.\<close>

lemma call_empty_step:
  assumes "slice_get (bc_addrs c) (bc_current c) = Inr a" and "dial a = None" and "fn a s = (s', Inr '''')"
  shows "\<exists>c'. call_loop dial fn (Suc hops) e c s = Inr (c', s', None)"
  using assms by (auto simp: clientFor_def)

lemma call_empty_redirect:
  assumes "client_ok c" and "dial (bc_addrs c ! nat (bc_current c)) = None"
    and "fn (bc_addrs c ! nat (bc_current c)) s = (s', Inr '''')"
  shows "\<exists>c'. call dial fn c s = Inr (c', s', None)"
proof -
  have "maxHops c = Suc (maxHops c - 1)" by (simp add: maxHops_def)
  moreover have "slice_get (bc_addrs c) (bc_current c) = Inr (bc_addrs c ! nat (bc_current c))"
    using assms(1) by (simp add: client_ok_def)
  ultimately have "\<exists>c'. call_loop dial fn (maxHops c) None c s = Inr (c', s', None)"
    using assms(2,3) by (metis (no_types, lifting) call_empty_step)
  then show ?thesis using assms(1) by (auto simp: call_def client_ok_def)
qed


section \<open>How often and whom the client calls\<close>

text \<open>The closure with a record of the addresses it was used on.\<close>

definition logged :: "(string \<Rightarrow> 's \<Rightarrow> 's \<times> (string + string)) \<Rightarrow> string \<Rightarrow> 's \<times> string list
    \<Rightarrow> ('s \<times> string list) \<times> (string + string)" where
  "logged fn a = (\<lambda>(s, log). case fn a s of (s', out) \<Rightarrow> ((s', log @ [a]), out))"

lemma call_loop_calls:
  "call_loop dial (logged fn) hops e c (s, log) = Inr (c', (s', log'), res) \<Longrightarrow> length log' \<le> length log + hops"
proof (induction hops arbitrary: e c s log)
  case (Suc hops)
  obtain a where a: "slice_get (bc_addrs c) (bc_current c) = Inr a"
    using Suc.prems by (cases "slice_get (bc_addrs c) (bc_current c)") auto
  obtain c1 r where cf: "clientFor dial a c = (c1, r)" by fastforce
  obtain s1 out where fn: "fn a s = (s1, out)" by fastforce
  show ?case
  proof (cases r)
    case (Inl err)
    then show ?thesis using Suc.prems a cf Suc.IH [of _ _ s log] by force
  next
    case (Inr cl)
    then have "cl = a" using cf clientFor_addr by blast
    then have "logged fn cl (s, log) = ((s1, log @ [a]), out)" by (simp add: logged_def fn)
    moreover have "length log' \<le> length (log @ [a]) + hops"
      if "call_loop dial (logged fn) hops e2 c2 (s1, log @ [a]) = Inr (c', (s', log'), res)" for e2 c2
      using Suc.IH [OF that] .
    ultimately show ?thesis
      using Suc.prems a cf Inr by (auto simp: Let_def split: sum.splits if_splits)
  qed
qed simp

end
