(* ===== verification/Client_Theorems.thy ===== *)
theory Client_Theorems
  imports Broker_Client Broker_Theorems
begin

text \<open>
  The theorems about the client library, alone and against a broker server.
\<close>

text \<open>A call of the client library always returns: it never indexes outside its address list,
  makes at most \<open>maxHops\<close> attempts, contacts configured addresses only (a redirect to any
  other address is never followed), and leaves the client ready for the next call.\<close>

lemma client_call_bounded:
  assumes "client_ok c"
  shows "\<exists>c' s' log err. call dial (logged fn) c (s, []) = Inr (c', (s', log), err) \<and> client_ok c' \<and>
    bc_addrs c' = bc_addrs c \<and> set log \<subseteq> set (bc_addrs c) \<and> length log \<le> maxHops c"
proof -
  have "\<exists>c' x res. call_loop dial (logged fn) (maxHops c) None c (s, []) = Inr (c', x, res) \<and> client_ok c' \<and>
      bc_addrs c' = bc_addrs c \<and> set (snd x) \<subseteq> set (bc_addrs c)"
    by (rule call_loop_total [OF assms]) (auto simp: logged_def split: prod.splits)
  then obtain c' s' log res where run: "call_loop dial (logged fn) (maxHops c) None c (s, []) = Inr (c', (s', log), res)"
      "client_ok c'" "bc_addrs c' = bc_addrs c" "set log \<subseteq> set (bc_addrs c)" by auto
  then show ?thesis
    using call_loop_calls [OF run(1)] assms by (auto simp: call_def client_ok_def)
qed

text \<open>C30 The client finds the leader: when one configured node can be dialled and accepts every
  call, and every other configured node changes nothing and either fails, redirects to that
  node, or redirects to a non-empty address the client does not know (so that none answers
  with an empty redirect, which the client takes for success, or with another configured
  node), the call succeeds with the effect of exactly one accepted attempt, and the client
  remembers the leader for the next call.\<close>

theorem client_finds_leader:
  assumes "client_ok c" and "leads dial fn c L"
  shows "\<exists>c' s'. call dial fn c s = Inr (c', s', None) \<and> fn L s = (s', Inr '''') \<and>
    client_ok c' \<and> bc_addrs c' ! nat (bc_current c') = L"
  using call_finds_leader [OF assms, of s] by blast

theorem client_finds_leader_witness:
  "\<exists>c' s'. call (\<lambda>_. None) (\<lambda>a n. if a = ''B'' then (n + 1, Inr '''') else (n, Inr ''x'')) (client_New [''A'', ''B'']) (5 :: nat) =
     Inr (c', s', None) \<and> s' = 6"
proof -
  let ?fn = "\<lambda>a n. if a = ''B'' then (n + 1 :: nat, Inr '''') else (n, Inr ''x'')"
  have "client_ok (client_New [''A'', ''B''])" by (simp add: client_ok_def client_New_def)
  moreover have "leads (\<lambda>_. None) ?fn (client_New [''A'', ''B'']) ''B''"
    by (auto simp: leads_def client_New_def)
  ultimately show ?thesis using client_finds_leader [of _ "\<lambda>_. None" ?fn "''B''" 5] by auto
qed

section \<open>A client and one server\<close>

text \<open>The connection to a server that is alone in serving the call and does nothing else meanwhile.\<close>

definition submit_to_server :: "string \<Rightarrow> (SubmitRequest, SubmitResponse, brokerServer) rpc" where
  "submit_to_server uuid addr req s =
     (case Submit id id False uuid req s of Inl p \<Rightarrow> (s, Inl ''panic'') | Inr (s', resp) \<Rightarrow> (s', Inr resp))"

text \<open>C31 A submission to a node that knows no leader is lost silently: the node answers without a
  task and without a redirect address, which the client takes for success; the caller gets
  an empty task identifier and no error, and no broker has the task.\<close>

theorem leaderless_submit_lost:
  assumes "client_ok c" and "dial (bc_addrs c ! nat (bc_current c)) = None"
    and "rf_state (bs_rf s) \<noteq> Leader" and "bs_leaderID s = - 1"
  shows "\<exists>c' s'. client_Submit dial (submit_to_server uuid) payload c s = Inr (c', s', '''', None) \<and>
    board_of s' = board_of s \<and> rf_log (bs_rf s') = rf_log (bs_rf s)"
proof -
  have "Submit id id False uuid \<lparr>sq_Payload = payload\<rparr> s = Inr (s, \<lparr>sr_TaskId = '''', sr_Ok = False, sr_RedirectAddr = ''''\<rparr>)"
    using assms(3,4) by (simp add: Submit_def proposeAndWait_def Start_def currentLeaderAddr_def GetState_def)
  then have "submit_fn (submit_to_server uuid) payload a (s, '''') = ((s, ''''), Inr '''')" for a
    by (simp add: submit_fn_def submit_to_server_def)
  then show ?thesis
    using call_empty_redirect [where dial = dial and c = c and fn = "submit_fn (submit_to_server uuid) payload"
        and s = "(s, '''')" and s' = "(s, '''')", OF assms(1,2)]
    by (fastforce simp: client_Submit_def)
qed

theorem leaderless_submit_lost_witness:
  "\<exists>c' s'. client_Submit (\<lambda>_. None) (submit_to_server ''t1'') ''doc'' (client_New [''A''])
     (demo_server\<lparr>bs_rf := (bs_rf demo_server)\<lparr>rf_state := Follower\<rparr>\<rparr>) = Inr (c', s', '''', None)"
proof -
  have "client_ok (client_New [''A''])" by (simp add: client_ok_def client_New_def)
  from leaderless_submit_lost [OF this, of "\<lambda>_. None"
      "demo_server\<lparr>bs_rf := (bs_rf demo_server)\<lparr>rf_state := Follower\<rparr>\<rparr>" "''t1''" "''doc''"]
  show ?thesis by auto
qed

end
