(* ===== verification/Client_Concurrency.thy ===== *)
theory Client_Concurrency
  imports Broker_Client
begin

text \<open>
  Concurrent calls on one \<open>Client\<close>: the worker's poll loop and its heartbeat goroutine share
  the client, whose fields are read and written without a lock. The body of \<open>call\<close> is cut
  at every access to a shared field, and goroutines take their steps in any order. Go's
  maps are not safe for this: a write raises a flag in the map, and an access that finds
  the flag raised ends the process with a fatal error.
\<close>

section \<open>Model\<close>

datatype crash = ConcurrentReadWrite | ConcurrentWrites | Panicked go_panic

text \<open>\<open>me_writing\<close> is the flag of the map \<open>conns\<close>; \<open>me_world\<close> is the cluster with the captured variables.\<close>

record 's memory =
  me_client :: Client
  me_writing :: bool
  me_world :: 's

text \<open>Where a goroutine is in \<open>call\<close>.\<close>

datatype call_pc =
    AtHead                   \<comment> \<open>the loop test\<close>
  | AtAddr                   \<comment> \<open>reads \<open>current\<close>\<close>
  | AtLookup string          \<comment> \<open>reads the map\<close>
  | AtDial string
  | AtStore string           \<comment> \<open>begins to write the map\<close>
  | AtStored string          \<comment> \<open>ends writing it\<close>
  | AtCall string            \<comment> \<open>\<open>fn(client)\<close>\<close>
  | AtBump                   \<comment> \<open>reads \<open>current\<close> to add one\<close>
  | AtSet int                \<comment> \<open>writes \<open>current\<close>\<close>
  | Returned "client_error option"

text \<open>The local variables: the attempts left and \<open>lastErr\<close>.\<close>

type_synonym call_locals = "nat \<times> client_error option"

text \<open>What \<open>call\<close> returns when the attempts are used up.\<close>

definition out_of_hops :: "Client \<Rightarrow> client_error option \<Rightarrow> client_error" where
  "out_of_hops c lastErr =
     Unreachable (int (maxHops c)) (case lastErr of Some e \<Rightarrow> e | None \<Rightarrow> CallError ''nil'')"

fun call_stage ::
  "(string \<Rightarrow> string option) \<Rightarrow> (string \<Rightarrow> 's \<Rightarrow> 's \<times> (string + string)) \<Rightarrow> call_pc \<Rightarrow> call_locals \<Rightarrow> 's memory
     \<Rightarrow> crash + (call_pc \<times> call_locals \<times> 's memory)" where
  "call_stage dial fn AtHead (hops, e) m =
     (case hops of
        0 \<Rightarrow> Inr (Returned (Some (out_of_hops (me_client m) e)), (hops, e), m)
      | Suc n \<Rightarrow> Inr (AtAddr, (n, e), m))"
| "call_stage dial fn AtAddr v m =
     (case slice_get (bc_addrs (me_client m)) (bc_current (me_client m)) of
        Inl p \<Rightarrow> Inl (Panicked p) | Inr addr \<Rightarrow> Inr (AtLookup addr, v, m))"
| "call_stage dial fn (AtLookup addr) v m =
     (if me_writing m then Inl ConcurrentReadWrite
      else Inr (if addr \<in> set (bc_conns (me_client m)) then AtCall addr else AtDial addr, v, m))"
| "call_stage dial fn (AtDial addr) (hops, e) m =
     (case dial addr of
        Some err \<Rightarrow> Inr (AtBump, (hops, Some (DialError addr err)), m) | None \<Rightarrow> Inr (AtStore addr, (hops, e), m))"
| "call_stage dial fn (AtStore addr) v m =
     (if me_writing m then Inl ConcurrentWrites else Inr (AtStored addr, v, m\<lparr>me_writing := True\<rparr>))"
| "call_stage dial fn (AtStored addr) v m =
     (let c = me_client m
      in Inr (AtCall addr, v, m\<lparr>me_client := c\<lparr>bc_conns := addr # bc_conns c\<rparr>, me_writing := False\<rparr>))"
| "call_stage dial fn (AtCall addr) (hops, e) m =
     (case fn addr (me_world m) of
        (w, Inl err) \<Rightarrow> Inr (AtBump, (hops, Some (CallError err)), m\<lparr>me_world := w\<rparr>)
      | (w, Inr redirect) \<Rightarrow>
          if redirect \<noteq> '''' then
            (let idx = addrIndex (me_client m) redirect
             in Inr (if idx \<ge> 0 then AtSet idx else AtBump, (hops, Some (NotLeader redirect)), m\<lparr>me_world := w\<rparr>))
          else Inr (Returned None, (hops, e), m\<lparr>me_world := w\<rparr>))"
| "call_stage dial fn AtBump v m =
     Inr (AtSet ((bc_current (me_client m) + 1) mod int (length (bc_addrs (me_client m)))), v, m)"
| "call_stage dial fn (AtSet i) v m =
     Inr (AtHead, v, m\<lparr>me_client := (me_client m)\<lparr>bc_current := i\<rparr>\<rparr>)"
| "call_stage dial fn (Returned r) v m = Inr (Returned r, v, m)"

text \<open>The calls made so far; a fatal error ends everything.\<close>

record 's pool =
  pl_mem :: "'s memory"
  pl_calls :: "(call_pc \<times> call_locals) list"
  pl_crash :: "crash option"

datatype pool_event = NewCall | Advance nat

definition call_entry :: "Client \<Rightarrow> call_pc \<times> call_locals" where
  "call_entry c = (if length (bc_addrs c) = 0 then Returned (Some NoAddresses) else AtHead, (maxHops c, None))"

text \<open>\<open>fn g\<close> is the closure of call \<open>g\<close>.\<close>

fun pool_exec ::
  "(string \<Rightarrow> string option) \<Rightarrow> (nat \<Rightarrow> string \<Rightarrow> 's \<Rightarrow> 's \<times> (string + string)) \<Rightarrow> pool_event \<Rightarrow> 's pool \<Rightarrow> 's pool option" where
  "pool_exec dial fn NewCall s =
     (if pl_crash s \<noteq> None then None
      else Some (s\<lparr>pl_calls := pl_calls s @ [call_entry (me_client (pl_mem s))]\<rparr>))"
| "pool_exec dial fn (Advance g) s =
     (if pl_crash s \<noteq> None \<or> length (pl_calls s) \<le> g then None
      else (case pl_calls s ! g of
              (Returned r, v) \<Rightarrow> None
            | (pc, v) \<Rightarrow>
                (case call_stage dial (fn g) pc v (pl_mem s) of
                   Inl c \<Rightarrow> Some (s\<lparr>pl_crash := Some c\<rparr>)
                 | Inr (pc', v', m) \<Rightarrow> Some (s\<lparr>pl_mem := m, pl_calls := (pl_calls s)[g := (pc', v')]\<rparr>))))"

definition pool_start :: "Client \<Rightarrow> 's \<Rightarrow> 's pool \<Rightarrow> bool" where
  "pool_start c w s \<longleftrightarrow>
     s = \<lparr>pl_mem = \<lparr>me_client = c, me_writing = False, me_world = w\<rparr>, pl_calls = [], pl_crash = None\<rparr>"

definition pool_step ::
  "(string \<Rightarrow> string option) \<Rightarrow> (nat \<Rightarrow> string \<Rightarrow> 's \<Rightarrow> 's \<times> (string + string)) \<Rightarrow> 's pool \<Rightarrow> 's pool \<Rightarrow> bool" where
  "pool_step dial fn s t \<longleftrightarrow> (\<exists>ev. pool_exec dial fn ev s = Some t)"

section \<open>A call on its own\<close>

definition lone_step ::
  "(string \<Rightarrow> string option) \<Rightarrow> (string \<Rightarrow> 's \<Rightarrow> 's \<times> (string + string))
     \<Rightarrow> call_pc \<times> call_locals \<times> 's memory \<Rightarrow> call_pc \<times> call_locals \<times> 's memory \<Rightarrow> bool" where
  "lone_step dial fn x y \<longleftrightarrow> (case x of (pc, v, m) \<Rightarrow> call_stage dial fn pc v m = Inr y)"

lemma lone_stepI: "call_stage dial fn pc v m = Inr y \<Longrightarrow> lone_step dial fn (pc, v, m) y"
  by (simp add: lone_step_def)

abbreviation quiet_memory :: "Client \<Rightarrow> 's \<Rightarrow> 's memory" where
  "quiet_memory c w \<equiv> \<lparr>me_client = c, me_writing = False, me_world = w\<rparr>"

text \<open>Undisturbed, the steps are the loop of the sequential model.\<close>

lemma lone_clientFor:
  assumes "clientFor dial a c = (c1, r)"
  shows "(lone_step dial fn)\<^sup>*\<^sup>* (AtLookup a, (n, e), quiet_memory c w)
    (case r of Inl err \<Rightarrow> (AtBump, (n, Some err), quiet_memory c1 w) | Inr x \<Rightarrow> (AtCall x, (n, e), quiet_memory c1 w))"
proof (cases "a \<in> set (bc_conns c)")
  case True
  then show ?thesis using assms by (auto simp: clientFor_def intro!: r_into_rtranclp lone_stepI)
next
  case False
  then have look: "lone_step dial fn (AtLookup a, (n, e), quiet_memory c w) (AtDial a, (n, e), quiet_memory c w)"
    by (simp add: lone_step_def)
  show ?thesis
  proof (cases "dial a")
    case (Some err)
    then have "lone_step dial fn (AtDial a, (n, e), quiet_memory c w) (AtBump, (n, Some (DialError a err)), quiet_memory c w)"
      by (simp add: lone_step_def)
    then show ?thesis using look Some False assms by (auto simp: clientFor_def intro: converse_rtranclp_into_rtranclp)
  next
    case None
    let ?m = "(quiet_memory c w)\<lparr>me_writing := True\<rparr>"
    have steps: "lone_step dial fn (AtDial a, (n, e), quiet_memory c w) (AtStore a, (n, e), quiet_memory c w)"
      "lone_step dial fn (AtStore a, (n, e), quiet_memory c w) (AtStored a, (n, e), ?m)"
      "lone_step dial fn (AtStored a, (n, e), ?m) (AtCall a, (n, e), quiet_memory (c\<lparr>bc_conns := a # bc_conns c\<rparr>) w)"
      using None by (simp_all add: lone_step_def Let_def)
    have "(c1, r) = (c\<lparr>bc_conns := a # bc_conns c\<rparr>, Inr a)" using assms None False by (simp add: clientFor_def)
    then show ?thesis
      using look steps by (auto intro: converse_rtranclp_into_rtranclp)
  qed
qed

lemma lone_advance:
  "(lone_step dial fn)\<^sup>*\<^sup>* (AtBump, v, quiet_memory c w) (AtHead, v, quiet_memory (next_addr c) w)"
  "lone_step dial fn (AtSet i, v, quiet_memory c w) (AtHead, v, quiet_memory (c\<lparr>bc_current := i\<rparr>) w)"
proof -
  let ?i = "(bc_current c + 1) mod int (length (bc_addrs c))"
  show set: "lone_step dial fn (AtSet i, v, quiet_memory c w) (AtHead, v, quiet_memory (c\<lparr>bc_current := i\<rparr>) w)" for i
    by (simp add: lone_step_def)
  have "lone_step dial fn (AtBump, v, quiet_memory c w) (AtSet ?i, v, quiet_memory c w)"
    by (simp add: lone_step_def)
  then show "(lone_step dial fn)\<^sup>*\<^sup>* (AtBump, v, quiet_memory c w) (AtHead, v, quiet_memory (next_addr c) w)"
    using set [of ?i] by (auto simp: next_addr_def intro: converse_rtranclp_into_rtranclp)
qed

lemma lone_star: "lone_step dial fn x y \<Longrightarrow> (lone_step dial fn)\<^sup>*\<^sup>* y z \<Longrightarrow> (lone_step dial fn)\<^sup>*\<^sup>* x z"
  by (rule converse_rtranclp_into_rtranclp)

lemma lone_loop:
  assumes "call_loop dial fn hops e c w = Inr (c', w', res)"
  shows "\<exists>v. (lone_step dial fn)\<^sup>*\<^sup>* (AtHead, (hops, e), quiet_memory c w)
    (Returned (map_option (out_of_hops c') res), v, quiet_memory c' w')"
  using assms
proof (induction hops arbitrary: e c w)
  case 0
  have "lone_step dial fn (AtHead, (0, e), quiet_memory c w) (Returned (Some (out_of_hops c e)), (0, e), quiet_memory c w)"
    by (simp add: lone_step_def)
  then show ?case using 0 by (intro exI [of _ "(0, e)"]) auto
next
  case (Suc hops)
  obtain a where a: "slice_get (bc_addrs c) (bc_current c) = Inr a"
    using Suc.prems by (cases "slice_get (bc_addrs c) (bc_current c)") auto
  obtain c1 r where cf: "clientFor dial a c = (c1, r)" by fastforce
  have "lone_step dial fn (AtHead, (Suc hops, e), quiet_memory c w) (AtAddr, (hops, e), quiet_memory c w)"
    "lone_step dial fn (AtAddr, (hops, e), quiet_memory c w) (AtLookup a, (hops, e), quiet_memory c w)"
    using a by (simp_all add: lone_step_def)
  note st = this
  have start: "(lone_step dial fn)\<^sup>*\<^sup>* (AtHead, (Suc hops, e), quiet_memory c w)
      (case r of Inl err \<Rightarrow> (AtBump, (hops, Some err), quiet_memory c1 w) | Inr x \<Rightarrow> (AtCall x, (hops, e), quiet_memory c1 w))"
    by (rule lone_star [OF st(1) lone_star [OF st(2) lone_clientFor [OF cf]]])
  show ?case
  proof (cases r)
    case (Inl err)
    from Suc.IH [of "Some err" "next_addr c1" w] Suc.prems a cf Inl show ?thesis
      using rtranclp_trans [OF start] lone_advance(1) by (fastforce intro: rtranclp_trans)
  next
    case (Inr x)
    obtain w1 out where fn: "fn x w = (w1, out)" by fastforce
    have start: "(lone_step dial fn)\<^sup>*\<^sup>* (AtHead, (Suc hops, e), quiet_memory c w) (AtCall x, (hops, e), quiet_memory c1 w)"
      using start Inr by simp
    show ?thesis
    proof (cases out)
      case (Inl err)
      then have "lone_step dial fn (AtCall x, (hops, e), quiet_memory c1 w) (AtBump, (hops, Some (CallError err)), quiet_memory c1 w1)"
        using fn by (simp add: lone_step_def)
      then have "(lone_step dial fn)\<^sup>*\<^sup>* (AtHead, (Suc hops, e), quiet_memory c w)
          (AtHead, (hops, Some (CallError err)), quiet_memory (next_addr c1) w1)"
        using start lone_advance(1) by (meson rtranclp.rtrancl_into_rtrancl rtranclp_trans)
      moreover have "call_loop dial fn hops (Some (CallError err)) (next_addr c1) w1 = Inr (c', w', res)"
        using Suc.prems a cf \<open>r = Inr x\<close> fn Inl by simp
      ultimately show ?thesis using Suc.IH by (meson rtranclp_trans)
    next
      case out: (Inr red)
      show ?thesis
      proof (cases "red = ''''")
        case True
        then have "lone_step dial fn (AtCall x, (hops, e), quiet_memory c1 w) (Returned None, (hops, e), quiet_memory c1 w1)"
          using fn out by (simp add: lone_step_def)
        moreover have "c' = c1 \<and> w' = w1 \<and> res = None" using Suc.prems a cf \<open>r = Inr x\<close> fn out True by simp
        ultimately show ?thesis using start by (auto intro: rtranclp.rtrancl_into_rtrancl)
      next
        case False
        let ?i = "addrIndex c1 red" and ?e = "Some (NotLeader red)"
        let ?c2 = "if ?i \<ge> 0 then c1\<lparr>bc_current := ?i\<rparr> else next_addr c1"
        have "lone_step dial fn (AtCall x, (hops, e), quiet_memory c1 w)
            (if ?i \<ge> 0 then AtSet ?i else AtBump, (hops, ?e), quiet_memory c1 w1)"
          using fn out False by (simp add: lone_step_def Let_def)
        moreover have "(lone_step dial fn)\<^sup>*\<^sup>* (if ?i \<ge> 0 then AtSet ?i else AtBump, (hops, ?e), quiet_memory c1 w1)
            (AtHead, (hops, ?e), quiet_memory ?c2 w1)"
          using lone_advance(1) [of dial fn "(hops, ?e)" c1 w1] lone_advance(2) [of dial fn ?i "(hops, ?e)" c1 w1]
          by (auto intro: r_into_rtranclp)
        ultimately have "(lone_step dial fn)\<^sup>*\<^sup>* (AtHead, (Suc hops, e), quiet_memory c w) (AtHead, (hops, ?e), quiet_memory ?c2 w1)"
          using start by (meson rtranclp.rtrancl_into_rtrancl rtranclp_trans)
        moreover have "call_loop dial fn hops ?e ?c2 w1 = Inr (c', w', res)"
          using Suc.prems a cf \<open>r = Inr x\<close> fn out False by (simp add: Let_def)
        ultimately show ?thesis using Suc.IH by (meson rtranclp_trans)
      qed
    qed
  qed
qed

lemma lone_call:
  assumes "client_ok c" and "call dial fn c w = Inr (c', w', err)"
  shows "\<exists>v. (lone_step dial fn)\<^sup>*\<^sup>* (fst (call_entry c), snd (call_entry c), quiet_memory c w)
    (Returned err, v, quiet_memory c' w')"
proof -
  have ne: "bc_addrs c \<noteq> []" using assms(1) by (simp add: client_ok_def)
  obtain c1 w1 res where loop: "call_loop dial fn (maxHops c) None c w = Inr (c1, w1, res)" "bc_addrs c1 = bc_addrs c"
    using call_loop_total [OF assms(1), of "\<lambda>_. True" fn w dial "maxHops c" None] by auto
  have "maxHops c1 = maxHops c" using loop(2) by (simp add: maxHops_def)
  then have "c' = c1 \<and> w' = w1 \<and> err = map_option (out_of_hops c1) res"
    using assms(2) loop ne by (auto simp: call_def out_of_hops_def split: option.splits)
  then show ?thesis using lone_loop [OF loop(1)] ne by (simp add: call_entry_def)
qed

section \<open>What interleaving cannot break\<close>

text \<open>The own steps that a goroutine has left.\<close>

fun call_work :: "call_pc \<Rightarrow> call_locals \<Rightarrow> nat" where
  "call_work AtHead v = 10 * fst v + 1"
| "call_work AtAddr v = 10 * fst v + 9"
| "call_work (AtLookup a) v = 10 * fst v + 8"
| "call_work (AtDial a) v = 10 * fst v + 7"
| "call_work (AtStore a) v = 10 * fst v + 6"
| "call_work (AtStored a) v = 10 * fst v + 5"
| "call_work (AtCall a) v = 10 * fst v + 4"
| "call_work AtBump v = 10 * fst v + 3"
| "call_work (AtSet i) v = 10 * fst v + 2"
| "call_work (Returned r) v = 0"

lemma call_stage_work:
  "call_stage dial fn pc v m = Inr (pc', v', m') \<Longrightarrow> (\<And>r. pc \<noteq> Returned r) \<Longrightarrow> call_work pc' v' < call_work pc v"
  by (cases "(dial, fn, pc, v, m)" rule: call_stage.cases)
    (auto simp: Let_def split: nat.splits sum.splits option.splits prod.splits if_splits)

text \<open>Where a goroutine may be: at a configured address, about to set an index in range.\<close>

fun pc_ok :: "string list \<Rightarrow> call_pc \<Rightarrow> bool" where
  "pc_ok addrs (AtLookup a) \<longleftrightarrow> a \<in> set addrs"
| "pc_ok addrs (AtDial a) \<longleftrightarrow> a \<in> set addrs"
| "pc_ok addrs (AtStore a) \<longleftrightarrow> a \<in> set addrs"
| "pc_ok addrs (AtStored a) \<longleftrightarrow> a \<in> set addrs"
| "pc_ok addrs (AtCall a) \<longleftrightarrow> a \<in> set addrs"
| "pc_ok addrs (AtSet i) \<longleftrightarrow> 0 \<le> i \<and> i < int (length addrs)"
| "pc_ok addrs pc \<longleftrightarrow> True"

text \<open>A goroutine of a client that has all its connections is never about to make one.\<close>

fun pc_warm :: "call_pc \<Rightarrow> bool" where
  "pc_warm (AtDial a) \<longleftrightarrow> False"
| "pc_warm (AtStore a) \<longleftrightarrow> False"
| "pc_warm (AtStored a) \<longleftrightarrow> False"
| "pc_warm pc \<longleftrightarrow> True"

definition memory_ok :: "Client \<Rightarrow> 's memory \<Rightarrow> bool" where
  "memory_ok c m \<longleftrightarrow> client_ok (me_client m) \<and> bc_addrs (me_client m) = bc_addrs c"

definition memory_warm :: "Client \<Rightarrow> 's memory \<Rightarrow> bool" where
  "memory_warm c m \<longleftrightarrow> \<not> me_writing m \<and> bc_conns (me_client m) = bc_conns c"

lemma call_stage_ok:
  assumes "memory_ok c m" and "pc_ok (bc_addrs c) pc"
  shows "\<forall>p. call_stage dial fn pc v m \<noteq> Inl (Panicked p)"
    and "call_stage dial fn pc v m = Inr (pc', v', m') \<Longrightarrow> memory_ok c m' \<and> pc_ok (bc_addrs c) pc'"
proof -
  have c: "bc_addrs (me_client m) = bc_addrs c" "0 \<le> bc_current (me_client m)"
      "bc_current (me_client m) < int (length (bc_addrs c))" "bc_addrs c \<noteq> []"
    using assms(1) by (auto simp: memory_ok_def client_ok_def)
  then have nth: "bc_addrs c ! nat (bc_current (me_client m)) \<in> set (bc_addrs c)" by (simp add: nat_less_iff)
  have idx: "addrIndex (me_client m) a < int (length (bc_addrs c))" if "0 \<le> addrIndex (me_client m) a" for a
    using addrIndex_known [OF that] c(1) by simp
  show "\<forall>p. call_stage dial fn pc v m \<noteq> Inl (Panicked p)"
    using assms c by (cases "(dial, fn, pc, v, m)" rule: call_stage.cases)
      (auto simp: Let_def split: nat.splits sum.splits option.splits prod.splits if_splits)
  show "memory_ok c m' \<and> pc_ok (bc_addrs c) pc'" if "call_stage dial fn pc v m = Inr (pc', v', m')"
    using that assms c nth by (cases "(dial, fn, pc, v, m)" rule: call_stage.cases)
      (auto simp: Let_def memory_ok_def client_ok_def idx
        split: nat.splits sum.splits option.splits prod.splits if_splits)
qed

lemma call_stage_warm:
  assumes "memory_ok c m" and "memory_warm c m" and "pc_ok (bc_addrs c) pc" and "pc_warm pc"
    and "set (bc_addrs c) \<subseteq> set (bc_conns c)"
  shows "\<exists>pc' v' m'. call_stage dial fn pc v m = Inr (pc', v', m') \<and> memory_warm c m' \<and> pc_warm pc'"
proof -
  have c: "bc_addrs (me_client m) = bc_addrs c" "0 \<le> bc_current (me_client m)"
      "bc_current (me_client m) < int (length (bc_addrs c))"
    using assms(1) by (auto simp: memory_ok_def client_ok_def)
  then show ?thesis
    using assms(2-5) by (cases "(dial, fn, pc, v, m)" rule: call_stage.cases)
      (auto simp: Let_def memory_warm_def split: nat.splits sum.splits option.splits prod.splits if_splits)
qed

definition pool_inv :: "Client \<Rightarrow> 's pool \<Rightarrow> bool" where
  "pool_inv c s \<longleftrightarrow> memory_ok c (pl_mem s) \<and> (\<forall>p. pl_crash s \<noteq> Some (Panicked p)) \<and>
     (\<forall>(pc, v) \<in> set (pl_calls s). pc_ok (bc_addrs c) pc) \<and>
     (set (bc_addrs c) \<subseteq> set (bc_conns c) \<longrightarrow>
        pl_crash s = None \<and> memory_warm c (pl_mem s) \<and> (\<forall>(pc, v) \<in> set (pl_calls s). pc_warm pc))"


lemma pool_inv_start: "client_ok c \<Longrightarrow> pool_start c w s \<Longrightarrow> pool_inv c s"
  by (simp add: pool_start_def pool_inv_def memory_ok_def memory_warm_def)

lemma pool_inv_step:
  assumes "pool_step dial fn s t" and inv: "pool_inv c s"
  shows "pool_inv c t"
proof -
  obtain ev where ev: "pool_exec dial fn ev s = Some t" using assms(1) by (auto simp: pool_step_def)
  show ?thesis
  proof (cases ev)
    case NewCall
    have "pc_ok (bc_addrs c) pc \<and> pc_warm pc" if "call_entry (me_client (pl_mem s)) = (pc, v)" for pc v
      using that by (auto simp: call_entry_def split: if_splits)
    then show ?thesis using ev inv NewCall
      by (cases "call_entry (me_client (pl_mem s))") (auto simp: pool_inv_def split: if_splits)
  next
    case (Advance g)
    then have g: "g < length (pl_calls s)" "pl_crash s = None" using ev by (auto split: if_splits)
    obtain pc v where pc: "pl_calls s ! g = (pc, v)" by (cases "pl_calls s ! g")
    then have mem: "(pc, v) \<in> set (pl_calls s)" using g(1) by (metis nth_mem)
    have ok: "memory_ok c (pl_mem s)" "pc_ok (bc_addrs c) pc"
      and warm: "set (bc_addrs c) \<subseteq> set (bc_conns c) \<Longrightarrow> memory_warm c (pl_mem s) \<and> pc_warm pc"
      using inv mem by (auto simp: pool_inv_def)
    have "(case call_stage dial (fn g) pc v (pl_mem s) of
        Inl x \<Rightarrow> Some (s\<lparr>pl_crash := Some x\<rparr>)
      | Inr (pc', v', m) \<Rightarrow> Some (s\<lparr>pl_mem := m, pl_calls := (pl_calls s)[g := (pc', v')]\<rparr>)) = Some t"
      using ev Advance g pc by (cases pc) auto
    then consider (crash) x where "call_stage dial (fn g) pc v (pl_mem s) = Inl x" "t = s\<lparr>pl_crash := Some x\<rparr>"
      | (move) pc' v' m where "call_stage dial (fn g) pc v (pl_mem s) = Inr (pc', v', m)"
          "t = s\<lparr>pl_mem := m, pl_calls := (pl_calls s)[g := (pc', v')]\<rparr>"
      by (auto split: sum.splits)
    then show ?thesis
    proof cases
      case crash
      then show ?thesis
        using inv call_stage_ok(1) [OF ok, of dial "fn g" v] call_stage_warm [OF ok(1) _ ok(2), of dial "fn g" v] warm
        by (fastforce simp: pool_inv_def)
    next
      case move
      have "memory_ok c m \<and> pc_ok (bc_addrs c) pc'" by (rule call_stage_ok(2) [OF ok move(1)])
      moreover have "memory_warm c m \<and> pc_warm pc'" if "set (bc_addrs c) \<subseteq> set (bc_conns c)"
        using call_stage_warm [OF ok(1) _ ok(2) _ that, of dial "fn g" v] warm [OF that] move(1) by auto
      ultimately show ?thesis
        using inv move(2) by (auto simp: pool_inv_def dest!: set_update_subset_insert [THEN subsetD])
    qed
  qed
qed

text \<open>
  Concurrent calls keep the index in range and configured: without a lock, the integer is
  safe. If all addresses have their connection, nothing can go wrong at all.
\<close>

interpretation pools: invariant_of "\<lambda>s. client_ok c \<and> pool_start c w s" "pool_step dial fn" "\<lambda>_. True" "pool_inv c"
    for c :: Client and w :: 's and dial and fn :: "nat \<Rightarrow> string \<Rightarrow> 's \<Rightarrow> 's \<times> (string + string)"
  by unfold_locales (auto intro: pool_inv_start pool_inv_step)

abbreviation pool_reach ::
  "(string \<Rightarrow> string option) \<Rightarrow> (nat \<Rightarrow> string \<Rightarrow> 's \<Rightarrow> 's \<times> (string + string)) \<Rightarrow> Client \<Rightarrow> 's \<Rightarrow> 's pool \<Rightarrow> bool" where
  "pool_reach dial fn c w \<equiv> reach (\<lambda>s. client_ok c \<and> pool_start c w s) (pool_step dial fn)"

section \<open>What it can break\<close>

fun run_pool ::
  "(string \<Rightarrow> string option) \<Rightarrow> (nat \<Rightarrow> string \<Rightarrow> 's \<Rightarrow> 's \<times> (string + string)) \<Rightarrow> pool_event list \<Rightarrow> 's pool \<Rightarrow> 's pool option" where
  "run_pool dial fn [] s = Some s"
| "run_pool dial fn (ev # evs) s = (case pool_exec dial fn ev s of None \<Rightarrow> None | Some t \<Rightarrow> run_pool dial fn evs t)"

lemma run_pool_reach: "pool_reach dial fn c w s \<Longrightarrow> run_pool dial fn evs s = Some t \<Longrightarrow> pool_reach dial fn c w t"
proof (induction evs arbitrary: s)
  case (Cons ev evs)
  then obtain u where u: "pool_exec dial fn ev s = Some u" "run_pool dial fn evs u = Some t"
    by (auto split: option.splits)
  then have "pool_step dial fn s u" by (auto simp: pool_step_def)
  then have "pool_reach dial fn c w u" by (rule reach.reach_step [OF Cons.prems(1)])
  then show ?case using Cons.IH u(2) by blast
qed simp

text \<open>Two calls meet at an address that has no connection yet.\<close>

definition race_read :: "pool_event list" where
  "race_read = [NewCall, NewCall] @ replicate 5 (Advance 0) @ replicate 3 (Advance 1)"

definition race_write :: "pool_event list" where
  "race_write = [NewCall, NewCall] @ replicate 4 (Advance 0) @ replicate 4 (Advance 1) @ [Advance 0, Advance 1]"

lemma races:
  assumes ok: "client_ok c" and new: "bc_addrs c ! nat (bc_current c) \<notin> set (bc_conns c)"
    and dial: "dial (bc_addrs c ! nat (bc_current c)) = None" and s: "pool_start c w s"
  shows "\<exists>t. run_pool dial fn race_read s = Some t \<and> pl_crash t = Some ConcurrentReadWrite"
    and "\<exists>t. run_pool dial fn race_write s = Some t \<and> pl_crash t = Some ConcurrentWrites"
proof -
  obtain n where n: "maxHops c = Suc n" by (cases "maxHops c") (auto simp: maxHops_def split: if_splits)
  have c: "0 \<le> bc_current c" "bc_current c < int (length (bc_addrs c))" "bc_addrs c \<noteq> []"
    using ok by (auto simp: client_ok_def)
  note defs = pool_start_def call_entry_def race_read_def race_write_def numeral_eq_Suc
  show "\<exists>t. run_pool dial fn race_read s = Some t \<and> pl_crash t = Some ConcurrentReadWrite"
    using s c new dial n by (simp add: defs)
  show "\<exists>t. run_pool dial fn race_write s = Some t \<and> pl_crash t = Some ConcurrentWrites"
    using s c new dial n by (simp add: defs)
qed

section \<open>The properties\<close>

text \<open>C28 What sharing a client among goroutines cannot break: in every interleaving of any number of
  calls, the index of the current node stays in range, no slice is indexed outside, and
  only configured addresses are called; a call that has not returned can always go on, and
  each of its own steps brings it nearer to its end; and if every address already has its
  connection, the process never ends with a fatal error.\<close>

theorem shared_client_safe:
  assumes "pool_reach dial fn c w s"
  shows "client_ok (me_client (pl_mem s)) \<and> bc_addrs (me_client (pl_mem s)) = bc_addrs c \<and>
    (\<forall>p. pl_crash s \<noteq> Some (Panicked p)) \<and>
    (\<forall>a v. (AtCall a, v) \<in> set (pl_calls s) \<longrightarrow> a \<in> set (bc_addrs c)) \<and>
    (pl_crash s = None \<longrightarrow> (\<forall>g < length (pl_calls s). (\<exists>r v. pl_calls s ! g = (Returned r, v)) \<or>
       (\<exists>t. pool_exec dial fn (Advance g) s = Some t \<and>
          (pl_crash t = None \<longrightarrow> case_prod call_work (pl_calls t ! g) < case_prod call_work (pl_calls s ! g))))) \<and>
    (set (bc_addrs c) \<subseteq> set (bc_conns c) \<longrightarrow> pl_crash s = None \<and> bc_conns (me_client (pl_mem s)) = bc_conns c)"
proof -
  have inv: "pool_inv c s" by (rule pools.reach_inv [OF assms])
  have goes_on: "\<exists>t. pool_exec dial fn (Advance g) s = Some t \<and>
      (pl_crash t = None \<longrightarrow> case_prod call_work (pl_calls t ! g) < case_prod call_work (pl_calls s ! g))"
    if "pl_crash s = None" "g < length (pl_calls s)" "\<not> (\<exists>r v. pl_calls s ! g = (Returned r, v))" for g
  proof -
    obtain pc v where pc: "pl_calls s ! g = (pc, v)" by (cases "pl_calls s ! g")
    then have nr: "\<forall>r. pc \<noteq> Returned r" using that(3) by auto
    have "pool_exec dial fn (Advance g) s = (case call_stage dial (fn g) pc v (pl_mem s) of
          Inl x \<Rightarrow> Some (s\<lparr>pl_crash := Some x\<rparr>)
        | Inr (pc', v', m) \<Rightarrow> Some (s\<lparr>pl_mem := m, pl_calls := (pl_calls s)[g := (pc', v')]\<rparr>))"
      using that(1,2) nr pc by (cases pc) simp_all
    then show ?thesis
      using call_stage_work [of dial "fn g" pc v "pl_mem s"] nr that(2) pc by (auto split: sum.split prod.split)
  qed
  show ?thesis
    using inv goes_on by (fastforce simp: pool_inv_def memory_ok_def memory_warm_def)
qed

theorem shared_client_safe_witness:
  "\<exists>s. pl_calls s = [(AtAddr, (3, None)), (AtAddr, (3, None))] \<and> pl_crash s = None \<and>
     client_ok (me_client (pl_mem s)) \<and>
     (\<exists>t. pool_exec (\<lambda>_. None) (\<lambda>g a n. (n + 1 :: nat, Inr '''')) (Advance 1) s = Some t)"
proof -
  let ?c = "(client_New [''A'', ''B''])\<lparr>bc_conns := [''A'', ''B'']\<rparr>" and ?fn = "\<lambda>(g :: nat) (a :: string) n. (n + 1 :: nat, Inr '''')"
  let ?s = "\<lparr>pl_mem = quiet_memory ?c (0 :: nat), pl_calls = [], pl_crash = None\<rparr>"
  have "client_ok ?c" by (simp add: client_ok_def client_New_def)
  then have start: "pool_reach (\<lambda>_. None) ?fn ?c 0 ?s" by (intro reach.reach_start) (simp add: pool_start_def)
  obtain t where t: "run_pool (\<lambda>_. None) ?fn [NewCall, NewCall, Advance 0, Advance 1] ?s = Some t"
      "pl_calls t = [(AtAddr, (3, None)), (AtAddr, (3, None))]"
    by (simp add: call_entry_def maxHops_def client_New_def numeral_eq_Suc)
  note safe = shared_client_safe [OF run_pool_reach [OF start t(1)]]
  have "pl_crash t = None" using safe by (simp add: client_New_def)
  then show ?thesis using safe t(2) by (intro exI [of _ t]) (auto simp: All_less_Suc)
qed

text \<open>C29 What it can break: the comment on \<open>Client\<close> says that it is safe for concurrent use, but two
  calls that meet at an address without a connection can end the process, whatever the
  nodes answer: there is an interleaving in which one call reads the connection map while
  the other writes it, and one in which both write it, and Go's runtime stops the program
  at either.\<close>

theorem shared_client_races:
  assumes "client_ok c" and "bc_addrs c ! nat (bc_current c) \<notin> set (bc_conns c)"
    and "dial (bc_addrs c ! nat (bc_current c)) = None"
  shows "(\<exists>s. pool_reach dial fn c w s \<and> pl_crash s = Some ConcurrentReadWrite) \<and>
    (\<exists>s. pool_reach dial fn c w s \<and> pl_crash s = Some ConcurrentWrites)"
proof -
  let ?s = "\<lparr>pl_mem = quiet_memory c w, pl_calls = [], pl_crash = None\<rparr>"
  have s: "pool_start c w ?s" by (simp add: pool_start_def)
  then have r: "pool_reach dial fn c w ?s" using assms(1) by (intro reach.reach_start) simp
  note race = races [where c = c and dial = dial and w = w and s = ?s and fn = fn, OF assms s]
  obtain t u where "run_pool dial fn race_read ?s = Some t" "pl_crash t = Some ConcurrentReadWrite"
      "run_pool dial fn race_write ?s = Some u" "pl_crash u = Some ConcurrentWrites" using race by (elim exE conjE)
  then show ?thesis using run_pool_reach [OF r] by (intro conjI exI) simp_all
qed

theorem shared_client_races_witness:
  "\<exists>s. pool_reach (\<lambda>_. None) (\<lambda>g a n. (n, Inl ''timeout'')) (client_New [''A'']) (0 :: nat) s \<and>
     pl_crash s = Some ConcurrentReadWrite"
  using shared_client_races [where c = "client_New [''A'']" and dial = "\<lambda>_. None"
      and fn = "\<lambda>g a n. (n, Inl ''timeout'')" and w = "0 :: nat"]
  by (simp add: client_ok_def client_New_def)

end
