(* ===== verification/Go_Text.thy ===== *)
theory Go_Text
  imports Prelude
begin

text \<open>
  The parts of Go's standard library that the ingestion code uses on text: the runes of a
  UTF-8 string (\<open>utf8.DecodeRuneInString\<close>, which is what ranging over a string does),
  \<open>unicode.IsSpace\<close>, \<open>strings.FieldsFunc\<close>, \<open>strings.Fields\<close>, \<open>strings.Join\<close>,
  \<open>strings.Split\<close> at one byte and \<open>strconv.Itoa\<close>. A string is a byte sequence that need
  not be valid UTF-8.
\<close>

section \<open>Runes\<close>

definition RuneError :: nat where "RuneError = 65533"

definition in_range :: "nat \<Rightarrow> nat \<Rightarrow> char \<Rightarrow> bool" where
  "in_range lo hi c \<longleftrightarrow> lo \<le> of_char c \<and> of_char c \<le> hi"

definition cont :: "char \<Rightarrow> bool" where
  "cont c \<longleftrightarrow> in_range 128 191 c"

text \<open>
  The first rune of a string and its width in bytes. The second byte of a sequence has a
  narrower range after \<open>0xE0\<close>, \<open>0xED\<close>, \<open>0xF0\<close> and \<open>0xF4\<close>; anything ill-formed is one
  byte of \<open>RuneError\<close>.
\<close>

fun DecodeRune :: "string \<Rightarrow> nat \<times> nat" where
  "DecodeRune [] = (RuneError, 0)"
| "DecodeRune (c0 # rest) =
     (let b0 = of_char c0
      in if b0 < 128 then (b0, 1)
         else if 194 \<le> b0 \<and> b0 \<le> 223 then
           (case rest of
              c1 # _ \<Rightarrow> if cont c1 then ((b0 - 192) * 64 + (of_char c1 - 128), 2) else (RuneError, 1)
            | _ \<Rightarrow> (RuneError, 1))
         else if 224 \<le> b0 \<and> b0 \<le> 239 then
           (case rest of
              c1 # c2 # _ \<Rightarrow>
                if in_range (if b0 = 224 then 160 else 128) (if b0 = 237 then 159 else 191) c1 \<and> cont c2
                then ((b0 - 224) * 4096 + (of_char c1 - 128) * 64 + (of_char c2 - 128), 3)
                else (RuneError, 1)
            | _ \<Rightarrow> (RuneError, 1))
         else if 240 \<le> b0 \<and> b0 \<le> 244 then
           (case rest of
              c1 # c2 # c3 # _ \<Rightarrow>
                if in_range (if b0 = 240 then 144 else 128) (if b0 = 244 then 143 else 191) c1 \<and> cont c2 \<and> cont c3
                then ((b0 - 240) * 262144 + (of_char c1 - 128) * 4096 + (of_char c2 - 128) * 64 + (of_char c3 - 128), 4)
                else (RuneError, 1)
            | _ \<Rightarrow> (RuneError, 1))
         else (RuneError, 1))"

definition rune :: "string \<Rightarrow> nat" where "rune s = fst (DecodeRune s)"
definition width :: "string \<Rightarrow> nat" where "width s = snd (DecodeRune s)"

lemma width_bounds: "s \<noteq> [] \<Longrightarrow> 0 < width s \<and> width s \<le> length s"
  by (cases s) (auto simp: width_def Let_def split: list.split)

lemma in_range_cont: "in_range lo hi c \<Longrightarrow> 128 \<le> lo \<Longrightarrow> hi \<le> 191 \<Longrightarrow> cont c"
  by (simp add: in_range_def cont_def)

text \<open>A continuation byte never starts a rune, and what follows a rune does not change it
  unless it is a continuation byte.\<close>

lemma cont_rune: "cont c \<Longrightarrow> DecodeRune (c # s) = (RuneError, 1)"
  by (auto simp: cont_def in_range_def Let_def)

lemma DecodeRune_append:
  assumes "s \<noteq> []" and "t = [] \<or> \<not> cont (hd t)"
  shows "DecodeRune (s @ t) = DecodeRune s"
proof (cases t)
  case (Cons c u)
  then have "\<not> cont c" using assms(2) by simp
  then have no [simp]: "cont c = False" "in_range (if b then 160 else 128) (if d then 159 else 191) c = False"
      "in_range (if b then 144 else 128) (if d then 143 else 191) c = False" for b d
    using in_range_cont by (fastforce split: if_splits)+
  obtain c0 r where s: "s = c0 # r" using assms(1) by (cases s) auto
  consider "r = []" | c1 where "r = [c1]" | c1 c2 where "r = [c1, c2]" | c1 c2 c3 u where "r = c1 # c2 # c3 # u"
    by (metis list.exhaust)
  then show ?thesis
    unfolding Cons s by cases (simp_all add: Let_def split: list.split cong: if_cong)
qed simp

section \<open>unicode.IsSpace\<close>

definition IsSpace :: "nat \<Rightarrow> bool" where
  "IsSpace r \<longleftrightarrow>
     (if r \<le> 255 then r \<in> {9, 10, 11, 12, 13, 32, 133, 160}
      else r = 5760 \<or> (8192 \<le> r \<and> r \<le> 8202) \<or> r \<in> {8232, 8233, 8239, 8287, 12288})"

section \<open>strings.FieldsFunc, strings.Fields and strings.Join\<close>

text \<open>\<open>word\<close> is the field that has been started, empty when there is none.\<close>

function (sequential) fields_loop :: "(nat \<Rightarrow> bool) \<Rightarrow> string \<Rightarrow> string \<Rightarrow> string list" where
  "fields_loop f word [] = (if word = [] then [] else [word])"
| "fields_loop f word (c # cs) =
     (let s = c # cs; rest = drop (width s) s
      in if f (rune s) then (if word = [] then [] else [word]) @ fields_loop f [] rest
         else fields_loop f (word @ take (width s) s) rest)"
  by pat_completeness auto
termination
  by (relation "measure (\<lambda>(_, _, s). length s)") (use width_bounds in auto)

definition FieldsFunc :: "string \<Rightarrow> (nat \<Rightarrow> bool) \<Rightarrow> string list" where
  "FieldsFunc s f = fields_loop f [] s"

definition Fields :: "string \<Rightarrow> string list" where
  "Fields s = FieldsFunc s IsSpace"

fun Join :: "string list \<Rightarrow> string \<Rightarrow> string" where
  "Join [] sep = []"
| "Join [x] sep = x"
| "Join (x # y # xs) sep = x @ sep @ Join (y # xs) sep"

fun split_loop :: "char \<Rightarrow> string \<Rightarrow> string \<Rightarrow> string list" where
  "split_loop sep cur [] = [cur]"
| "split_loop sep cur (c # cs) = (if c = sep then cur # split_loop sep [] cs else split_loop sep (cur @ [c]) cs)"

definition Split :: "string \<Rightarrow> char \<Rightarrow> string list" where
  "Split s sep = split_loop sep [] s"

subsection \<open>What separators a field function may use\<close>

text \<open>
  The longest prefix without a separator, and that a string has none.
\<close>

function (sequential) span_word :: "(nat \<Rightarrow> bool) \<Rightarrow> string \<Rightarrow> string \<times> string" where
  "span_word f [] = ([], [])"
| "span_word f (c # cs) =
     (let s = c # cs
      in if f (rune s) then ([], s)
         else (case span_word f (drop (width s) s) of (u, v) \<Rightarrow> (take (width s) s @ u, v)))"
  by pat_completeness auto
termination
  by (relation "measure (\<lambda>(_, s). length s)") (use width_bounds in auto)

lemma span_word_step:
  "s \<noteq> [] \<Longrightarrow> span_word f s =
    (if f (rune s) then ([], s) else (case span_word f (drop (width s) s) of (u, v) \<Rightarrow> (take (width s) s @ u, v)))"
  by (cases s) (simp_all add: Let_def)

definition plain :: "(nat \<Rightarrow> bool) \<Rightarrow> string \<Rightarrow> bool" where
  "plain f s \<longleftrightarrow> span_word f s = (s, [])"

lemma span_word_append: "span_word f s = (u, v) \<Longrightarrow> s = u @ v"
proof (induction f s arbitrary: u v rule: span_word.induct)
  case (2 f c cs)
  show ?case
  proof (cases "f (rune (c # cs))")
    case False
    then obtain u' where "span_word f (drop (width (c # cs)) (c # cs)) = (u', v)" "u = take (width (c # cs)) (c # cs) @ u'"
      using "2.prems" by (auto simp: Let_def split: prod.splits)
    then show ?thesis using "2.IH" [OF refl False] by (metis append_assoc append_take_drop_id)
  qed (use "2.prems" in \<open>simp add: Let_def\<close>)
qed simp

lemma span_word_rest: "span_word f s = (u, v) \<Longrightarrow> v = [] \<or> f (rune v)"
  by (induction f s arbitrary: u v rule: span_word.induct) (auto simp: Let_def split: if_splits prod.splits)

lemma fields_span:
  "span_word f s = (u, v) \<Longrightarrow>
    fields_loop f w s = (if w @ u = [] then [] else [w @ u]) @ (if v = [] then [] else fields_loop f [] (drop (width v) v))"
proof (induction f s arbitrary: u v w rule: span_word.induct)
  case (2 f c cs)
  let ?s = "c # cs"
  show ?case
  proof (cases "f (rune ?s)")
    case True
    then show ?thesis using "2.prems" by (auto simp: Let_def)
  next
    case False
    obtain u' where u': "span_word f (drop (width ?s) ?s) = (u', v)" "u = take (width ?s) ?s @ u'"
      using "2.prems" False by (auto simp: Let_def split: prod.splits)
    have "fields_loop f w ?s = fields_loop f (w @ take (width ?s) ?s) (drop (width ?s) ?s)"
      using False by (simp add: Let_def)
    also have "\<dots> = (if w @ u = [] then [] else [w @ u]) @ (if v = [] then [] else fields_loop f [] (drop (width v) v))"
      using "2.IH" [OF refl False u'(1), of "w @ take (width ?s) ?s"] u'(2) by simp
    finally show ?thesis .
  qed
qed auto

text \<open>
  A separator predicate that holds of the space and not of the error rune: cutting at
  separators never cuts inside a rune, so that the words of a text stay words when they
  are joined by spaces.
\<close>

locale separator =
  fixes sep :: "nat \<Rightarrow> bool"
  assumes sep_space: "sep 32" and sep_error: "\<not> sep RuneError"
begin

lemma sep_not_cont: "s \<noteq> [] \<Longrightarrow> sep (rune s) \<Longrightarrow> \<not> cont (hd s)"
  using cont_rune sep_error by (cases s) (auto simp: rune_def)

lemma span_word_plain: "span_word sep s = (u, v) \<Longrightarrow> plain sep u"
proof (induction "length s" arbitrary: s u v rule: less_induct)
  case less
  show ?case
  proof (cases "s = [] \<or> sep (rune s)")
    case False
    then obtain c cs where s: "s = c # cs" and ns: "\<not> sep (rune s)" by (cases s) auto
    obtain u' where u': "span_word sep (drop (width s) s) = (u', v)" "u = take (width s) s @ u'"
      using less.prems ns by (auto simp: s Let_def split: prod.splits)
    have split: "s = u @ v" using span_word_append [OF less.prems] .
    have w: "0 < width s" "width s \<le> length s" using width_bounds [of s] s by auto
    then have u: "u \<noteq> []" using u'(2) s by (cases "width s") auto
    have "v = [] \<or> \<not> cont (hd v)"
      using span_word_rest [OF less.prems] sep_not_cont by blast
    from DecodeRune_append [OF u this] have same: "rune u = rune s" "width u = width s"
      by (simp_all add: split rune_def width_def)
    have "length (take (width s) s) = width s" using w by simp
    then have cut: "take (width u) u = take (width s) s" "drop (width u) u = u'"
      using u'(2) same(2) by auto
    have "plain sep u'" using less.hyps [OF _ u'(1)] w by simp
    then have "span_word sep u = (take (width u) u @ u', [])"
      using ns by (simp only: plain_def span_word_step [OF u] same(1) cut(2)) simp
    then show ?thesis unfolding plain_def cut(1) using u'(2) by (simp only:)
  qed (use less.prems in \<open>cases s; auto simp: Let_def plain_def\<close>)
qed

lemma fields_plain: "w \<in> set (fields_loop sep [] s) \<Longrightarrow> w \<noteq> [] \<and> plain sep w"
proof (induction "length s" arbitrary: s rule: less_induct)
  case less
  obtain u v where uv: "span_word sep s = (u, v)" by fastforce
  have "length (drop (width v) v) < length s" if "v \<noteq> []"
    using width_bounds [OF that] span_word_append [OF uv] that by (simp add: trans_less_add2)
  then show ?case
    using less.prems less.hyps [of "drop (width v) v"] span_word_plain [OF uv] fields_span [OF uv, of "[]"]
    by (auto split: if_splits)
qed

lemma plain_append:
  assumes "plain sep u" and "v = [] \<or> sep (rune v)"
  shows "span_word sep (u @ v) = (u, v)"
  using assms
proof (induction "length u" arbitrary: u rule: less_induct)
  case less
  show ?case
  proof (cases u)
    case Nil
    then show ?thesis using less.prems(2) by (cases v) (auto simp: Let_def)
  next
    case (Cons c cs)
    then have ne: "u \<noteq> []" by simp
    have "v = [] \<or> \<not> cont (hd v)" using less.prems(2) sep_not_cont by blast
    from DecodeRune_append [OF ne this] have same: "rune (u @ v) = rune u" "width (u @ v) = width u"
      by (simp_all add: rune_def width_def)
    note w = width_bounds [OF ne]
    have s: "\<not> sep (rune u)" "plain sep (drop (width u) u)"
      using less.prems(1) ne w by (auto simp: Cons plain_def Let_def split: if_splits prod.splits)
        (metis append_take_drop_id same_append_eq)
    have "span_word sep (drop (width u) u @ v) = (drop (width u) u, v)"
      using less.hyps [OF _ s(2) less.prems(2)] w ne by simp
    then have "span_word sep (drop (width (u @ v)) (u @ v)) = (drop (width u) u, v)"
      using w same(2) by simp
    moreover have "take (width (u @ v)) (u @ v) = take (width u) u" using w same(2) by simp
    ultimately show ?thesis using s(1) same ne w by (auto simp: Cons Let_def)
  qed
qed

lemma fields_join:
  "(\<And>w. w \<in> set ws \<Longrightarrow> w \<noteq> [] \<and> plain sep w) \<Longrightarrow> fields_loop sep [] (Join ws '' '') = ws"
proof (induction ws "'' ''" rule: Join.induct)
  case (2 x)
  then show ?case using fields_span [of sep x x "[]" "[]"] by (simp add: plain_def)
next
  case (3 x y xs)
  let ?v = "'' '' @ Join (y # xs) '' ''"
  have "rune ?v = 32" "width ?v = 1" by (simp_all add: rune_def width_def)
  moreover have "span_word sep (x @ ?v) = (x, ?v)"
    using plain_append [of x ?v] "3.prems" sep_space \<open>rune ?v = 32\<close> by simp
  ultimately show ?case
    using fields_span [of sep "x @ ?v" x ?v "[]"] 3 by simp
qed simp

end

lemma IsSpace_blank: "IsSpace 32" by (simp add: IsSpace_def)
lemma IsSpace_error: "\<not> IsSpace RuneError" by (simp add: IsSpace_def RuneError_def)

interpretation space: separator IsSpace
  by unfold_locales (simp_all add: IsSpace_blank IsSpace_error)

text \<open>The words of a text are words on their own, and joining words and splitting is the identity.\<close>

definition is_word :: "string \<Rightarrow> bool" where
  "is_word w \<longleftrightarrow> w \<noteq> [] \<and> plain IsSpace w"

lemma Fields_words: "w \<in> set (Fields s) \<Longrightarrow> is_word w"
  using space.fields_plain by (simp add: is_word_def Fields_def FieldsFunc_def)

lemma Fields_Join: "(\<And>w. w \<in> set ws \<Longrightarrow> is_word w) \<Longrightarrow> Fields (Join ws '' '') = ws"
  using space.fields_join by (simp add: is_word_def Fields_def FieldsFunc_def)


section \<open>strconv.Itoa\<close>

definition digit :: "nat \<Rightarrow> char" where
  "digit d = char_of (48 + d)"

fun decimal :: "nat \<Rightarrow> string" where
  "decimal n = (if n < 10 then [digit n] else decimal (n div 10) @ [digit (n mod 10)])"

declare decimal.simps [simp del]

definition Itoa :: "int \<Rightarrow> string" where
  "Itoa i = (if i < 0 then CHR ''-'' # decimal (nat (- i)) else decimal (nat i))"

lemma of_char_digit: "d < 10 \<Longrightarrow> of_char (digit d) = (48 + d :: nat)"
  by (simp add: digit_def)

lemma digit_inject: "d < 10 \<Longrightarrow> e < 10 \<Longrightarrow> digit d = digit e \<longleftrightarrow> d = e"
  using of_char_digit [of d] of_char_digit [of e] by (metis add_left_cancel)

lemma decimal_ne [simp]: "decimal n \<noteq> []"
  by (subst decimal.simps) simp

lemma decimal_chars: "c \<in> set (decimal n) \<Longrightarrow> \<exists>d < 10. c = digit d"
proof (induction n rule: decimal.induct)
  case (1 n)
  have "n < 10 \<and> c = digit n \<or> \<not> n < 10 \<and> c \<in> set (decimal (n div 10)) \<or> c = digit (n mod 10)"
    using "1.prems" decimal.simps [of n] by (cases "n < 10") auto
  then show ?case
  proof (elim disjE conjE)
    assume "\<not> n < 10" "c \<in> set (decimal (n div 10))"
    then show ?thesis by (rule "1.IH")
  next
    assume "c = digit (n mod 10)"
    then show ?thesis by (intro exI [of _ "n mod 10"]) simp
  qed blast
qed

lemma decimal_no_minus: "CHR ''-'' \<notin> set (decimal n)"
proof
  assume "CHR ''-'' \<in> set (decimal n)"
  then obtain d where "d < 10" "CHR ''-'' = digit d" using decimal_chars by blast
  moreover have "of_char CHR ''-'' = (45 :: nat)" by simp
  ultimately show False using of_char_digit [of d] by simp
qed

lemma decimal_inject: "decimal m = decimal n \<longleftrightarrow> m = n"
proof (induction m arbitrary: n rule: decimal.induct)
  case (1 m)
  show ?case
  proof
    assume eq: "decimal m = decimal n"
    then have last: "last (decimal m) = last (decimal n)" and front: "butlast (decimal m) = butlast (decimal n)" by simp_all
    have *: "last (decimal k) = digit (k mod 10)" "butlast (decimal k) = (if k < 10 then [] else decimal (k div 10))" for k
      by (subst decimal.simps; simp)+
    have "m mod 10 = n mod 10" using last digit_inject by (simp add: *)
    moreover have "m div 10 = n div 10"
      using front 1 [of "n div 10"] decimal_ne [symmetric] by (auto simp: * split: if_splits)
    ultimately show "m = n" by (metis div_mult_mod_eq)
  qed simp
qed

lemma Itoa_inject: "0 \<le> i \<Longrightarrow> 0 \<le> j \<Longrightarrow> Itoa i = Itoa j \<longleftrightarrow> i = j"
  by (auto simp: Itoa_def decimal_inject)

lemma Itoa_no_minus: "0 \<le> i \<Longrightarrow> CHR ''-'' \<notin> set (Itoa i)"
  by (simp add: Itoa_def decimal_no_minus)

text \<open>Text that ends in a separator and a number names both.\<close>

lemma append_unique_sep:
  assumes "x \<notin> set b" and "x \<notin> set d"
  shows "a @ x # b = c @ x # d \<longleftrightarrow> a = c \<and> b = d"
proof
  assume "a @ x # b = c @ x # d"
  then have "rev b @ x # rev a = rev d @ x # rev c" by (metis append.assoc append_Cons append_Nil rev.simps(2) rev_append)
  moreover have "takeWhile (\<lambda>y. y \<noteq> x) (rev e @ x # f) = rev e" if "x \<notin> set e" for e f
    using that by (subst takeWhile_append2) auto
  ultimately have "rev b = rev d" using assms by metis
  then show "a = c \<and> b = d" using \<open>a @ x # b = c @ x # d\<close> by simp
qed simp

end
