(* ===== verification/Embedder.thy ===== *)
theory Embedder
  imports Go_Text
begin

text \<open>
  The embedding subprocess of \<^verbatim>\<open>src/internal/embedder/embedder.go\<close>: starting it and the
  exchange of one request line for one response line. The operating system's pipes and
  \<open>encoding/json\<close> are parameters; \<open>'p\<close> is the state of the running subprocess with its
  pipes and \<open>'f\<close> the type of a \<open>float32\<close>. Errors are their messages, so that wrapping
  an error is putting a prefix before it. \<open>Embed\<close> holds the mutex from beginning to end; here
  it is one exchange, and \<^theory_text>\<open>Embedder_Concurrency\<close> justifies that for concurrent callers.
\<close>

record Request =
  rq_ChunkID :: string
  rq_Text :: string

record 'f Response =
  rs_ChunkID :: string
  rs_Vector :: "'f list"

text \<open>The encoders of the two message types, in both directions.\<close>

record 'f embed_json =
  js_MarshalRequest :: "Request \<Rightarrow> string + string"
  js_UnmarshalRequest :: "string \<Rightarrow> string + Request"
  js_MarshalResponse :: "'f Response \<Rightarrow> string + string"
  js_UnmarshalResponse :: "string \<Rightarrow> string + 'f Response"

text \<open>The pipes: a buffered writer, its flush, the line scanner and its error.\<close>

record 'p pipes =
  ps_Write :: "string \<Rightarrow> 'p \<Rightarrow> 'p \<times> string option"
  ps_Flush :: "'p \<Rightarrow> 'p \<times> string option"
  ps_Scan :: "'p \<Rightarrow> 'p \<times> string option"
  ps_Err :: "'p \<Rightarrow> string option"

text \<open>The operating system's side of starting a command: a cause of failure, or the process.\<close>

record 'p os_exec =
  ox_StdinPipe :: "string \<Rightarrow> string list \<Rightarrow> string option"
  ox_StdoutPipe :: "string \<Rightarrow> string list \<Rightarrow> string option"
  ox_Start :: "string \<Rightarrow> string list \<Rightarrow> string + 'p"
  ox_Kill :: "'p \<Rightarrow> 'p \<times> string option"

definition embedder_Start :: "'p os_exec \<Rightarrow> string \<Rightarrow> string + 'p" where
  "embedder_Start ox cmdStr =
     (case Fields cmdStr of
        [] \<Rightarrow> Inl ''empty embedder command''
      | name # args \<Rightarrow>
          (case ox_StdinPipe ox name args of
             Some err \<Rightarrow> Inl (''stdin pipe: '' @ err)
           | None \<Rightarrow>
               (case ox_StdoutPipe ox name args of
                  Some err \<Rightarrow> Inl (''stdout pipe: '' @ err)
                | None \<Rightarrow>
                    (case ox_Start ox name args of
                       Inl err \<Rightarrow> Inl (''start subprocess: '' @ err)
                     | Inr p \<Rightarrow> Inr p))))"

definition newline :: char where "newline = char_of (10 :: nat)"

definition Embed :: "'f embed_json \<Rightarrow> 'p pipes \<Rightarrow> Request \<Rightarrow> 'p \<Rightarrow> 'p \<times> (string + 'f Response)" where
  "Embed js ps req p =
     (case js_MarshalRequest js req of
        Inl err \<Rightarrow> (p, Inl (''marshal request: '' @ err))
      | Inr line \<Rightarrow>
          (case ps_Write ps (line @ [newline]) p of
             (p1, Some err) \<Rightarrow> (p1, Inl (''write to subprocess: '' @ err))
           | (p1, None) \<Rightarrow>
               (case ps_Flush ps p1 of
                  (p2, Some err) \<Rightarrow> (p2, Inl (''flush subprocess stdin: '' @ err))
                | (p2, None) \<Rightarrow>
                    (case ps_Scan ps p2 of
                       (p3, None) \<Rightarrow>
                         (case ps_Err ps p3 of
                            Some err \<Rightarrow> (p3, Inl (''read from subprocess: '' @ err))
                          | None \<Rightarrow> (p3, Inl ''subprocess closed stdout unexpectedly''))
                     | (p3, Some bytes) \<Rightarrow>
                         (case js_UnmarshalResponse js bytes of
                            Inl err \<Rightarrow> (p3, Inl (''decode subprocess response: '' @ err))
                          | Inr resp \<Rightarrow> (p3, Inr resp))))))"

definition embedder_Close :: "'p os_exec \<Rightarrow> 'p \<Rightarrow> 'p \<times> string option" where
  "embedder_Close ox p = ox_Kill ox p"

text \<open>What \<open>Start\<close> runs is the first word of the command with the other words as its arguments.\<close>

lemma embedder_Start_empty: "Fields cmdStr = [] \<Longrightarrow> embedder_Start ox cmdStr = Inl ''empty embedder command''"
  by (simp add: embedder_Start_def)

lemma embedder_Start_ok:
  assumes "Fields cmdStr = name # args" and "ox_StdinPipe ox name args = None" and "ox_StdoutPipe ox name args = None"
    and "ox_Start ox name args = Inr p"
  shows "embedder_Start ox cmdStr = Inr p"
  using assms by (simp add: embedder_Start_def)

end
