(* ===== verification/Indexer.thy ===== *)
theory Indexer
  imports Embedder "HOL-Library.Word"
begin

text \<open>
  Chunking, point identifiers and the write path into the vector index, from
  \<^verbatim>\<open>src/internal/indexer/indexer.go\<close>. The Qdrant service is a parameter: \<open>'q\<close> is its
  state and a client call gives its next state and an error, if any. Where the source
  builds a protobuf value with a helper of the Qdrant package (\<open>NewVectors\<close>,
  \<open>NewValueMap\<close>) the model keeps the helper's arguments.
\<close>

unbundle bit_operations_syntax

section \<open>Model\<close>

definition VectorDim :: int where "VectorDim = 384"
definition QdrantCollection :: string where "QdrantCollection = ''documents''"

record Chunk =
  ck_DocID :: string
  ck_ChunkID :: string
  ck_Title :: string
  ck_Text :: string

text \<open>
  The loop of \<open>ChunkText\<close>. \<open>None\<close> is a loop that never ends: the loop variable advances by
  \<open>maxWords\<close>, whatever its sign.
\<close>

partial_function (option) chunk_loop :: "string list \<Rightarrow> int \<Rightarrow> int \<Rightarrow> string list \<Rightarrow> string list go option" where
  "chunk_loop words maxWords i chunks =
     (if i < int (length words) then
        (let stop = (if i + maxWords > int (length words) then int (length words) else i + maxWords)
         in case slice_range words i stop of
              Inl p \<Rightarrow> Some (Inl p)
            | Inr ws \<Rightarrow> chunk_loop words maxWords (i + maxWords) (chunks @ [Join ws '' '']))
      else Some (Inr chunks))"

definition ChunkText :: "string \<Rightarrow> int \<Rightarrow> string list go" where
  "ChunkText txt maxWords =
     (let words = FieldsFunc txt IsSpace
      in if length words = 0 then Inr []
         else if maxWords \<le> 0 then Inr [Join words '' '']
         else (case chunk_loop words maxWords 0 [] of Some r \<Rightarrow> r | None \<Rightarrow> Inl Diverges))"

text \<open>The hash on unbounded integers, as \<open>math/big\<close> computes it.\<close>

definition fnv_prime :: int where "fnv_prime = 1099511628211"
definition fnv_offset :: int where "fnv_offset = 14695981039346656037"

fun fnv_loop :: "string \<Rightarrow> int \<Rightarrow> int" where
  "fnv_loop [] h = h"
| "fnv_loop (c # cs) h = fnv_loop cs (((h XOR of_char c) * fnv_prime) mod push_bit 64 1)"

definition fnv64 :: "string \<Rightarrow> 64 word" where
  "fnv64 s = word_of_int (fnv_loop s fnv_offset)"

definition ChunkIDToUUID :: "string \<Rightarrow> 64 word" where
  "ChunkIDToUUID chunkID = fnv64 chunkID"

record GetCollectionInfoRequest = gc_CollectionName :: string

datatype Distance = Distance_Cosine

record CreateCollection =
  cc_CollectionName :: string
  cc_Size :: int
  cc_Distance :: Distance

record 'q collections_client =
  co_Get :: "GetCollectionInfoRequest \<Rightarrow> 'q \<Rightarrow> 'q \<times> string option"
  co_Create :: "CreateCollection \<Rightarrow> 'q \<Rightarrow> 'q \<times> string option"

definition EnsureCollection :: "'q collections_client \<Rightarrow> 'q \<Rightarrow> 'q \<times> string option" where
  "EnsureCollection collClient q =
     (case co_Get collClient \<lparr>gc_CollectionName = QdrantCollection\<rparr> q of
        (q1, None) \<Rightarrow> (q1, None)
      | (q1, Some _) \<Rightarrow>
          co_Create collClient
            \<lparr>cc_CollectionName = QdrantCollection, cc_Size = VectorDim, cc_Distance = Distance_Cosine\<rparr> q1)"

record 'f PointStruct =
  pt_Id :: "64 word"
  pt_Vectors :: "'f list"
  pt_Payload :: "string \<rightharpoonup> string"

record 'f UpsertPoints =
  up_CollectionName :: string
  up_Wait :: "bool option"
  up_Points :: "'f PointStruct list"

type_synonym ('f, 'q) upsert = "'f UpsertPoints \<Rightarrow> 'q \<Rightarrow> 'q \<times> string option"

definition chunk_point :: "Chunk \<Rightarrow> 'f list \<Rightarrow> 'f PointStruct" where
  "chunk_point c vector =
     \<lparr>pt_Id = ChunkIDToUUID (ck_ChunkID c), pt_Vectors = vector,
      pt_Payload = [''doc_id'' \<mapsto> ck_DocID c, ''title'' \<mapsto> ck_Title c, ''text'' \<mapsto> ck_Text c]\<rparr>"

definition UpsertChunk :: "('f, 'q) upsert \<Rightarrow> Chunk \<Rightarrow> 'f list \<Rightarrow> 'q \<Rightarrow> 'q \<times> string option" where
  "UpsertChunk client c vector q =
     client \<lparr>up_CollectionName = QdrantCollection, up_Wait = None, up_Points = [chunk_point c vector]\<rparr> q"

definition chunk_id :: "string \<Rightarrow> int \<Rightarrow> string" where
  "chunk_id docID i = docID @ ''-'' @ Itoa i"

text \<open>
  The loop of \<open>IngestDocument\<close> from passage \<open>i\<close> on: subprocess and index after it, the
  identifiers written and the error, if any.
\<close>

fun ingest_loop ::
  "(Request \<Rightarrow> 'p \<Rightarrow> 'p \<times> (string + 'f Response)) \<Rightarrow> ('f, 'q) upsert \<Rightarrow> string \<Rightarrow> string \<Rightarrow> int \<Rightarrow> string list
     \<Rightarrow> string list \<Rightarrow> 'p \<Rightarrow> 'q \<Rightarrow> 'p \<times> 'q \<times> string list \<times> string option" where
  "ingest_loop emb client docID title i [] chunkIDs p q = (p, q, chunkIDs, None)"
| "ingest_loop emb client docID title i (passage # rest) chunkIDs p q =
     (let chunkID = chunk_id docID i
      in case emb \<lparr>rq_ChunkID = chunkID, rq_Text = passage\<rparr> p of
           (p1, Inl err) \<Rightarrow> (p1, q, chunkIDs, Some (''embed chunk '' @ chunkID @ '': '' @ err))
         | (p1, Inr resp) \<Rightarrow>
             (case UpsertChunk client
                     \<lparr>ck_DocID = docID, ck_ChunkID = chunkID, ck_Title = title, ck_Text = passage\<rparr> (rs_Vector resp) q of
                (q1, Some err) \<Rightarrow> (p1, q1, chunkIDs, Some (''upsert chunk '' @ chunkID @ '': '' @ err))
              | (q1, None) \<Rightarrow> ingest_loop emb client docID title (i + 1) rest (chunkIDs @ [chunkID]) p1 q1))"

definition IngestDocument ::
  "(Request \<Rightarrow> 'p \<Rightarrow> 'p \<times> (string + 'f Response)) \<Rightarrow> ('f, 'q) upsert \<Rightarrow> string \<Rightarrow> string \<Rightarrow> string \<Rightarrow> int \<Rightarrow> 'p \<Rightarrow> 'q
     \<Rightarrow> ('p \<times> 'q \<times> string list \<times> string option) go" where
  "IngestDocument emb client docID title txt chunkSize p q =
     go_bind (ChunkText txt chunkSize) (\<lambda>passages.
       Inr (if length passages = 0 then (p, q, [], Some ''document has no content to chunk'')
            else ingest_loop emb client docID title 0 passages [] p q))"

section \<open>Chunking\<close>

text \<open>The reference: cut a list into pieces of \<open>n\<close>, the last one possibly shorter.\<close>

function pieces :: "nat \<Rightarrow> 'a list \<Rightarrow> 'a list list" where
  "pieces n xs = (if xs = [] \<or> n = 0 then [] else take n xs # pieces n (drop n xs))"
  by auto
termination by (relation "measure (\<lambda>(_, xs). length xs)") auto

declare pieces.simps [simp del]

lemma pieces_simps [simp]:
  "pieces n [] = []"
  "xs \<noteq> [] \<Longrightarrow> 0 < n \<Longrightarrow> pieces n xs = take n xs # pieces n (drop n xs)"
  by (simp_all add: pieces.simps [of n "[]"] pieces.simps [of n xs])

lemma concat_pieces: "0 < n \<Longrightarrow> concat (pieces n xs) = xs"
  by (induction n xs rule: pieces.induct) (metis append_take_drop_id concat.simps less_not_refl pieces_simps)

lemma pieces_size: "ys \<in> set (pieces n xs) \<Longrightarrow> ys \<noteq> [] \<and> length ys \<le> n"
proof (induction n xs rule: pieces.induct)
  case (1 n xs)
  then show ?case by (cases "xs = [] \<or> n = 0") (auto simp: pieces.simps [of n xs])
qed

lemma pieces_full: "ys \<in> set (butlast (pieces n xs)) \<Longrightarrow> length ys = n"
proof (induction n xs rule: pieces.induct)
  case (1 n xs)
  then show ?case
    by (cases "xs = [] \<or> n = 0"; cases "drop n xs = []")
      (auto simp: pieces.simps [of n xs] split: if_splits)
qed

lemma chunk_loop_pieces:
  assumes "0 < n" and "0 \<le> i" and "i \<le> int (length words)"
  shows "chunk_loop words n i chunks =
    Some (Inr (chunks @ map (\<lambda>ws. Join ws '' '') (pieces (nat n) (drop (nat i) words))))"
  using assms
proof (induction "length words - nat i" arbitrary: i chunks rule: less_induct)
  case less
  let ?stop = "if i + n > int (length words) then int (length words) else i + n"
  show ?case
  proof (cases "i < int (length words)")
    case True
    have rest: "drop (nat i) words \<noteq> []" using True less.prems by simp
    have sl: "slice_range words i ?stop = Inr (take (nat n) (drop (nat i) words))"
      using less.prems True by (auto simp: slice_range_def nat_diff_distrib nat_add_distrib)
    show ?thesis
    proof (cases "i + n \<le> int (length words)")
      case True
      have "chunk_loop words n (i + n) (chunks @ [Join (take (nat n) (drop (nat i) words)) '' '']) =
          Some (Inr ((chunks @ [Join (take (nat n) (drop (nat i) words)) '' '']) @
            map (\<lambda>ws. Join ws '' '') (pieces (nat n) (drop (nat (i + n)) words))))"
        using less.hyps [of "i + n"] less.prems True rest by (simp add: nat_less_iff)
      then show ?thesis
        using sl rest less.prems \<open>i < int (length words)\<close>
        by (subst chunk_loop.simps) (simp add: Let_def nat_add_distrib add.commute)
    next
      case False
      then have "drop (nat n) (drop (nat i) words) = []" using less.prems by simp
      then show ?thesis
        using sl rest less.prems \<open>i < int (length words)\<close> False
        by (subst chunk_loop.simps) (simp add: Let_def chunk_loop.simps [of words n "i + n"])
    qed
  next
    case False
    then show ?thesis using less.prems by (subst chunk_loop.simps) simp
  qed
qed

text \<open>Without the early return a step of zero would never end and a negative one would panic.\<close>

lemma ChunkText_eq:
  "ChunkText txt n =
    Inr (map (\<lambda>ws. Join ws '' '')
      (if Fields txt = [] then [] else if n \<le> 0 then [Fields txt] else pieces (nat n) (Fields txt)))"
  using chunk_loop_pieces [of n 0 "Fields txt" "[]"] by (simp add: ChunkText_def Fields_def Let_def)


text \<open>Without the early return a step of zero never ends and a negative one panics.\<close>

lemma chunk_loop_negative:
  "0 < i \<Longrightarrow> i < int (length words) \<Longrightarrow> n < 0 \<Longrightarrow> \<exists>p. chunk_loop words n i chunks = Some (Inl p)"
  by (subst chunk_loop.simps) (simp add: Let_def slice_range_def)

lemma map_Fields_Join:
  assumes "\<And>w. w \<in> set (concat wss) \<Longrightarrow> is_word w"
  shows "map Fields (map (\<lambda>ws. Join ws '' '') wss) = wss"
  using assms Fields_Join by (induction wss) auto

lemma ChunkText_words:
  assumes "ChunkText txt n = Inr chunks"
  shows "map Fields chunks = (if Fields txt = [] then [] else if n \<le> 0 then [Fields txt] else pieces (nat n) (Fields txt))"
proof -
  let ?wss = "if Fields txt = [] then [] else if n \<le> 0 then [Fields txt] else pieces (nat n) (Fields txt)"
  have "concat ?wss = Fields txt" by (simp add: concat_pieces)
  then have "is_word w" if "w \<in> set (concat ?wss)" for w using that Fields_words by metis
  note words = map_Fields_Join [of ?wss, OF this]
  have "chunks = map (\<lambda>ws. Join ws '' '') ?wss" using assms unfolding ChunkText_eq by (rule sum.inject(2) [THEN iffD1, symmetric])
  then show ?thesis using words by (simp only:)
qed

section \<open>Point identifiers\<close>

text \<open>The reference: FNV-1a on machine words.\<close>

definition fnv1a :: "string \<Rightarrow> 64 word" where
  "fnv1a s = foldl (\<lambda>h c. (h XOR of_nat (of_char c)) * 1099511628211) 14695981039346656037 s"

lemma fnv_loop_word:
  "word_of_int (fnv_loop s h) =
    foldl (\<lambda>h c. (h XOR of_nat (of_char c)) * 1099511628211) (word_of_int h :: 64 word) s"
proof (induction s arbitrary: h)
  case (Cons c s)
  have "word_of_int (((h XOR of_char c) * fnv_prime) mod push_bit 64 1) =
      (word_of_int ((h XOR of_char c) * fnv_prime) :: 64 word)"
    by (rule word_of_int_eq_iff [THEN iffD2]) (simp add: push_bit_eq_mult take_bit_eq_mod)
  also have "\<dots> = (word_of_int h XOR of_nat (of_char c)) * 1099511628211"
    unfolding fnv_prime_def by transfer (simp add: take_bit_xor take_bit_eq_mod mod_mult_left_eq of_nat_of_char)
  finally show ?case by (simp add: Cons)
qed simp


lemma fnv64_fnv1a: "fnv64 s = fnv1a s"
  by (simp add: fnv64_def fnv1a_def fnv_loop_word fnv_offset_def)

text \<open>The prime is odd, hence invertible: one step of the hash loses nothing.\<close>

lemma fnv_step_inject:
  fixes g h x y :: "64 word"
  shows "(g XOR x) * 1099511628211 = (h XOR y) * 1099511628211 \<longleftrightarrow> g XOR x = h XOR y"
proof
  assume "(g XOR x) * 1099511628211 = (h XOR y) * 1099511628211"
  then have "(g XOR x) * 1099511628211 * 14886173955864302971 = (h XOR y) * 1099511628211 * 14886173955864302971"
    by (rule arg_cong)
  moreover have "(1099511628211 * 14886173955864302971 :: 64 word) = 1" by simp
  ultimately show "g XOR x = h XOR y" by (simp only: mult.assoc mult_1_right)
qed simp

lemma fnv1a_last_byte: "fnv1a (s @ [c]) = fnv1a (s @ [d]) \<longleftrightarrow> c = d"
proof
  assume "fnv1a (s @ [c]) = fnv1a (s @ [d])"
  then have "fnv1a s XOR of_nat (of_char c) = fnv1a s XOR of_nat (of_char d)"
    by (simp only: fnv1a_def foldl_append foldl.simps fnv_step_inject)
  then have "fnv1a s XOR (fnv1a s XOR of_nat (of_char c)) = fnv1a s XOR (fnv1a s XOR of_nat (of_char d))" by simp
  then have "(of_nat (of_char c) :: 64 word) = of_nat (of_char d)"
    by (simp only: xor.assoc [symmetric] xor_self_eq xor.left_neutral)
  then have "unat (of_nat (of_char c) :: 64 word) = unat (of_nat (of_char d) :: 64 word)" by simp
  moreover have "unat (of_nat (of_char e) :: 64 word) = of_char e" for e :: char
  proof -
    have "(of_char e :: nat) < 256" using of_char_mod_256 [of e, where ?'a = nat] mod_less_divisor [of 256 "of_char e"] by simp
    then have "(of_char e :: nat) < 18446744073709551616" by linarith
    then show ?thesis using mod_less [of "of_char e :: nat" 18446744073709551616] by (simp add: unat_of_nat)
  qed
  ultimately show "c = d" by simp
qed simp

lemma chunk_id_inject: "0 \<le> i \<Longrightarrow> 0 \<le> j \<Longrightarrow> chunk_id a i = chunk_id b j \<longleftrightarrow> a = b \<and> i = j"
  using append_unique_sep [of "CHR ''-''" "Itoa i" "Itoa j" a b]
  by (auto simp: chunk_id_def Itoa_no_minus Itoa_inject)

lemma decimal_last: "decimal n = (if n < 10 then [] else decimal (n div 10)) @ [digit (n mod 10)]"
  by (subst decimal.simps) simp

text \<open>Chunks of one document whose numbers differ in the last digit only never collide.\<close>

lemma sibling_points:
  assumes "i div 10 = j div 10" and "i \<noteq> j"
  shows "ChunkIDToUUID (chunk_id d (int i)) \<noteq> ChunkIDToUUID (chunk_id d (int j))"
proof -
  let ?u = "if i < 10 then [] else decimal (i div 10)"
  have "j < 10 \<longleftrightarrow> i < 10" using assms(1) by (metis div_less div_eq_0_iff zero_neq_numeral)
  then have "chunk_id d (int i) = (d @ ''-'' @ ?u) @ [digit (i mod 10)]" "chunk_id d (int j) = (d @ ''-'' @ ?u) @ [digit (j mod 10)]"
    using decimal_last [of i] decimal_last [of j] assms(1) by (simp_all add: chunk_id_def Itoa_def)
  moreover have "digit (i mod 10) \<noteq> digit (j mod 10)"
    using assms digit_inject [of "i mod 10" "j mod 10"] by (metis div_mult_mod_eq mod_less_divisor zero_less_numeral)
  ultimately show ?thesis by (simp only: ChunkIDToUUID_def fnv64_fnv1a fnv1a_last_byte not_False_eq_True)
qed

section \<open>The index after an ingestion\<close>

text \<open>
  What the write path relies on. The request leaves \<open>Wait\<close> unset, so the index answers as soon
  as it has logged the operation, and applies it later: \<open>look\<close> is the index as it is once
  every operation acknowledged so far has been applied, in order. An upsert of one point
  that is acknowledged sets that point and no other in it; one that fails may or may not
  have taken effect. The embedder's vector is a function of the text.
\<close>

definition point_store :: "('f, 'q) upsert \<Rightarrow> ('q \<Rightarrow> 64 word \<rightharpoonup> 'f PointStruct) \<Rightarrow> bool" where
  "point_store client look \<longleftrightarrow> (\<forall>pt q q' err.
     client \<lparr>up_CollectionName = QdrantCollection, up_Wait = None, up_Points = [pt]\<rparr> q = (q', err) \<longrightarrow>
       look q' = (look q)(pt_Id pt \<mapsto> pt) \<or> err \<noteq> None \<and> look q' = look q)"

definition embeds_by :: "(string \<Rightarrow> 'f list) \<Rightarrow> (Request \<Rightarrow> 'p \<Rightarrow> 'p \<times> (string + 'f Response)) \<Rightarrow> bool" where
  "embeds_by vec emb \<longleftrightarrow> (\<forall>req p p' resp. emb req p = (p', Inr resp) \<longrightarrow> rs_Vector resp = vec (rq_Text req))"

text \<open>The points of a document's passages, from number \<open>i\<close> on, and the index with them written in order.\<close>

fun doc_points :: "(string \<Rightarrow> 'f list) \<Rightarrow> string \<Rightarrow> string \<Rightarrow> int \<Rightarrow> string list \<Rightarrow> 'f PointStruct list" where
  "doc_points vec docID title i [] = []"
| "doc_points vec docID title i (t # ts) =
     chunk_point \<lparr>ck_DocID = docID, ck_ChunkID = chunk_id docID i, ck_Title = title, ck_Text = t\<rparr> (vec t) #
     doc_points vec docID title (i + 1) ts"

definition write_points :: "'f PointStruct list \<Rightarrow> (64 word \<rightharpoonup> 'f PointStruct) \<Rightarrow> (64 word \<rightharpoonup> 'f PointStruct)" where
  "write_points pts m = foldl (\<lambda>m pt. m(pt_Id pt \<mapsto> pt)) m pts"

lemma length_doc_points [simp]: "length (doc_points vec d t i ps) = length ps"
  by (induction ps arbitrary: i) auto

lemma write_points_simps [simp]:
  "write_points [] m = m"
  "write_points (pt # pts) m = write_points pts (m(pt_Id pt \<mapsto> pt))"
  "write_points (xs @ ys) m = write_points ys (write_points xs m)"
  by (simp_all add: write_points_def)

lemma write_points_other: "k \<notin> pt_Id ` set pts \<Longrightarrow> write_points pts m k = m k"
  by (induction pts arbitrary: m) auto

lemma write_points_same: "k \<in> pt_Id ` set pts \<Longrightarrow> write_points pts m k = write_points pts m' k"
proof (induction pts arbitrary: m m')
  case (Cons pt pts)
  then show ?case by (cases "k \<in> pt_Id ` set pts") (auto simp: write_points_other)
qed simp

lemma write_points_idem: "write_points pts (write_points pts m) = write_points pts m"
proof
  fix k
  show "write_points pts (write_points pts m) k = write_points pts m k"
    by (cases "k \<in> pt_Id ` set pts") (auto simp: write_points_other intro: write_points_same)
qed

lemma write_points_written: "k \<in> pt_Id ` set pts \<Longrightarrow> write_points pts m k \<noteq> None"
proof (induction pts arbitrary: m)
  case (Cons pt pts)
  then show ?case by (cases "k \<in> pt_Id ` set pts") (auto simp: write_points_other)
qed simp

lemma doc_points_ids:
  "pt_Id ` set (doc_points vec d t i ps) = ChunkIDToUUID ` set (map (\<lambda>j. chunk_id d (i + int j)) [0..<length ps])"
proof (induction ps arbitrary: i)
  case (Cons x ps)
  have "[0..<Suc (length ps)] = 0 # map Suc [0..<length ps]" by (simp add: upt_conv_Cons map_Suc_upt del: upt_Suc)
  then show ?case by (simp add: Cons chunk_point_def image_image add.assoc del: upt_Suc)
qed simp

text \<open>The loop writes a prefix of the document's points, all of them when it reports no error.\<close>

lemma ingest_loop_points:
  assumes "point_store client look" and "embeds_by vec emb"
    and "ingest_loop emb client d t i ps ids p q = (p', q', ids', err)"
  shows "\<exists>k \<le> length ps. ids' = ids @ map (\<lambda>j. chunk_id d (i + int j)) [0..<k] \<and>
    (err = None \<longleftrightarrow> k = length ps) \<and>
    (look q' = write_points (take k (doc_points vec d t i ps)) (look q) \<or>
     err \<noteq> None \<and> look q' = write_points (take (Suc k) (doc_points vec d t i ps)) (look q))"
  using assms(3)
proof (induction ps arbitrary: i ids p q)
  case (Cons x ps)
  let ?id = "chunk_id d i"
  let ?pt = "chunk_point \<lparr>ck_DocID = d, ck_ChunkID = ?id, ck_Title = t, ck_Text = x\<rparr> (vec x)"
  obtain p1 r where e: "emb \<lparr>rq_ChunkID = ?id, rq_Text = x\<rparr> p = (p1, r)" by fastforce
  show ?case
  proof (cases r)
    case (Inl m)
    then show ?thesis using Cons.prems e by (auto simp: Let_def intro!: exI [of _ 0])
  next
    case (Inr resp)
    then have v: "rs_Vector resp = vec x" using assms(2) e by (auto simp: embeds_by_def)
    obtain q1 uerr where u: "client \<lparr>up_CollectionName = QdrantCollection, up_Wait = None, up_Points = [?pt]\<rparr> q = (q1, uerr)" by fastforce
    then have q1: "look q1 = (look q)(pt_Id ?pt \<mapsto> ?pt) \<or> uerr \<noteq> None \<and> look q1 = look q"
      using assms(1) by (simp add: point_store_def)
    show ?thesis
    proof (cases uerr)
      case (Some m)
      then show ?thesis using Cons.prems e Inr v u q1 by (auto simp: Let_def UpsertChunk_def intro!: exI [of _ 0])
    next
      case None
      then have "ingest_loop emb client d t (i + 1) ps (ids @ [?id]) p1 q1 = (p', q', ids', err)"
        using Cons.prems e Inr v u by (simp add: Let_def UpsertChunk_def)
      from Cons.IH [OF this] obtain k where k: "k \<le> length ps"
          "ids' = (ids @ [?id]) @ map (\<lambda>j. chunk_id d (i + 1 + int j)) [0..<k]" "err = None \<longleftrightarrow> k = length ps"
          "look q' = write_points (take k (doc_points vec d t (i + 1) ps)) (look q1) \<or>
           err \<noteq> None \<and> look q' = write_points (take (Suc k) (doc_points vec d t (i + 1) ps)) (look q1)"
        by blast
      have "map (\<lambda>j. chunk_id d (i + int j)) [0..<Suc k] = ?id # map (\<lambda>j. chunk_id d (i + 1 + int j)) [0..<k]"
        by (simp add: upt_conv_Cons map_Suc_upt [symmetric] add.assoc del: upt_Suc)
      then show ?thesis
        using k q1 None by (intro exI [of _ "Suc k"]) auto
    qed
  qed
qed auto

end
