(* ===== verification/Retrieval.thy ===== *)
theory Retrieval
  imports Indexer
begin

text \<open>
  The search path of \<^verbatim>\<open>src/internal/retrieval/retrieval.go\<close> and the command-line tool of
  \<^verbatim>\<open>src/query/main.go\<close>. A client call to Qdrant is a parameter as in the indexer; so are
  the getter \<open>GetStringValue\<close> of a payload value (absent values included) and the
  formatting of a score.
\<close>

section \<open>Search\<close>

definition retrieval_QdrantCollection :: string where
  "retrieval_QdrantCollection = ''documents''"

record 'f Result =
  re_DocID :: string
  re_Title :: string
  re_Text :: string
  re_Score :: 'f

record 'f SearchPoints =
  sp_CollectionName :: string
  sp_Vector :: "'f list"
  sp_Limit :: "64 word"
  sp_WithPayload :: bool

record ('f, 'v) ScoredPoint =
  sc_Score :: 'f
  sc_Payload :: "string \<rightharpoonup> 'v"

type_synonym ('f, 'v, 'q) searcher = "'f SearchPoints \<Rightarrow> 'q \<Rightarrow> 'q \<times> (string + ('f, 'v) ScoredPoint list)"

definition point_result :: "('v option \<Rightarrow> string) \<Rightarrow> ('f, 'v) ScoredPoint \<Rightarrow> 'f Result" where
  "point_result getString point =
     \<lparr>re_DocID = getString (sc_Payload point ''doc_id''), re_Title = getString (sc_Payload point ''title''),
      re_Text = getString (sc_Payload point ''text''), re_Score = sc_Score point\<rparr>"

definition Search ::
  "('v option \<Rightarrow> string) \<Rightarrow> ('f, 'v, 'q) searcher \<Rightarrow> (Request \<Rightarrow> 'p \<Rightarrow> 'p \<times> (string + 'f Response)) \<Rightarrow> string \<Rightarrow> int
     \<Rightarrow> 'p \<Rightarrow> 'q \<Rightarrow> 'p \<times> 'q \<times> (string + 'f Result list)" where
  "Search getString pointsClient emb queryText topK p q =
     (case emb \<lparr>rq_ChunkID = ''query'', rq_Text = queryText\<rparr> p of
        (p1, Inl err) \<Rightarrow> (p1, q, Inl (''embed query: '' @ err))
      | (p1, Inr embedResp) \<Rightarrow>
          (case pointsClient \<lparr>sp_CollectionName = retrieval_QdrantCollection, sp_Vector = rs_Vector embedResp,
                  sp_Limit = word_of_int topK, sp_WithPayload = True\<rparr> q of
             (q1, Inl err) \<Rightarrow> (p1, q1, Inl (''qdrant search: '' @ err))
           | (q1, Inr points) \<Rightarrow> (p1, q1, Inr (map (point_result getString) points))))"

text \<open>Reader and writer use one collection.\<close>

lemma same_collection: "retrieval_QdrantCollection = QdrantCollection"
  by (simp add: retrieval_QdrantCollection_def QdrantCollection_def)

text \<open>A limit that is not negative reaches Qdrant as it is; a negative one wraps.\<close>

lemma limit_exact: "0 \<le> n \<Longrightarrow> n < 2 ^ 64 \<Longrightarrow> uint (word_of_int n :: 64 word) = n"
  by (simp add: uint_word_of_int)

lemma limit_negative: "uint (word_of_int (- 1) :: 64 word) = 2 ^ 64 - 1"
  unfolding uint_word_of_int by simp

text \<open>Requests a search makes, seen by a client that records them.\<close>

definition recorded :: "('f SearchPoints \<Rightarrow> string + ('f, 'v) ScoredPoint list) \<Rightarrow> ('f, 'v, 'f SearchPoints list) searcher" where
  "recorded answer req log = (log @ [req], answer req)"

lemma Search_recorded:
  assumes "Search getString (recorded answer) emb queryText topK p log = (p', log', out)"
  shows "(\<exists>p1 err. emb \<lparr>rq_ChunkID = ''query'', rq_Text = queryText\<rparr> p = (p1, Inl err) \<and> log' = log \<and> out = Inl (''embed query: '' @ err)) \<or>
    (\<exists>p1 resp req. emb \<lparr>rq_ChunkID = ''query'', rq_Text = queryText\<rparr> p = (p1, Inr resp) \<and>
      req = \<lparr>sp_CollectionName = QdrantCollection, sp_Vector = rs_Vector resp, sp_Limit = word_of_int topK, sp_WithPayload = True\<rparr> \<and>
      log' = log @ [req] \<and>
      out = (case answer req of Inl err \<Rightarrow> Inl (''qdrant search: '' @ err) | Inr pts \<Rightarrow> Inr (map (point_result getString) pts)))"
  using assms by (auto simp: Search_def recorded_def same_collection split: prod.splits sum.splits)

section \<open>The query command\<close>

definition em_dash :: string where
  "em_dash = [char_of (226 :: nat), char_of (128 :: nat), char_of (148 :: nat)]"

definition show_text :: "string \<Rightarrow> string" where
  "show_text txt = (if length txt > 200 then take 200 txt @ ''...'' else txt)"

fun print_results :: "('f \<Rightarrow> string) \<Rightarrow> int \<Rightarrow> 'f Result list \<Rightarrow> string list" where
  "print_results fmt i [] = []"
| "print_results fmt i (r # rs) =
     (''['' @ Itoa (i + 1) @ ''] '' @ re_Title r @ '' (score='' @ fmt (re_Score r) @ '') '' @ em_dash @ '' '' @ show_text (re_Text r))
     # print_results fmt (i + 1) rs"

text \<open>The lines printed and the error; \<open>dial\<close> is the error of creating the connection, if any.\<close>

definition query_run ::
  "('f \<Rightarrow> string) \<Rightarrow> ('v option \<Rightarrow> string) \<Rightarrow> (string \<Rightarrow> string option) \<Rightarrow> ('f, 'v, 'q) searcher
     \<Rightarrow> (Request \<Rightarrow> 'p \<Rightarrow> 'p \<times> (string + 'f Response)) \<Rightarrow> string \<Rightarrow> string \<Rightarrow> int \<Rightarrow> 'p \<Rightarrow> 'q
     \<Rightarrow> 'p \<times> 'q \<times> string list \<times> string option" where
  "query_run fmt getString dial pointsClient emb queryText qdrantAddr topK p q =
     (case dial qdrantAddr of
        Some err \<Rightarrow> (p, q, [], Some (''dial qdrant: '' @ err))
      | None \<Rightarrow>
          (case Search getString pointsClient emb queryText topK p q of
             (p1, q1, Inl err) \<Rightarrow> (p1, q1, [], Some err)
           | (p1, q1, Inr results) \<Rightarrow>
               if length results = 0 then (p1, q1, [''no results''], None)
               else (p1, q1, print_results fmt 0 results, None)))"

text \<open>
  The command after flag parsing: \<open>args\<close> are the remaining words. The outcome is the text
  printed and the fatal message, if any; a fatal exit skips the deferred \<open>Close\<close>.
\<close>

definition query_main ::
  "'p os_exec \<Rightarrow> ('f \<Rightarrow> string) \<Rightarrow> ('v option \<Rightarrow> string) \<Rightarrow> (string \<Rightarrow> string option) \<Rightarrow> ('f, 'v, 'q) searcher
     \<Rightarrow> (Request \<Rightarrow> 'p \<Rightarrow> 'p \<times> (string + 'f Response)) \<Rightarrow> string \<Rightarrow> string \<Rightarrow> int \<Rightarrow> string list \<Rightarrow> 'q
     \<Rightarrow> 'q \<times> string list \<times> string option" where
  "query_main ox fmt getString dial pointsClient emb qdrantAddr embedderCmd topK args q =
     (if length args < 1 then (q, [], Some ''usage: query [flags] <query text>'')
      else
        (let queryText = Join args '' ''
         in case embedder_Start ox embedderCmd of
              Inl err \<Rightarrow> (q, [], Some (''start embedder: '' @ err))
            | Inr p \<Rightarrow>
                (case query_run fmt getString dial pointsClient emb queryText qdrantAddr topK p q of
                   (p1, q1, out, Some err) \<Rightarrow> (q1, out, Some err)
                 | (p1, q1, out, None) \<Rightarrow> (case embedder_Close ox p1 of (p2, _) \<Rightarrow> (q1, out, None)))))"

text \<open>At most 203 bytes of a passage are shown, and each result gets one line.\<close>

lemma length_show_text: "length (show_text t) \<le> 203"
  by (simp add: show_text_def)

lemma length_print_results [simp]: "length (print_results fmt i rs) = length rs"
  by (induction rs arbitrary: i) auto

end
