(* ===== verification/Query_Server.thy ===== *)
theory Query_Server
  imports Retrieval
begin

text \<open>
  The HTTP service of \<^verbatim>\<open>src/queryserver/main.go\<close>: the two handlers, the error responses,
  the routes, start-up and the answering of requests, one after the other. Decoding of
  request bodies is a parameter; a response holds the value that the source encodes.
  Deadlines show as errors of the remote calls.
\<close>

section \<open>Model\<close>

definition defaultTopK :: int where "defaultTopK = 5"
definition maxTopK :: int where "maxTopK = 50"
definition defaultChunkSize :: int where "defaultChunkSize = 200"

record searchRequest =
  sq_Query :: string
  sq_TopK :: int

record ingestRequest =
  iq_DocID :: string
  iq_Title :: string
  iq_Text :: string
  iq_ChunkSize :: int

record ingestResponse =
  ir_DocID :: string
  ir_ChunkIDs :: "string list"

record http_request =
  ht_Method :: string
  ht_Body :: string

datatype 'f body =
    ErrorBody string
  | ResultsBody "'f Result list"
  | IngestBody ingestResponse
  | TextBody string
  | RedirectBody string

record 'f http_response =
  hw_Status :: int
  hw_ContentType :: "string option"
  hw_Body :: "'f body"

definition StatusOK :: int where "StatusOK = 200"
definition StatusBadRequest :: int where "StatusBadRequest = 400"
definition StatusMethodNotAllowed :: int where "StatusMethodNotAllowed = 405"
definition StatusInternalServerError :: int where "StatusInternalServerError = 500"

lemmas status_defs = StatusOK_def StatusBadRequest_def StatusMethodNotAllowed_def StatusInternalServerError_def

definition writeError :: "int \<Rightarrow> string \<Rightarrow> 'f http_response" where
  "writeError status msg = \<lparr>hw_Status = status, hw_ContentType = Some ''application/json'', hw_Body = ErrorBody msg\<rparr>"

definition writeJSON :: "'f body \<Rightarrow> 'f http_response" where
  "writeJSON b = \<lparr>hw_Status = StatusOK, hw_ContentType = Some ''application/json'', hw_Body = b\<rparr>"

definition handleSearch ::
  "(string \<Rightarrow> string + searchRequest) \<Rightarrow> ('v option \<Rightarrow> string) \<Rightarrow> ('f, 'v, 'q) searcher
     \<Rightarrow> (Request \<Rightarrow> 'p \<Rightarrow> 'p \<times> (string + 'f Response)) \<Rightarrow> http_request \<Rightarrow> 'p \<Rightarrow> 'q \<Rightarrow> 'p \<times> 'q \<times> 'f http_response" where
  "handleSearch decode getString pointsClient emb r p q =
     (if ht_Method r \<noteq> ''POST'' then (p, q, writeError StatusMethodNotAllowed ''only POST is supported'')
      else (case decode (ht_Body r) of
          Inl err \<Rightarrow> (p, q, writeError StatusBadRequest (''invalid request body: '' @ err))
        | Inr req \<Rightarrow>
            if sq_Query req = '''' then (p, q, writeError StatusBadRequest ''query must not be empty'')
            else
              (let topK = (if sq_TopK req \<le> 0 then defaultTopK else sq_TopK req);
                   topK' = (if topK > maxTopK then maxTopK else topK)
               in case Search getString pointsClient emb (sq_Query req) topK' p q of
                    (p1, q1, Inl err) \<Rightarrow> (p1, q1, writeError StatusInternalServerError err)
                  | (p1, q1, Inr results) \<Rightarrow> (p1, q1, writeJSON (ResultsBody results)))))"

definition handleIngest ::
  "(string \<Rightarrow> string + ingestRequest) \<Rightarrow> ('f, 'q) upsert
     \<Rightarrow> (Request \<Rightarrow> 'p \<Rightarrow> 'p \<times> (string + 'f Response)) \<Rightarrow> http_request \<Rightarrow> 'p \<Rightarrow> 'q \<Rightarrow> ('p \<times> 'q \<times> 'f http_response) go" where
  "handleIngest decode pointsClient emb r p q =
     (if ht_Method r \<noteq> ''POST'' then Inr (p, q, writeError StatusMethodNotAllowed ''only POST is supported'')
      else (case decode (ht_Body r) of
          Inl err \<Rightarrow> Inr (p, q, writeError StatusBadRequest (''invalid request body: '' @ err))
        | Inr req \<Rightarrow>
            if iq_DocID req = '''' then Inr (p, q, writeError StatusBadRequest ''doc_id must not be empty'')
            else if iq_Text req = '''' then Inr (p, q, writeError StatusBadRequest ''text must not be empty'')
            else
              (let chunkSize = (if iq_ChunkSize req \<le> 0 then defaultChunkSize else iq_ChunkSize req)
               in go_bind (IngestDocument emb pointsClient (iq_DocID req) (iq_Title req) (iq_Text req) chunkSize p q)
                    (\<lambda>(p1, q1, chunkIDs, err).
                      Inr (p1, q1, case err of
                          Some e \<Rightarrow> writeError StatusInternalServerError e
                        | None \<Rightarrow> writeJSON (IngestBody \<lparr>ir_DocID = iq_DocID req, ir_ChunkIDs = chunkIDs\<rparr>))))))"

definition handleHealthz :: "http_request \<Rightarrow> 'f http_response" where
  "handleHealthz r = \<lparr>hw_Status = StatusOK, hw_ContentType = None, hw_Body = TextBody ''ok''\<rparr>"

text \<open>
  Start-up before serving: the fatal message, or the running embedder. \<open>dial\<close> is the
  error of creating the connection, if any.
\<close>

definition queryserver_main ::
  "'p os_exec \<Rightarrow> (string \<Rightarrow> string option) \<Rightarrow> 'q collections_client \<Rightarrow> string \<Rightarrow> string \<Rightarrow> 'q \<Rightarrow> 'q \<times> (string + 'p)" where
  "queryserver_main ox dial collClient qdrantAddr embedderCmd q =
     (case dial qdrantAddr of
        Some err \<Rightarrow> (q, Inl (''dial qdrant: '' @ err))
      | None \<Rightarrow>
          (case EnsureCollection collClient q of
             (q1, Some err) \<Rightarrow> (q1, Inl (''create qdrant collection: '' @ err))
           | (q1, None) \<Rightarrow>
               (case embedder_Start ox embedderCmd of
                  Inl err \<Rightarrow> (q1, Inl (''start embedder: '' @ err))
                | Inr p \<Rightarrow> (q1, Inr p))))"

section \<open>Routing\<close>

text \<open>
  \<open>http.ServeMux\<close> with the three patterns. The path is the escaped path of the request URL.
  Unless the method is \<open>CONNECT\<close>, it is first cleaned: empty and \<open>.\<close> segments are dropped,
  \<open>..\<close> drops the segment before, a trailing slash is kept; when that changes it, the answer
  is a redirect to the cleaned path. Otherwise the one segment of a pattern is compared
  with the unescaped segment of the path. The request target \<open>*\<close> is no path.
\<close>

datatype route = RouteSearch | RouteIngest | RouteHealthz

datatype routed = Matched route | MovedTo string | Unmatched | BadTarget

definition patterns :: "string \<rightharpoonup> route" where
  "patterns = [''/search'' \<mapsto> RouteSearch, ''/ingest'' \<mapsto> RouteIngest, ''/healthz'' \<mapsto> RouteHealthz]"

fun clean_segments :: "string list \<Rightarrow> string list \<Rightarrow> string list" where
  "clean_segments acc [] = rev acc"
| "clean_segments acc (x # xs) =
     (if x = '''' \<or> x = ''.'' then clean_segments acc xs
      else if x = ''..'' then clean_segments (tl acc) xs
      else clean_segments (x # acc) xs)"

definition path_of :: "string list \<Rightarrow> string" where
  "path_of xs = (if xs = [] then ''/'' else concat (map (\<lambda>x. ''/'' @ x) xs))"

definition cleanPath :: "string \<Rightarrow> string" where
  "cleanPath path =
     (let p = (if path = '''' then ''/'' else if hd path \<noteq> CHR ''/'' then ''/'' @ path else path);
          np = path_of (clean_segments [] (Split p CHR ''/''))
      in if last p = CHR ''/'' \<and> np \<noteq> ''/'' then np @ ''/'' else np)"

definition hex_digit :: "char \<Rightarrow> nat option" where
  "hex_digit c =
     (let n = of_char c :: nat
      in if 48 \<le> n \<and> n \<le> 57 then Some (n - 48)
         else if 97 \<le> n \<and> n \<le> 102 then Some (n - 87)
         else if 65 \<le> n \<and> n \<le> 70 then Some (n - 55)
         else None)"

fun PathUnescape :: "string \<Rightarrow> string option" where
  "PathUnescape [] = Some []"
| "PathUnescape (c # cs) =
     (if c \<noteq> CHR ''%'' then map_option ((#) c) (PathUnescape cs)
      else (case cs of
          a # b # ds \<Rightarrow>
            (case (hex_digit a, hex_digit b) of
               (Some x, Some y) \<Rightarrow> map_option ((#) (char_of (16 * x + y))) (PathUnescape ds)
             | _ \<Rightarrow> None)
        | _ \<Rightarrow> None))"

definition match_path :: "string \<Rightarrow> route option" where
  "match_path path =
     (case path of
        [] \<Rightarrow> None
      | c # seg \<Rightarrow>
          if c \<noteq> CHR ''/'' \<or> CHR ''/'' \<in> set seg then None
          else patterns (''/'' @ (case PathUnescape seg of Some s \<Rightarrow> s | None \<Rightarrow> seg)))"

definition mux :: "string \<Rightarrow> string \<Rightarrow> routed" where
  "mux method path =
     (if path = ''*'' then BadTarget
      else if method \<noteq> ''CONNECT'' \<and> cleanPath path \<noteq> path then MovedTo (cleanPath path)
      else (case match_path path of Some rt \<Rightarrow> Matched rt | None \<Rightarrow> Unmatched))"

section \<open>Serving\<close>

text \<open>
  The struct \<open>server\<close>, with Qdrant as it is behind the client, and the answer to a request:
  that of its handler, \<open>http.NotFound\<close> or a redirect, whose body \<^verbatim>\<open>net/http\<close> builds from the
  cleaned path. \<open>OPTIONS *\<close> never reaches the routes.
\<close>

record ('p, 'q) server =
  sv_pointsClient :: 'q
  sv_emb :: 'p

definition StatusNotFound :: int where "StatusNotFound = 404"

definition NotFound :: "'f http_response" where
  "NotFound = \<lparr>hw_Status = StatusNotFound, hw_ContentType = Some ''text/plain; charset=utf-8'', hw_Body = TextBody ''404 page not found''\<rparr>"

definition StatusMovedPermanently :: int where "StatusMovedPermanently = 301"

definition Redirect :: "string \<Rightarrow> string \<Rightarrow> 'f http_response" where
  "Redirect method path = \<lparr>hw_Status = StatusMovedPermanently,
     hw_ContentType = (if method = ''GET'' \<or> method = ''HEAD'' then Some ''text/html; charset=utf-8'' else None),
     hw_Body = RedirectBody path\<rparr>"

definition empty_response :: "int \<Rightarrow> 'f http_response" where
  "empty_response status = \<lparr>hw_Status = status, hw_ContentType = None, hw_Body = TextBody ''''\<rparr>"

definition serve ::
  "(string \<Rightarrow> string + searchRequest) \<Rightarrow> (string \<Rightarrow> string + ingestRequest) \<Rightarrow> ('v option \<Rightarrow> string) \<Rightarrow> ('f, 'v, 'q) searcher
     \<Rightarrow> ('f, 'q) upsert \<Rightarrow> (Request \<Rightarrow> 'p \<Rightarrow> 'p \<times> (string + 'f Response)) \<Rightarrow> string \<Rightarrow> http_request
     \<Rightarrow> ('p, 'q) server \<Rightarrow> (('p, 'q) server \<times> 'f http_response) go" where
  "serve decodeS decodeI getString searcher client emb path r srv =
     (if path = ''*'' \<and> ht_Method r = ''OPTIONS'' then Inr (srv, empty_response StatusOK)
      else case mux (ht_Method r) path of
        Matched RouteSearch \<Rightarrow>
          (case handleSearch decodeS getString searcher emb r (sv_emb srv) (sv_pointsClient srv) of
             (p, q, resp) \<Rightarrow> Inr (\<lparr>sv_pointsClient = q, sv_emb = p\<rparr>, resp))
      | Matched RouteIngest \<Rightarrow>
          go_bind (handleIngest decodeI client emb r (sv_emb srv) (sv_pointsClient srv))
            (\<lambda>(p, q, resp). Inr (\<lparr>sv_pointsClient = q, sv_emb = p\<rparr>, resp))
      | Matched RouteHealthz \<Rightarrow> Inr (srv, handleHealthz r)
      | MovedTo path' \<Rightarrow> Inr (srv, Redirect (ht_Method r) path')
      | BadTarget \<Rightarrow> Inr (srv, empty_response StatusBadRequest)
      | Unmatched \<Rightarrow> Inr (srv, NotFound))"

text \<open>\<open>ListenAndServe\<close> on a sequence of requests.\<close>

fun serve_all ::
  "(string \<Rightarrow> string + searchRequest) \<Rightarrow> (string \<Rightarrow> string + ingestRequest) \<Rightarrow> ('v option \<Rightarrow> string) \<Rightarrow> ('f, 'v, 'q) searcher
     \<Rightarrow> ('f, 'q) upsert \<Rightarrow> (Request \<Rightarrow> 'p \<Rightarrow> 'p \<times> (string + 'f Response)) \<Rightarrow> (string \<times> http_request) list
     \<Rightarrow> ('p, 'q) server \<Rightarrow> (('p, 'q) server \<times> 'f http_response list) go" where
  "serve_all decodeS decodeI getString searcher client emb [] srv = Inr (srv, [])"
| "serve_all decodeS decodeI getString searcher client emb ((path, r) # reqs) srv =
     go_bind (serve decodeS decodeI getString searcher client emb path r srv) (\<lambda>(srv1, resp).
       go_bind (serve_all decodeS decodeI getString searcher client emb reqs srv1) (\<lambda>(srv2, resps).
         Inr (srv2, resp # resps)))"

section \<open>Clean paths\<close>

text \<open>
  A redirect leads to a path that is clean: no request is redirected twice.
\<close>

lemma split_loop_append: "sep \<notin> set x \<Longrightarrow> split_loop sep cur (x @ r) = split_loop sep (cur @ x) r"
  by (induction x arbitrary: cur) auto

lemma split_loop_segments:
  "\<forall>x \<in> set xs. sep \<notin> set x \<Longrightarrow> split_loop sep cur (concat (map ((#) sep) xs)) = cur # xs"
  "\<forall>x \<in> set xs. sep \<notin> set x \<Longrightarrow> split_loop sep cur (concat (map ((#) sep) xs) @ [sep]) = cur # xs @ [[]]"
  by (induction xs arbitrary: cur) (simp_all add: split_loop_append)

lemma split_loop_free: "sep \<notin> set cur \<Longrightarrow> \<forall>x \<in> set (split_loop sep cur s). sep \<notin> set x"
proof (induction s arbitrary: cur)
  case (Cons c s)
  show ?case using Cons.IH [of "[]"] Cons.IH [of "cur @ [c]"] Cons.prems by auto
qed simp

definition segment_ok :: "string \<Rightarrow> bool" where
  "segment_ok x \<longleftrightarrow> x \<noteq> '''' \<and> x \<noteq> ''.'' \<and> x \<noteq> ''..'' \<and> CHR ''/'' \<notin> set x"

lemma clean_segments_ok:
  assumes "\<forall>x \<in> set xs. CHR ''/'' \<notin> set x" and "\<forall>x \<in> set acc. segment_ok x"
  shows "\<forall>x \<in> set (clean_segments acc xs). segment_ok x"
  using assms
proof (induction xs arbitrary: acc)
  case (Cons x xs)
  have xs: "\<forall>x \<in> set xs. CHR ''/'' \<notin> set x" using Cons.prems(1) by simp
  show ?case
  proof (cases "x = '''' \<or> x = ''.''")
    case True
    then show ?thesis using Cons.IH [OF xs Cons.prems(2)] by simp
  next
    case plain: False
    show ?thesis
    proof (cases "x = ''..''")
      case True
      have "\<forall>y \<in> set (tl acc). segment_ok y" using Cons.prems(2) by (cases acc) auto
      from Cons.IH [OF xs this] show ?thesis using True by simp
    next
      case False
      then have "\<forall>y \<in> set (x # acc). segment_ok y" using Cons.prems plain by (simp add: segment_ok_def)
      from Cons.IH [OF xs this] show ?thesis using plain False by simp
    qed
  qed
qed simp

lemma clean_segments_same: "\<forall>x \<in> set xs. segment_ok x \<Longrightarrow> clean_segments acc (xs @ replicate n '''') = rev acc @ xs"
proof (induction xs arbitrary: acc)
  case Nil
  have "clean_segments acc (replicate n '''') = rev acc" by (induction n) simp_all
  then show ?case by simp
qed (simp add: segment_ok_def)

lemma cleanPath_path_of:
  assumes "\<forall>x \<in> set xs. segment_ok x"
  shows "cleanPath (path_of xs) = path_of xs" and "xs \<noteq> [] \<Longrightarrow> cleanPath (path_of xs @ ''/'') = path_of xs @ ''/''"
proof -
  have free: "\<forall>x \<in> set xs. CHR ''/'' \<notin> set x" using assms by (simp add: segment_ok_def)
  note same = clean_segments_same [OF assms, of "[]" 0] clean_segments_same [OF assms, of "[]" 1]
  have "(@) ''/'' = (#) CHR ''/''" by (simp add: fun_eq_iff)
  then have conc: "path_of xs = concat (map ((#) CHR ''/'') xs)" if "xs \<noteq> []" using that by (simp add: path_of_def)
  have split: "Split (path_of xs) CHR ''/'' = '''' # xs" "Split (path_of xs @ ''/'') CHR ''/'' = '''' # xs @ ['''']" if "xs \<noteq> []"
    using split_loop_segments [OF free, of "[]"] by (simp_all add: Split_def conc [OF that])
  have ends: "path_of xs \<noteq> []" "hd (path_of xs) = CHR ''/''" "last (path_of xs) \<noteq> CHR ''/''" if "xs \<noteq> []"
  proof -
    obtain ys y where xs: "xs = ys @ [y]" using \<open>xs \<noteq> []\<close> by (meson rev_exhaust)
    have y: "y \<noteq> []" "CHR ''/'' \<notin> set y" using assms by (simp_all add: xs segment_ok_def)
    then show "last (path_of xs) \<noteq> CHR ''/''" by (auto simp: conc [OF that, unfolded xs] xs dest: last_in_set)
    show "path_of xs \<noteq> []" "hd (path_of xs) = CHR ''/''" using \<open>xs \<noteq> []\<close> by (simp_all add: conc [OF that] hd_concat hd_map)
  qed
  show "cleanPath (path_of xs) = path_of xs"
  proof (cases "xs = []")
    case True
    then show ?thesis by (simp add: cleanPath_def path_of_def Split_def)
  next
    case False
    then show ?thesis using split [OF False] ends [OF False] same by (simp add: cleanPath_def Let_def)
  qed
  have "path_of xs \<noteq> ''/''" if "xs \<noteq> []" using ends(3) [OF that] by auto
  then show "cleanPath (path_of xs @ ''/'') = path_of xs @ ''/''" if "xs \<noteq> []"
    using that split [OF that] ends [OF that] same that by (simp add: cleanPath_def Let_def path_of_def [of "[]"])
qed

lemma cleanPath_idem: "cleanPath (cleanPath path) = cleanPath path"
proof -
  let ?p = "if path = '''' then ''/'' else if hd path \<noteq> CHR ''/'' then ''/'' @ path else path"
  let ?xs = "clean_segments [] (Split ?p CHR ''/'')"
  have "\<forall>x \<in> set ?xs. segment_ok x"
    by (rule clean_segments_ok) (use split_loop_free [of _ "[]"] in \<open>simp_all add: Split_def\<close>)
  note clean = cleanPath_path_of [OF this]
  have "cleanPath path = path_of ?xs \<or> ?xs \<noteq> [] \<and> cleanPath path = path_of ?xs @ ''/''"
    by (auto simp: cleanPath_def Let_def path_of_def)
  then show ?thesis using clean by metis
qed

lemma redirected_once: "mux method path = MovedTo path' \<Longrightarrow> mux method' path' \<noteq> MovedTo path''"
  using cleanPath_idem [of path] by (auto simp: mux_def split: if_splits option.splits)

lemma mux_examples:
  "mux ''GET'' ''//search'' = MovedTo ''/search''" "mux ''POST'' ''/a/../search'' = MovedTo ''/search''"
  "mux ''GET'' '''' = MovedTo ''/''" "mux ''GET'' ''/./a//b/'' = MovedTo ''/a/b/''"
  "mux ''POST'' ''/%73earch'' = Matched RouteSearch" "mux ''CONNECT'' ''//search'' = Unmatched"
  "mux ''GET'' ''/search/'' = Unmatched" "mux ''GET'' ''/nowhere'' = Unmatched" "mux ''GET'' ''*'' = BadTarget"
  by code_simp+

end
