(* ===== verification/Index_Theorems.thy ===== *)
theory Index_Theorems
  imports Query_Server
begin

text \<open>
  The theorems about the ingestion and search paths.
\<close>

section \<open>Chunking and point identifiers\<close>

text \<open>C35 Chunking returns for every step, positive or not, and loses nothing: the words of the
  chunks, one after the other, are the words of the text (also when the text is not valid
  UTF-8). No chunk is empty; with a positive bound no chunk has more words than the bound
  and every chunk but the last has exactly that many; otherwise there is one chunk, or
  none for a text without words.\<close>

theorem chunk_lossless:
  "\<exists>chunks. ChunkText txt n = Inr chunks \<and> concat (map Fields chunks) = Fields txt \<and>
    (\<forall>c \<in> set chunks. Fields c \<noteq> []) \<and>
    (0 < n \<longrightarrow> (\<forall>c \<in> set chunks. int (length (Fields c)) \<le> n) \<and> (\<forall>c \<in> set (butlast chunks). int (length (Fields c)) = n)) \<and>
    (n \<le> 0 \<longrightarrow> length chunks = (if Fields txt = [] then 0 else 1))"
proof -
  let ?wss = "if Fields txt = [] then [] else if n \<le> 0 then [Fields txt] else pieces (nat n) (Fields txt)"
  obtain chunks where ch: "ChunkText txt n = Inr chunks" by (simp add: ChunkText_eq)
  note wss = ChunkText_words [OF ch]
  have elem: "Fields c \<in> set ?wss" if "c \<in> set chunks" for c
    unfolding wss [symmetric] using that by simp
  have front: "Fields c \<in> set (butlast ?wss)" if "c \<in> set (butlast chunks)" for c
    unfolding wss [symmetric] using that by (simp add: map_butlast [symmetric])
  have "concat (map Fields chunks) = Fields txt" unfolding wss by (simp add: concat_pieces)
  moreover have "Fields c \<noteq> []" if "c \<in> set chunks" for c
    using elem [OF that] pieces_size by (auto split: if_splits)
  moreover have "int (length (Fields c)) \<le> n" if "0 < n" "c \<in> set chunks" for c
    using elem [OF that(2)] that(1) pieces_size [of "Fields c" "nat n" "Fields txt"] by (auto split: if_splits)
  moreover have "int (length (Fields c)) = n" if "0 < n" "c \<in> set (butlast chunks)" for c
    using front [OF that(2)] that(1) pieces_full [of "Fields c" "nat n" "Fields txt"] by (auto split: if_splits)
  moreover have "length chunks = (if Fields txt = [] then 0 else 1)" if "n \<le> 0"
    using that arg_cong [OF wss, of length] by (simp split: if_splits)
  ultimately show ?thesis using ch by blast
qed

theorem chunk_lossless_witness:
  "\<exists>chunks. ChunkText ''one two three'' 2 = Inr chunks \<and> (\<forall>c \<in> set chunks. int (length (Fields c)) \<le> 2) \<and>
     concat (map Fields chunks) = [''one'', ''two'', ''three'']"
proof -
  have "Fields ''one two three'' = [''one'', ''two'', ''three'']" by code_simp
  with chunk_lossless [of "''one two three''" 2] show ?thesis by auto
qed

text \<open>The point identifier of a chunk is the FNV-1a hash of its identifier: the loop over
  unbounded integers equals the hash on 64-bit words. Identifiers that differ only in
  their last byte never collide.\<close>

lemma point_id_fnv1a:
  "ChunkIDToUUID s = fnv1a s \<and> (ChunkIDToUUID (s @ [c]) = ChunkIDToUUID (s @ [d]) \<longleftrightarrow> c = d)"
  by (simp add: ChunkIDToUUID_def fnv64_fnv1a fnv1a_last_byte)

section \<open>Ingestion over HTTP\<close>

text \<open>A point store whose state is the index itself.\<close>

definition map_upsert :: "('f, 64 word \<rightharpoonup> 'f PointStruct) upsert" where
  "map_upsert req q = (write_points (up_Points req) q, None)"

definition text_embedder :: "Request \<Rightarrow> nat \<Rightarrow> nat \<times> (string + char Response)" where
  "text_embedder req n = (n + 1, Inr \<lparr>rs_ChunkID = rq_ChunkID req, rs_Vector = rq_Text req\<rparr>)"

lemma demo_store: "point_store map_upsert (\<lambda>q. q)"
  by (auto simp: point_store_def map_upsert_def)

text \<open>
  A point store whose index lags behind, as Qdrant's does for requests that do not wait: an
  upsert is acknowledged when it is queued, and applied later. It is a point store by what
  it will hold; what it holds right after an acknowledged upsert can be without the point.
\<close>

type_synonym 'f lagging_index = "(64 word \<rightharpoonup> 'f PointStruct) \<times> 'f PointStruct list"

fun lagging_upsert :: "'f UpsertPoints \<Rightarrow> 'f lagging_index \<Rightarrow> 'f lagging_index \<times> string option" where
  "lagging_upsert req (m, queue) =
     (if up_Wait req = Some True then ((write_points (queue @ up_Points req) m, []), None)
      else ((m, queue @ up_Points req), None))"

fun apply_next :: "'f lagging_index \<Rightarrow> 'f lagging_index" where
  "apply_next (m, []) = (m, [])"
| "apply_next (m, pt # queue) = (m(pt_Id pt \<mapsto> pt), queue)"

definition settled_index :: "'f lagging_index \<Rightarrow> 64 word \<rightharpoonup> 'f PointStruct" where
  "settled_index = (\<lambda>(m, queue). write_points queue m)"

lemma lagging_store: "point_store lagging_upsert settled_index" "settled_index (apply_next x) = settled_index x"
  by (auto simp: point_store_def settled_index_def write_points_def) (cases x rule: apply_next.cases; simp)

lemma acknowledged_not_visible:
  "\<exists>m queue. UpsertChunk lagging_upsert c v (Map.empty, []) = ((m, queue), None) \<and> m = Map.empty \<and>
     settled_index (m, queue) (ChunkIDToUUID (ck_ChunkID c)) = Some (chunk_point c v) \<and>
     fst (apply_next (m, queue)) (ChunkIDToUUID (ck_ChunkID c)) = Some (chunk_point c v)"
  by (simp add: UpsertChunk_def settled_index_def write_points_def chunk_point_def)

lemma demo_embeds: "embeds_by (\<lambda>t. t) text_embedder"
  by (auto simp: embeds_by_def text_embedder_def)

lemma IngestDocument_points:
  assumes "point_store client look" and "embeds_by vec emb"
    and "IngestDocument emb client d t txt n p q = Inr (p', q', ids, err)"
    and "ChunkText txt n = Inr chunks"
  shows "\<exists>k \<le> length chunks. ids = map (\<lambda>j. chunk_id d (int j)) [0..<k] \<and>
    (err = None \<longleftrightarrow> chunks \<noteq> [] \<and> k = length chunks) \<and>
    (look q' = write_points (take k (doc_points vec d t 0 chunks)) (look q) \<or>
     err \<noteq> None \<and> look q' = write_points (take (Suc k) (doc_points vec d t 0 chunks)) (look q))"
proof (cases "chunks = []")
  case True
  then show ?thesis using assms(3,4) by (auto simp: IngestDocument_def)
next
  case False
  then have "ingest_loop emb client d t 0 chunks [] p q = (p', q', ids, err)"
    using assms(3,4) by (simp add: IngestDocument_def)
  from ingest_loop_points [OF assms(1,2) this] show ?thesis using False by simp
qed

text \<open>Every request is refused, or is an ingestion with a positive chunk size.\<close>

lemma handleIngest_cases:
  obtains (refused) status msg where "status \<in> {400, 405}"
      "handleIngest decode client emb r p q = Inr (p, q, writeError status msg)"
    | (ingested) req size where "decode (ht_Body r) = Inr req" "0 < size"
      "handleIngest decode client emb r p q =
        go_bind (IngestDocument emb client (iq_DocID req) (iq_Title req) (iq_Text req) size p q) (\<lambda>(p1, q1, chunkIDs, err).
          Inr (p1, q1, case err of Some e \<Rightarrow> writeError StatusInternalServerError e
            | None \<Rightarrow> writeJSON (IngestBody \<lparr>ir_DocID = iq_DocID req, ir_ChunkIDs = chunkIDs\<rparr>)))"
proof (cases "ht_Method r = ''POST''")
  case True
  show thesis
  proof (cases "decode (ht_Body r)")
    case (Inl e)
    then show thesis using True by (intro refused [of 400]) (simp_all add: handleIngest_def status_defs)
  next
    case (Inr req)
    consider "iq_DocID req = ''''" | "iq_DocID req \<noteq> ''''" "iq_Text req = ''''" | "iq_DocID req \<noteq> ''''" "iq_Text req \<noteq> ''''"
      by blast
    then show thesis
    proof cases
      case 3
      then show thesis using True Inr
        by (intro ingested [of req "if iq_ChunkSize req \<le> 0 then defaultChunkSize else iq_ChunkSize req"])
          (simp_all add: handleIngest_def Let_def defaultChunkSize_def)
    qed (use True Inr in \<open>intro refused [of 400]; simp add: handleIngest_def status_defs\<close>)+
  qed
next
  case False
  then show thesis by (intro refused [of 405]) (simp_all add: handleIngest_def status_defs)
qed

text \<open>C36 The ingest handler always answers, and its answer says what the index holds once every
  acknowledged operation has been applied (requests do not wait for that). Status 200 lists
  the identifiers of all chunks and all their points are written; status 500 comes with a
  proper prefix of the points written, at most one more in doubt; with any other status
  nothing was embedded or written.\<close>

theorem ingest_contract:
  assumes "point_store client look" and "embeds_by vec emb"
  shows "\<exists>p' q' resp. handleIngest decode client emb r p q = Inr (p', q', resp) \<and>
    (hw_Status resp \<in> {400, 405} \<and> p' = p \<and> q' = q \<or>
     (\<exists>req chunks size. decode (ht_Body r) = Inr req \<and> ChunkText (iq_Text req) size = Inr chunks \<and> 0 < size \<and>
       (let pts = doc_points vec (iq_DocID req) (iq_Title req) 0 chunks
        in (hw_Status resp = 200 \<and> chunks \<noteq> [] \<and>
             hw_Body resp = IngestBody \<lparr>ir_DocID = iq_DocID req,
               ir_ChunkIDs = map (\<lambda>j. chunk_id (iq_DocID req) (int j)) [0..<length chunks]\<rparr> \<and>
             look q' = write_points pts (look q)) \<or>
           (hw_Status resp = 500 \<and> (\<exists>k \<le> length chunks. (chunks \<noteq> [] \<longrightarrow> k < length chunks) \<and>
             look q' \<in> {write_points (take k pts) (look q), write_points (take (Suc k) pts) (look q)})))))"
proof (cases rule: handleIngest_cases [of decode client emb r p q])
  case (refused status msg)
  then show ?thesis by (simp add: writeError_def)
next
  case (ingested req size)
  let ?d = "iq_DocID req" and ?t = "iq_Title req"
  obtain chunks where ch: "ChunkText (iq_Text req) size = Inr chunks" by (simp add: ChunkText_eq)
  obtain x where "IngestDocument emb client ?d ?t (iq_Text req) size p q = Inr x"
    by (simp only: IngestDocument_def ch go_bind_simps)
  then obtain p' q' ids err where run: "IngestDocument emb client ?d ?t (iq_Text req) size p q = Inr (p', q', ids, err)"
    by (metis prod_cases4)
  from IngestDocument_points [OF assms run ch] obtain k where k: "k \<le> length chunks"
      "ids = map (\<lambda>j. chunk_id ?d (int j)) [0..<k]" "err = None \<longleftrightarrow> chunks \<noteq> [] \<and> k = length chunks"
      "look q' = write_points (take k (doc_points vec ?d ?t 0 chunks)) (look q) \<or>
       err \<noteq> None \<and> look q' = write_points (take (Suc k) (doc_points vec ?d ?t 0 chunks)) (look q)" by blast
  let ?resp = "case err of Some e \<Rightarrow> writeError StatusInternalServerError e | None \<Rightarrow> writeJSON (IngestBody \<lparr>ir_DocID = ?d, ir_ChunkIDs = ids\<rparr>)"
  have h: "handleIngest decode client emb r p q = Inr (p', q', ?resp)" using ingested(3) run by simp
  note start = exI [of _ p'] exI [of _ q'] exI [of _ ?resp] conjI disjI2 exI [of _ req] exI [of _ chunks] exI [of _ size]
  show ?thesis
  proof (cases err)
    case None
    then show ?thesis
      using h k ingested(1,2) ch by (intro start) (simp_all add: Let_def writeJSON_def status_defs)
  next
    case (Some e)
    then have "chunks \<noteq> [] \<longrightarrow> k < length chunks" using k(1,3) by auto
    then show ?thesis
      using h k ingested(1,2) ch Some by (intro start) (auto simp: Let_def writeError_def status_defs)
  qed
qed


theorem ingest_contract_witness:
  "\<exists>p' q' resp. handleIngest (\<lambda>b. Inr \<lparr>iq_DocID = ''d'', iq_Title = ''t'', iq_Text = b, iq_ChunkSize = 1\<rparr>) map_upsert text_embedder
     \<lparr>ht_Method = ''POST'', ht_Body = ''x y''\<rparr> 0 (\<lambda>_. None) = Inr (p', q', resp) \<and> hw_Status resp \<in> {200, 400, 405, 500}"
  using ingest_contract [OF demo_store demo_embeds, of "\<lambda>b. Inr \<lparr>iq_DocID = ''d'', iq_Title = ''t'', iq_Text = b, iq_ChunkSize = 1\<rparr>"
      "\<lparr>ht_Method = ''POST'', ht_Body = ''x y''\<rparr>" 0 "\<lambda>_. None"]
  by (auto simp: Let_def)

text \<open>C37 Re-ingesting a document overwrites: after a second successful ingestion under the same
  identifier the index, with every acknowledged operation applied, is the old one with the new chunks written over it. Ingesting the
  same text again changes nothing. When the new version has fewer chunks, an old trailing
  chunk stays in the index unless its identifier collides with that of a new chunk.\<close>

theorem reingest_overwrites:
  assumes "point_store client look" and "embeds_by vec emb"
    and "IngestDocument emb client d t txt n p q = Inr (p1, q1, ids1, None)"
    and "IngestDocument emb client d t' txt' n' p2 q1 = Inr (p3, q2, ids2, None)"
  shows "(t' = t \<and> txt' = txt \<and> n' = n \<longrightarrow> ids2 = ids1 \<and> look q2 = look q1) \<and>
    (\<exists>new. ChunkText txt' n' = Inr new \<and> length ids2 = length new \<and>
      look q2 = write_points (doc_points vec d t' 0 new) (look q1)) \<and>
    (\<forall>id \<in> set ids1. ChunkIDToUUID id \<notin> ChunkIDToUUID ` set ids2 \<longrightarrow>
      look q2 (ChunkIDToUUID id) = look q1 (ChunkIDToUUID id) \<and> look q1 (ChunkIDToUUID id) \<noteq> None)"
proof -
  obtain old new where ch: "ChunkText txt n = Inr old" "ChunkText txt' n' = Inr new" by (simp add: ChunkText_eq)
  from IngestDocument_points [OF assms(1,2,3) ch(1)]
  have one: "ids1 = map (\<lambda>j. chunk_id d (int j)) [0..<length old]" "look q1 = write_points (doc_points vec d t 0 old) (look q)"
    by auto
  from IngestDocument_points [OF assms(1,2,4) ch(2)]
  have two: "ids2 = map (\<lambda>j. chunk_id d (int j)) [0..<length new]" "look q2 = write_points (doc_points vec d t' 0 new) (look q1)"
    by auto
  have pts1: "pt_Id ` set (doc_points vec d t 0 old) = ChunkIDToUUID ` set ids1"
    unfolding one(1) using doc_points_ids [of vec d _ 0] by simp
  have pts2: "pt_Id ` set (doc_points vec d t' 0 new) = ChunkIDToUUID ` set ids2"
    unfolding two(1) using doc_points_ids [of vec d _ 0] by simp
  have "look q2 = look q1" "ids2 = ids1" if "t' = t" "txt' = txt" "n' = n"
    using that ch one two by (auto simp: write_points_idem)
  moreover have "look q2 (ChunkIDToUUID id) = look q1 (ChunkIDToUUID id)" if "ChunkIDToUUID id \<notin> ChunkIDToUUID ` set ids2" for id
    using that two(2) by (simp add: write_points_other pts2)
  moreover have "look q1 (ChunkIDToUUID id) \<noteq> None" if "id \<in> set ids1" for id
    unfolding one(2) using that pts1 by (intro write_points_written) simp
  ultimately show ?thesis using ch(2) two by auto
qed

theorem reingest_overwrites_witness:
  "\<exists>p1 q1 ids p2 q2. IngestDocument text_embedder map_upsert ''d'' ''t'' ''x y'' 1 0 (\<lambda>_. None) = Inr (p1, q1, ids, None) \<and>
     IngestDocument text_embedder map_upsert ''d'' ''t'' ''x y'' 1 p1 q1 = Inr (p2, q2, ids, None) \<and> q2 = q1"
proof -
  have ch: "ChunkText ''x y'' 1 = Inr [''x'', ''y'']"
  proof -
    have "Fields ''x y'' = [''x'', ''y'']" by code_simp
    then show ?thesis by (simp add: ChunkText_eq)
  qed
  have run: "\<exists>p' q' ids. IngestDocument text_embedder map_upsert ''d'' ''t'' ''x y'' 1 p q = Inr (p', q', ids, None)" for p q
    by (simp add: IngestDocument_def ch text_embedder_def UpsertChunk_def map_upsert_def Let_def)
  obtain p1 q1 ids where one: "IngestDocument text_embedder map_upsert ''d'' ''t'' ''x y'' 1 0 (\<lambda>_. None) = Inr (p1, q1, ids, None)"
    using run by blast
  obtain p2 q2 ids2 where two: "IngestDocument text_embedder map_upsert ''d'' ''t'' ''x y'' 1 p1 q1 = Inr (p2, q2, ids2, None)"
    using run by blast
  from reingest_overwrites [OF demo_store demo_embeds one two] have "ids2 = ids" "q2 = q1" by auto
  with one two show ?thesis by blast
qed

section \<open>Search over HTTP\<close>

lemma handleSearch_cases:
  assumes "handleSearch decode getString client emb r p q = (p', q', resp)"
  obtains (refused) status msg where "status \<in> {400, 405}" "p' = p" "q' = q" "resp = writeError status msg"
    | (searched) req n out where "decode (ht_Body r) = Inr req" "1 \<le> n" "n \<le> 50"
      "Search getString client emb (sq_Query req) n p q = (p', q', out)"
      "resp = (case out of Inl err \<Rightarrow> writeError StatusInternalServerError err | Inr results \<Rightarrow> writeJSON (ResultsBody results))"
proof (cases "ht_Method r = ''POST''")
  case True
  show thesis
  proof (cases "decode (ht_Body r)")
    case (Inl e)
    then show thesis using True assms by (intro refused [of 400]) (auto simp: handleSearch_def status_defs)
  next
    case (Inr req)
    let ?n = "if (if sq_TopK req \<le> 0 then defaultTopK else sq_TopK req) > maxTopK then maxTopK
      else (if sq_TopK req \<le> 0 then defaultTopK else sq_TopK req)"
    show thesis
    proof (cases "sq_Query req = ''''")
      case True
      then show thesis using \<open>ht_Method r = ''POST''\<close> Inr assms by (intro refused [of 400]) (auto simp: handleSearch_def status_defs)
    next
      case False
      have "1 \<le> ?n" "?n \<le> 50" by (auto simp: defaultTopK_def maxTopK_def)
      moreover obtain p1 q1 out where out: "Search getString client emb (sq_Query req) ?n p q = (p1, q1, out)"
        by (metis prod_cases3)
      ultimately show thesis
        using True False Inr assms by (intro searched [of req ?n out]) (auto simp: handleSearch_def Let_def split: sum.splits)
    qed
  qed
next
  case False
  then show thesis using assms by (intro refused [of 405]) (auto simp: handleSearch_def status_defs)
qed

text \<open>C38 The search handler asks Qdrant at most once, and only for between 1 and 50 points of the
  documents collection, whatever limit the request names; it answers 200 with one result
  per point Qdrant returned, 500 when the embedder or Qdrant failed, and 400 or 405
  without embedding or searching.\<close>

theorem search_contract:
  "case handleSearch decode getString (recorded answer) emb r p [] of (p', log, resp) \<Rightarrow>
    (hw_Status resp \<in> {400, 405} \<and> p' = p \<and> log = []) \<or>
    (hw_Status resp = 500 \<and> log = []) \<or>
    (\<exists>req. log = [req] \<and> sp_CollectionName req = QdrantCollection \<and> 1 \<le> uint (sp_Limit req) \<and> uint (sp_Limit req) \<le> 50 \<and>
      (case answer req of
         Inl err \<Rightarrow> hw_Status resp = 500 \<and> hw_Body resp = ErrorBody (''qdrant search: '' @ err)
       | Inr pts \<Rightarrow> hw_Status resp = 200 \<and> hw_Body resp = ResultsBody (map (point_result getString) pts)))"
proof -
  obtain p' log resp where run: "handleSearch decode getString (recorded answer) emb r p [] = (p', log, resp)"
    by (metis prod_cases3)
  from run show ?thesis
  proof (cases rule: handleSearch_cases)
    case (refused status msg)
    then show ?thesis using run by (auto simp: writeError_def)
  next
    case (searched req n out)
    have n: "1 \<le> uint (word_of_int n :: 64 word)" "uint (word_of_int n :: 64 word) \<le> 50"
      using searched(2,3) limit_exact [of n] by auto
    from Search_recorded [OF searched(4)] show ?thesis
      using run searched(5) n by (auto simp: writeError_def writeJSON_def status_defs split: sum.splits)
  qed
qed

section \<open>Serving\<close>

definition answers_for :: "(64 word \<rightharpoonup> 'f PointStruct) \<Rightarrow> (64 word \<rightharpoonup> 'f PointStruct) \<Rightarrow> 'f http_response \<Rightarrow> bool" where
  "answers_for m m' resp \<longleftrightarrow> hw_Status resp \<in> {200, 301, 400, 404, 405, 500} \<and> (\<forall>k. m k \<noteq> None \<longrightarrow> m' k \<noteq> None)"

text \<open>Searching leaves the points of the index as they are.\<close>

definition only_reads :: "('f, 'v, 'q) searcher \<Rightarrow> ('q \<Rightarrow> 64 word \<rightharpoonup> 'f PointStruct) \<Rightarrow> bool" where
  "only_reads searcher look \<longleftrightarrow> (\<forall>req q. look (fst (searcher req q)) = look q)"

lemma write_points_keeps: "m k \<noteq> None \<Longrightarrow> write_points pts m k \<noteq> None"
  using write_points_written [of k pts m] write_points_other [of k pts m] by (cases "k \<in> pt_Id ` set pts") simp_all

lemma handleIngest_safe:
  assumes "point_store client look" and "embeds_by vec emb"
  shows "\<exists>p' q' resp. handleIngest decode client emb r p q = Inr (p', q', resp) \<and> answers_for (look q) (look q') resp \<and>
    (ht_Method r \<noteq> ''POST'' \<longrightarrow> q' = q)"
proof (cases rule: handleIngest_cases [of decode client emb r p q])
  case (refused status msg)
  then show ?thesis by (auto simp: answers_for_def writeError_def)
next
  case (ingested req size)
  obtain chunks where ch: "ChunkText (iq_Text req) size = Inr chunks" by (simp add: ChunkText_eq)
  obtain x where "IngestDocument emb client (iq_DocID req) (iq_Title req) (iq_Text req) size p q = Inr x"
    by (simp only: IngestDocument_def ch go_bind_simps)
  then obtain p' q' ids err where run: "IngestDocument emb client (iq_DocID req) (iq_Title req) (iq_Text req) size p q = Inr (p', q', ids, err)"
    by (metis prod_cases4)
  have grow: "look q k \<noteq> None \<Longrightarrow> look q' k \<noteq> None" for k
    using IngestDocument_points [OF assms run ch] write_points_keeps [of "look q"] by metis
  have post: "ht_Method r = ''POST''"
    by (rule ccontr) (use ingested(3) run in \<open>auto simp: handleIngest_def writeError_def writeJSON_def status_defs split: option.splits\<close>)
  show ?thesis
    using ingested(3) run grow post by (cases err) (auto simp: answers_for_def writeError_def writeJSON_def status_defs)
qed

lemma handleSearch_safe:
  assumes run: "handleSearch decode getString client emb r p q = (p', q', resp)"
    and reads: "only_reads client look"
  shows "look q' = look q \<and> answers_for (look q) (look q') resp"
  using run
proof (cases rule: handleSearch_cases)
  case (refused status msg)
  then show ?thesis by (auto simp: answers_for_def writeError_def)
next
  case (searched req n out)
  then have "look q' = look q"
    using reads by (fastforce simp: Search_def only_reads_def dest: arg_cong [where f = fst] split: prod.splits sum.splits)
  then show ?thesis using searched(5) by (auto simp: answers_for_def writeError_def writeJSON_def status_defs split: sum.splits)
qed

lemma serve_safe:
  assumes "point_store client look" and "embeds_by vec emb"
    and "only_reads searcher look"
  shows "\<exists>srv' resp. serve decodeS decodeI getString searcher client emb path r srv = Inr (srv', resp) \<and>
    answers_for (look (sv_pointsClient srv)) (look (sv_pointsClient srv')) resp \<and>
    (\<not> (mux ''POST'' path = Matched RouteIngest \<and> ht_Method r = ''POST'') \<longrightarrow> look (sv_pointsClient srv') = look (sv_pointsClient srv))"
proof (cases "path = ''*''")
  case True
  then show ?thesis by (auto simp: serve_def empty_response_def status_defs mux_def answers_for_def)
next
  case path: False
  show ?thesis
  proof (cases "mux (ht_Method r) path")
    case (Matched rt)
    show ?thesis
    proof (cases rt)
      case RouteSearch
      obtain p q resp where run: "handleSearch decodeS getString searcher emb r (sv_emb srv) (sv_pointsClient srv) = (p, q, resp)"
        by (metis prod_cases3)
      from handleSearch_safe [OF run assms(3)] show ?thesis using run path Matched RouteSearch by (auto simp: serve_def)
    next
      case RouteIngest
      with handleIngest_safe [OF assms(1,2), of decodeI r "sv_emb srv" "sv_pointsClient srv"] show ?thesis
        using path Matched by (auto simp: serve_def)
    next
      case RouteHealthz
      then show ?thesis using path Matched by (auto simp: serve_def handleHealthz_def answers_for_def status_defs)
    qed
  qed (use path in \<open>auto simp: serve_def Redirect_def StatusMovedPermanently_def NotFound_def StatusNotFound_def
      empty_response_def status_defs answers_for_def\<close>)
qed

text \<open>C39 The query server survives every sequence of requests that reaches it: each request gets one
  response, with one of six statuses, and no panic (a redirect for a path that is not
  clean, such as \<^verbatim>\<open>//search\<close>, and not found for a clean one that matches no pattern); a point
  that is in the index stays in it; and only \<open>POST\<close> requests that are routed to \<open>/ingest\<close>
  change what the index holds.\<close>

theorem server_survives:
  assumes "point_store client look" and "embeds_by vec emb"
    and "only_reads searcher look"
  shows "\<exists>srv' resps. serve_all decodeS decodeI getString searcher client emb reqs srv = Inr (srv', resps) \<and>
    length resps = length reqs \<and> (\<forall>resp \<in> set resps. hw_Status resp \<in> {200, 301, 400, 404, 405, 500}) \<and>
    (\<forall>k. look (sv_pointsClient srv) k \<noteq> None \<longrightarrow> look (sv_pointsClient srv') k \<noteq> None) \<and>
    ((\<forall>(path, r) \<in> set reqs. \<not> (mux ''POST'' path = Matched RouteIngest \<and> ht_Method r = ''POST'')) \<longrightarrow>
       look (sv_pointsClient srv') = look (sv_pointsClient srv))"
proof (induction reqs arbitrary: srv)
  case (Cons x reqs)
  obtain path r where x: "x = (path, r)" by fastforce
  from serve_safe [OF assms, where path = path and r = r and srv = srv] obtain srv1 resp where
    one: "serve decodeS decodeI getString searcher client emb path r srv = Inr (srv1, resp)"
      "answers_for (look (sv_pointsClient srv)) (look (sv_pointsClient srv1)) resp"
      "\<not> (mux ''POST'' path = Matched RouteIngest \<and> ht_Method r = ''POST'') \<longrightarrow> look (sv_pointsClient srv1) = look (sv_pointsClient srv)" by blast
  from Cons.IH [of srv1] obtain srv2 resps where
    rest: "serve_all decodeS decodeI getString searcher client emb reqs srv1 = Inr (srv2, resps)" "length resps = length reqs"
      "\<forall>resp \<in> set resps. hw_Status resp \<in> {200, 301, 400, 404, 405, 500}"
      "\<forall>k. look (sv_pointsClient srv1) k \<noteq> None \<longrightarrow> look (sv_pointsClient srv2) k \<noteq> None"
      "(\<forall>(path, r) \<in> set reqs. \<not> (mux ''POST'' path = Matched RouteIngest \<and> ht_Method r = ''POST'')) \<longrightarrow>
         look (sv_pointsClient srv2) = look (sv_pointsClient srv1)" by blast
  have "serve_all decodeS decodeI getString searcher client emb (x # reqs) srv = Inr (srv2, resp # resps)"
    using one(1) rest(1) by (simp add: x)
  then show ?case
    using one(2,3) rest(2-5) by (intro exI [of _ srv2] exI [of _ "resp # resps"]) (simp add: x answers_for_def)
qed simp

theorem server_survives_witness:
  "\<exists>srv' resps. serve_all (\<lambda>b. Inr \<lparr>sq_Query = b, sq_TopK = 3\<rparr>)
     (\<lambda>b. Inr \<lparr>iq_DocID = ''d'', iq_Title = ''t'', iq_Text = b, iq_ChunkSize = 1\<rparr>) (\<lambda>_. '''') (\<lambda>req q. (q, Inr [])) map_upsert text_embedder
     [(''/ingest'', \<lparr>ht_Method = ''POST'', ht_Body = ''x y''\<rparr>), (''/search'', \<lparr>ht_Method = ''GET'', ht_Body = ''''\<rparr>),
      (''//search'', \<lparr>ht_Method = ''GET'', ht_Body = ''''\<rparr>)] \<lparr>sv_pointsClient = \<lambda>_. None, sv_emb = 0\<rparr> = Inr (srv', resps) \<and>
     length resps = 3"
proof -
  have "only_reads (\<lambda>req q. (q, Inr [])) (\<lambda>q :: 64 word \<rightharpoonup> char PointStruct. q)" by (simp add: only_reads_def)
  from server_survives [OF demo_store demo_embeds this, where decodeS = "\<lambda>b. Inr \<lparr>sq_Query = b, sq_TopK = 3\<rparr>"
      and decodeI = "\<lambda>b. Inr \<lparr>iq_DocID = ''d'', iq_Title = ''t'', iq_Text = b, iq_ChunkSize = 1\<rparr>" and getString = "\<lambda>_. ''''"
      and reqs = "[(''/ingest'', \<lparr>ht_Method = ''POST'', ht_Body = ''x y''\<rparr>), (''/search'', \<lparr>ht_Method = ''GET'', ht_Body = ''''\<rparr>),
        (''//search'', \<lparr>ht_Method = ''GET'', ht_Body = ''''\<rparr>)]" and srv = "\<lparr>sv_pointsClient = \<lambda>_. None, sv_emb = 0\<rparr>"]
  show ?thesis by (elim exE conjE) (intro exI conjI, assumption, simp)
qed

end
