(* ===== verification/Embedder_Concurrency.thy ===== *)
theory Embedder_Concurrency
  imports Embedder
begin

text \<open>
  Concurrent calls of \<open>Embed\<close> on one \<open>Embedder\<close>: the mutex and the process are shared, each
  goroutine is a program counter in the body of \<open>Embed\<close>, and the goroutines take their
  steps in any order. Every path ends in the deferred unlock. The theorem is that the
  calls cannot be told from calls made one after the other.
\<close>

section \<open>Model\<close>

record 'p Embedder =
  em_mu :: "nat option"     \<comment> \<open>the goroutine that holds the lock\<close>
  em_proc :: 'p             \<comment> \<open>\<open>cmd\<close>, \<open>stdin\<close> and \<open>stdout\<close>\<close>

text \<open>Where a goroutine is in \<open>Embed\<close>.\<close>

datatype 'f embed_pc =
    AtLock
  | AtMarshal
  | AtWrite string
  | AtFlush
  | AtScan
  | AtErr
  | AtDecode string
  | AtUnlock "string + 'f Response"
  | Returned "string + 'f Response"

text \<open>The statements between the lock and the unlock, one at a time.\<close>

fun embed_stage ::
  "'f embed_json \<Rightarrow> 'p pipes \<Rightarrow> Request \<Rightarrow> 'f embed_pc \<Rightarrow> 'p \<Rightarrow> 'p \<times> 'f embed_pc" where
  "embed_stage js ps req AtMarshal p =
     (p, case js_MarshalRequest js req of
           Inl err \<Rightarrow> AtUnlock (Inl (''marshal request: '' @ err)) | Inr line \<Rightarrow> AtWrite line)"
| "embed_stage js ps req (AtWrite line) p =
     (case ps_Write ps (line @ [newline]) p of
        (p1, Some err) \<Rightarrow> (p1, AtUnlock (Inl (''write to subprocess: '' @ err)))
      | (p1, None) \<Rightarrow> (p1, AtFlush))"
| "embed_stage js ps req AtFlush p =
     (case ps_Flush ps p of
        (p1, Some err) \<Rightarrow> (p1, AtUnlock (Inl (''flush subprocess stdin: '' @ err)))
      | (p1, None) \<Rightarrow> (p1, AtScan))"
| "embed_stage js ps req AtScan p =
     (case ps_Scan ps p of (p1, None) \<Rightarrow> (p1, AtErr) | (p1, Some bytes) \<Rightarrow> (p1, AtDecode bytes))"
| "embed_stage js ps req AtErr p =
     (p, case ps_Err ps p of
           Some err \<Rightarrow> AtUnlock (Inl (''read from subprocess: '' @ err))
         | None \<Rightarrow> AtUnlock (Inl ''subprocess closed stdout unexpectedly''))"
| "embed_stage js ps req (AtDecode bytes) p =
     (p, case js_UnmarshalResponse js bytes of
           Inl err \<Rightarrow> AtUnlock (Inl (''decode subprocess response: '' @ err))
         | Inr resp \<Rightarrow> AtUnlock (Inr resp))"
| "embed_stage js ps req pc p = (p, pc)"

fun inside :: "'f embed_pc \<Rightarrow> bool" where
  "inside AtLock = False"
| "inside (Returned r) = False"
| "inside _ = True"

text \<open>The calls made so far, and the order in which they got the lock (a history).\<close>

record ('p, 'f) embed_state =
  es_emb :: "'p Embedder"
  es_calls :: "(Request \<times> 'f embed_pc) list"
  es_order :: "nat list"

datatype embed_event = NewCall Request | Advance nat

fun embed_exec ::
  "'f embed_json \<Rightarrow> 'p pipes \<Rightarrow> embed_event \<Rightarrow> ('p, 'f) embed_state \<Rightarrow> ('p, 'f) embed_state option" where
  "embed_exec js ps (NewCall req) s = Some (s\<lparr>es_calls := es_calls s @ [(req, AtLock)]\<rparr>)"
| "embed_exec js ps (Advance g) s =
     (if g < length (es_calls s) then
        (case es_calls s ! g of (req, pc) \<Rightarrow>
          (case pc of
             AtLock \<Rightarrow>
               if em_mu (es_emb s) = None
               then Some (s\<lparr>es_emb := (es_emb s)\<lparr>em_mu := Some g\<rparr>,
                            es_calls := (es_calls s)[g := (req, AtMarshal)], es_order := es_order s @ [g]\<rparr>)
               else None
           | AtUnlock r \<Rightarrow>
               Some (s\<lparr>es_emb := (es_emb s)\<lparr>em_mu := None\<rparr>, es_calls := (es_calls s)[g := (req, Returned r)]\<rparr>)
           | Returned r \<Rightarrow> None
           | _ \<Rightarrow> (case embed_stage js ps req pc (em_proc (es_emb s)) of (p', pc') \<Rightarrow>
               Some (s\<lparr>es_emb := (es_emb s)\<lparr>em_proc := p'\<rparr>, es_calls := (es_calls s)[g := (req, pc')]\<rparr>))))
      else None)"

definition embed_start :: "'p \<Rightarrow> ('p, 'f) embed_state \<Rightarrow> bool" where
  "embed_start p s \<longleftrightarrow> s = \<lparr>es_emb = \<lparr>em_mu = None, em_proc = p\<rparr>, es_calls = [], es_order = []\<rparr>"

definition embed_step ::
  "'f embed_json \<Rightarrow> 'p pipes \<Rightarrow> ('p, 'f) embed_state \<Rightarrow> ('p, 'f) embed_state \<Rightarrow> bool" where
  "embed_step js ps s t \<longleftrightarrow> (\<exists>ev. embed_exec js ps ev s = Some t)"

section \<open>The calls one after the other\<close>

fun embed_all ::
  "'f embed_json \<Rightarrow> 'p pipes \<Rightarrow> Request list \<Rightarrow> 'p \<Rightarrow> 'p \<times> (string + 'f Response) list" where
  "embed_all js ps [] p = (p, [])"
| "embed_all js ps (req # reqs) p =
     (case Embed js ps req p of (p1, r) \<Rightarrow> (case embed_all js ps reqs p1 of (p2, rs) \<Rightarrow> (p2, r # rs)))"

lemma embed_all_append:
  "embed_all js ps (reqs @ reqs') p =
     (let (p1, rs) = embed_all js ps reqs p; (p2, rs') = embed_all js ps reqs' p1 in (p2, rs @ rs'))"
  by (induction reqs arbitrary: p) (auto simp: Let_def split: prod.splits)

lemma embed_all_snoc:
  "embed_all js ps (reqs @ [req]) p =
     (let (p1, rs) = embed_all js ps reqs p; (p2, r) = Embed js ps req p1 in (p2, rs @ [r]))"
  by (simp add: embed_all_append Let_def case_prod_beta)

lemma length_embed_all: "length (snd (embed_all js ps reqs p)) = length reqs"
  by (induction reqs arbitrary: p) (simp_all add: case_prod_beta)

text \<open>What a goroutine inside \<open>Embed\<close> still does when nobody disturbs it.\<close>

primrec stages_left :: "'f embed_pc \<Rightarrow> nat" where
  "stages_left AtLock = 0"
| "stages_left AtMarshal = 5"
| "stages_left (AtWrite line) = 4"
| "stages_left AtFlush = 3"
| "stages_left AtScan = 2"
| "stages_left AtErr = 1"
| "stages_left (AtDecode bytes) = 1"
| "stages_left (AtUnlock r) = 0"
| "stages_left (Returned r) = 0"

lemma embed_stage_less:
  "stages_left pc \<noteq> 0 \<Longrightarrow> stages_left (snd (embed_stage js ps req pc p)) < stages_left pc"
  by (cases pc) (auto split: sum.split prod.split option.split)

lemma embed_stage_inside: "inside pc \<Longrightarrow> inside (snd (embed_stage js ps req pc p))"
  by (cases pc) (auto split: sum.split prod.split option.split)

function embed_rest :: "'f embed_json \<Rightarrow> 'p pipes \<Rightarrow> Request \<Rightarrow> 'f embed_pc \<Rightarrow> 'p \<Rightarrow> 'p \<times> 'f embed_pc" where
  "embed_rest js ps req pc p =
     (if stages_left pc = 0 then (p, pc)
      else embed_rest js ps req (snd (embed_stage js ps req pc p)) (fst (embed_stage js ps req pc p)))"
  by auto
termination
  by (relation "measure (\<lambda>(js, ps, req, pc, p). stages_left pc)") (auto intro: embed_stage_less)

declare embed_rest.simps [simp del]

lemma embed_rest_stage:
  "embed_stage js ps req pc p = (p', pc') \<Longrightarrow> stages_left pc \<noteq> 0 \<Longrightarrow> embed_rest js ps req pc p = embed_rest js ps req pc' p'"
  by (subst embed_rest.simps) simp

lemma embed_rest_done [simp]: "embed_rest js ps req (AtUnlock r) p = (p, AtUnlock r)"
  by (simp add: embed_rest.simps)

text \<open>Undisturbed, the body from the lock to the unlock is the \<open>Embed\<close> of the sequential model.\<close>

lemma embed_rest_Embed:
  "embed_rest js ps req AtMarshal p = (case Embed js ps req p of (p', r) \<Rightarrow> (p', AtUnlock r))"
proof -
  note next_stage = embed_rest_stage [OF prod.collapse [symmetric]]
  have scan: "embed_rest js ps req AtScan p = (case ps_Scan ps p of
      (p3, None) \<Rightarrow> (p3, AtUnlock (Inl (case ps_Err ps p3 of Some err \<Rightarrow> ''read from subprocess: '' @ err
        | None \<Rightarrow> ''subprocess closed stdout unexpectedly'')))
    | (p3, Some bytes) \<Rightarrow> (p3, AtUnlock (case js_UnmarshalResponse js bytes of
        Inl err \<Rightarrow> Inl (''decode subprocess response: '' @ err) | Inr resp \<Rightarrow> Inr resp)))" for p
    by (subst next_stage) (auto simp: next_stage [where pc = AtErr] next_stage [where pc = "AtDecode x" for x]
        split: prod.split option.split sum.split)
  show ?thesis
    by (subst next_stage) (auto simp: next_stage [where pc = "AtWrite x" for x] next_stage [where pc = AtFlush] scan Embed_def
        split: prod.split option.split sum.split)
qed

section \<open>The invariant\<close>

abbreviation seq_proc :: "'f embed_json \<Rightarrow> 'p pipes \<Rightarrow> 'p \<Rightarrow> Request list \<Rightarrow> 'p" where
  "seq_proc js ps p reqs \<equiv> fst (embed_all js ps reqs p)"

abbreviation seq_results :: "'f embed_json \<Rightarrow> 'p pipes \<Rightarrow> 'p \<Rightarrow> Request list \<Rightarrow> (string + 'f Response) list" where
  "seq_results js ps p reqs \<equiv> snd (embed_all js ps reqs p)"

definition requests_of :: "('p, 'f) embed_state \<Rightarrow> nat list \<Rightarrow> Request list" where
  "requests_of s gs = map (\<lambda>g. fst (es_calls s ! g)) gs"

text \<open>The calls in \<open>gs\<close> have returned what they return when they are made in this order.\<close>

definition served_in_order :: "'f embed_json \<Rightarrow> 'p pipes \<Rightarrow> 'p \<Rightarrow> ('p, 'f) embed_state \<Rightarrow> nat list \<Rightarrow> bool" where
  "served_in_order js ps p s gs \<longleftrightarrow>
     map (\<lambda>g. snd (es_calls s ! g)) gs = map Returned (seq_results js ps p (requests_of s gs))"

definition order_ok :: "('p, 'f) embed_state \<Rightarrow> bool" where
  "order_ok s \<longleftrightarrow> distinct (es_order s) \<and>
     (\<forall>g. g \<in> set (es_order s) \<longleftrightarrow> g < length (es_calls s) \<and> snd (es_calls s ! g) \<noteq> AtLock)"

text \<open>The holder of the lock will return what its call returns after the calls before it.\<close>

definition holder_ok :: "'f embed_json \<Rightarrow> 'p pipes \<Rightarrow> 'p \<Rightarrow> ('p, 'f) embed_state \<Rightarrow> nat list \<Rightarrow> nat \<Rightarrow> bool" where
  "holder_ok js ps p s gs g \<longleftrightarrow> inside (snd (es_calls s ! g)) \<and>
     embed_rest js ps (fst (es_calls s ! g)) (snd (es_calls s ! g)) (em_proc (es_emb s)) =
       (case Embed js ps (fst (es_calls s ! g)) (seq_proc js ps p (requests_of s gs)) of (p', r) \<Rightarrow> (p', AtUnlock r))"

definition embed_inv :: "'f embed_json \<Rightarrow> 'p pipes \<Rightarrow> 'p \<Rightarrow> ('p, 'f) embed_state \<Rightarrow> bool" where
  "embed_inv js ps p s \<longleftrightarrow> order_ok s \<and>
     (case em_mu (es_emb s) of
        None \<Rightarrow> served_in_order js ps p s (es_order s) \<and> em_proc (es_emb s) = seq_proc js ps p (requests_of s (es_order s))
      | Some g \<Rightarrow> \<exists>gs. es_order s = gs @ [g] \<and> served_in_order js ps p s gs \<and> holder_ok js ps p s gs g)"

text \<open>How a step changes the calls.\<close>

lemma requests_of_update:
  "g < length (es_calls s) \<Longrightarrow> requests_of (s\<lparr>es_calls := (es_calls s)[g := (fst (es_calls s ! g), pc)]\<rparr>) gs = requests_of s gs"
  by (auto simp: requests_of_def nth_list_update)

lemma served_in_order_other:
  assumes "g \<notin> set gs" and "g < length (es_calls s)" and "es_calls t = (es_calls s)[g := (fst (es_calls s ! g), pc)]"
  shows "served_in_order js ps p t gs \<longleftrightarrow> served_in_order js ps p s gs" and "requests_of t gs' = requests_of s gs'"
proof -
  show reqs: "requests_of t gs' = requests_of s gs'" for gs'
    using assms(2,3) by (auto simp: requests_of_def nth_list_update)
  have "map (\<lambda>h. snd (es_calls t ! h)) gs = map (\<lambda>h. snd (es_calls s ! h)) gs"
    using assms by (auto simp: nth_list_update)
  then show "served_in_order js ps p t gs \<longleftrightarrow> served_in_order js ps p s gs" unfolding served_in_order_def reqs by (simp only:)
qed

lemma served_in_order_new:
  assumes "\<forall>g \<in> set gs. g < length (es_calls s)" and "es_calls t = es_calls s @ [c]"
  shows "served_in_order js ps p t gs \<longleftrightarrow> served_in_order js ps p s gs" and "requests_of t gs = requests_of s gs"
proof -
  have same: "es_calls t ! g = es_calls s ! g" if "g \<in> set gs" for g using assms that by (simp add: nth_append)
  show reqs: "requests_of t gs = requests_of s gs" using same by (simp add: requests_of_def)
  have "map (\<lambda>h. snd (es_calls t ! h)) gs = map (\<lambda>h. snd (es_calls s ! h)) gs" using same by simp
  then show "served_in_order js ps p t gs \<longleftrightarrow> served_in_order js ps p s gs" unfolding served_in_order_def reqs by (simp only:)
qed

lemma served_in_order_snoc:
  "served_in_order js ps p s (gs @ [g]) \<longleftrightarrow> served_in_order js ps p s gs \<and>
     snd (es_calls s ! g) = Returned (snd (Embed js ps (fst (es_calls s ! g)) (seq_proc js ps p (requests_of s gs))))"
  using length_embed_all [of js ps "requests_of s gs" p]
  by (auto simp: served_in_order_def requests_of_def embed_all_snoc Let_def case_prod_beta)


lemma embed_inv_new_call:
  assumes inv: "embed_inv js ps p s" and t: "t = s\<lparr>es_calls := es_calls s @ [(req, AtLock)]\<rparr>"
  shows "embed_inv js ps p t"
proof -
  have order: "order_ok s" using inv by (simp add: embed_inv_def)
  then have in_range: "g < length (es_calls s)" if "g \<in> set (es_order s)" for g using that by (simp add: order_ok_def)
  have keep: "served_in_order js ps p t gs \<longleftrightarrow> served_in_order js ps p s gs" "requests_of t gs = requests_of s gs"
    if "set gs \<subseteq> set (es_order s)" for gs
    using that in_range by (intro served_in_order_new [where c = "(req, AtLock)"]; auto simp: t)+
  have ok: "order_ok t" using order by (auto simp: order_ok_def t nth_append less_Suc_eq)
  show ?thesis
  proof (cases "em_mu (es_emb s)")
    case None
    then show ?thesis using inv ok keep [of "es_order s"] by (simp add: embed_inv_def t)
  next
    case (Some g)
    then obtain gs where gs: "es_order s = gs @ [g]" "served_in_order js ps p s gs" "holder_ok js ps p s gs g"
      using inv by (auto simp: embed_inv_def)
    have "es_calls t ! g = es_calls s ! g" using in_range [of g] gs(1) by (simp add: t nth_append)
    moreover have "requests_of t gs = requests_of s gs" "served_in_order js ps p t gs" using keep [of gs] gs by auto
    moreover have "es_emb t = es_emb s" "es_order t = es_order s" by (simp_all add: t)
    ultimately show ?thesis using gs ok Some by (simp add: embed_inv_def holder_ok_def)
  qed
qed

lemma embed_inv_lock:
  assumes inv: "embed_inv js ps p s" and g: "g < length (es_calls s)" "es_calls s ! g = (req, AtLock)"
    and free: "em_mu (es_emb s) = None"
    and t: "t = s\<lparr>es_emb := (es_emb s)\<lparr>em_mu := Some g\<rparr>, es_calls := (es_calls s)[g := (req, AtMarshal)], es_order := es_order s @ [g]\<rparr>"
  shows "embed_inv js ps p t"
proof -
  have order: "order_ok s" using inv by (simp add: embed_inv_def)
  then have new: "g \<notin> set (es_order s)" using g by (simp add: order_ok_def)
  have keep: "served_in_order js ps p t (es_order s) \<longleftrightarrow> served_in_order js ps p s (es_order s)"
      "requests_of t (es_order s) = requests_of s (es_order s)"
    by (rule served_in_order_other [OF new g(1), where pc = AtMarshal], simp add: t g(2))+
  have "order_ok t" using order new g by (auto simp: order_ok_def t nth_list_update)
  moreover have "holder_ok js ps p t (es_order s) g"
    using inv free g(1) by (simp add: holder_ok_def keep embed_inv_def) (simp add: t embed_rest_Embed)
  ultimately show ?thesis using inv free keep(1) by (simp add: embed_inv_def) (simp add: t)
qed

text \<open>Mutual exclusion: who is inside \<open>Embed\<close> holds the lock.\<close>

lemma inside_holds_lock:
  assumes inv: "embed_inv js ps p s" and g: "g < length (es_calls s)" "inside (snd (es_calls s ! g))"
  shows "em_mu (es_emb s) = Some g"
proof -
  have not_served: "g \<notin> set gs" if "served_in_order js ps p s gs" for gs
  proof
    assume "g \<in> set gs"
    then have "snd (es_calls s ! g) \<in> set (map (\<lambda>h. snd (es_calls s ! h)) gs)" by simp
    then have "snd (es_calls s ! g) \<in> range Returned" unfolding that [unfolded served_in_order_def] by auto
    then show False using g(2) by auto
  qed
  have "snd (es_calls s ! g) \<noteq> AtLock" using g(2) by auto
  then have "g \<in> set (es_order s)" using inv g(1) by (simp add: embed_inv_def order_ok_def)
  then show ?thesis using inv not_served by (cases "em_mu (es_emb s)") (auto simp: embed_inv_def)
qed

lemma embed_inv_unlock:
  assumes inv: "embed_inv js ps p s" and g: "g < length (es_calls s)" "es_calls s ! g = (req, AtUnlock r)"
    and t: "t = s\<lparr>es_emb := (es_emb s)\<lparr>em_mu := None\<rparr>, es_calls := (es_calls s)[g := (req, Returned r)]\<rparr>"
  shows "embed_inv js ps p t"
proof -
  have "em_mu (es_emb s) = Some g" using inside_holds_lock [OF inv g(1)] g(2) by simp
  then obtain gs where gs: "es_order s = gs @ [g]" "served_in_order js ps p s gs" "holder_ok js ps p s gs g"
    and order: "order_ok s" using inv by (auto simp: embed_inv_def)
  have notin: "g \<notin> set gs" using order gs(1) by (simp add: order_ok_def)
  have keep: "served_in_order js ps p t gs \<longleftrightarrow> served_in_order js ps p s gs" "\<And>gs'. requests_of t gs' = requests_of s gs'"
    by (rule served_in_order_other [OF notin g(1), where pc = "Returned r"], simp add: t g(2))+
  have r: "r = snd (Embed js ps req (seq_proc js ps p (requests_of s gs)))"
      "em_proc (es_emb s) = fst (Embed js ps req (seq_proc js ps p (requests_of s gs)))"
    using gs(3) g(2) by (simp_all add: holder_ok_def case_prod_beta)
  have "served_in_order js ps p t (gs @ [g])"
    unfolding served_in_order_snoc keep using gs(2) g(1) r(1) by (simp add: t)
  moreover have "seq_proc js ps p (requests_of t (gs @ [g])) = em_proc (es_emb s)"
    unfolding keep using r(2) g(2) by (simp add: requests_of_def embed_all_snoc Let_def case_prod_beta)
  moreover have "order_ok t" using order g by (auto simp: order_ok_def t nth_list_update)
  ultimately show ?thesis using gs(1) by (simp add: embed_inv_def) (simp add: t)
qed

lemma embed_inv_stage:
  assumes inv: "embed_inv js ps p s" and g: "g < length (es_calls s)" "es_calls s ! g = (req, pc)"
    and ins: "inside pc" "stages_left pc \<noteq> 0" and st: "embed_stage js ps req pc (em_proc (es_emb s)) = (p', pc')"
    and t: "t = s\<lparr>es_emb := (es_emb s)\<lparr>em_proc := p'\<rparr>, es_calls := (es_calls s)[g := (req, pc')]\<rparr>"
  shows "embed_inv js ps p t"
proof -
  have holder: "em_mu (es_emb s) = Some g" using inside_holds_lock [OF inv g(1)] g(2) ins(1) by simp
  then obtain gs where gs: "es_order s = gs @ [g]" "served_in_order js ps p s gs" "holder_ok js ps p s gs g"
    and order: "order_ok s" using inv by (auto simp: embed_inv_def)
  have notin: "g \<notin> set gs" using order gs(1) by (simp add: order_ok_def)
  have keep: "served_in_order js ps p t gs \<longleftrightarrow> served_in_order js ps p s gs" "requests_of t gs = requests_of s gs"
    by (rule served_in_order_other [OF notin g(1), where pc = pc'], simp add: t g(2))+
  have ins': "inside pc'" using embed_stage_inside [OF ins(1), of js ps req "em_proc (es_emb s)"] st by simp
  then have "pc' \<noteq> AtLock" "pc \<noteq> AtLock" using ins(1) by auto
  then have "order_ok t" using order g by (auto simp: order_ok_def t nth_list_update)
  moreover have "holder_ok js ps p t gs g"
    using gs(3) ins' g embed_rest_stage [OF st ins(2)] by (simp add: holder_ok_def keep) (simp add: t)
  ultimately show ?thesis using gs keep(1) holder by (simp add: embed_inv_def) (simp add: t)
qed

lemma embed_exec_stage:
  assumes "g < length (es_calls s)" and "es_calls s ! g = (req, pc)" and "inside pc" and "stages_left pc \<noteq> 0"
    and "embed_stage js ps req pc (em_proc (es_emb s)) = (p', pc')"
  shows "embed_exec js ps (Advance g) s =
    Some (s\<lparr>es_emb := (es_emb s)\<lparr>em_proc := p'\<rparr>, es_calls := (es_calls s)[g := (req, pc')]\<rparr>)"
  using assms by (cases pc) auto

lemma embed_inv_step:
  assumes inv: "embed_inv js ps p s" and step: "embed_step js ps s t"
  shows "embed_inv js ps p t"
proof -
  obtain ev where exec: "embed_exec js ps ev s = Some t" using step by (auto simp: embed_step_def)
  show ?thesis
  proof (cases ev)
    case (NewCall req)
    then show ?thesis using exec by (intro embed_inv_new_call [OF inv, of t req]) simp
  next
    case (Advance g)
    obtain req pc where call: "es_calls s ! g = (req, pc)" by fastforce
    from exec Advance have g: "g < length (es_calls s)" by (auto split: if_splits)
    note run = exec [unfolded Advance embed_exec.simps call, simplified g if_True prod.case]
    consider (lock) "pc = AtLock" | (unlock) r where "pc = AtUnlock r" | (stage) "inside pc" "stages_left pc \<noteq> 0"
      using run by (cases pc) auto
    then show ?thesis
    proof cases
      case lock
      then show ?thesis using run by (intro embed_inv_lock [OF inv g, of req]) (auto simp: call split: if_splits)
    next
      case unlock
      then show ?thesis using run by (intro embed_inv_unlock [OF inv g, of req r]) (auto simp: call)
    next
      case stage
      obtain p' pc' where st: "embed_stage js ps req pc (em_proc (es_emb s)) = (p', pc')" by fastforce
      show ?thesis
        using exec embed_exec_stage [OF g call stage st] Advance by (intro embed_inv_stage [OF inv g call stage st]) simp
    qed
  qed
qed

interpretation embeds: invariant_of "embed_start p" "embed_step js ps" "\<lambda>_. True" "embed_inv js ps p"
  for js :: "'f embed_json" and ps :: "'p pipes" and p
proof
  fix s :: "('p, 'f) embed_state"
  assume "embed_start p s"
  then show "embed_inv js ps p s"
    by (simp add: embed_start_def embed_inv_def order_ok_def served_in_order_def requests_of_def)
qed (auto intro: embed_inv_step)

section \<open>The property\<close>

abbreviation embed_reach :: "'f embed_json \<Rightarrow> 'p pipes \<Rightarrow> 'p \<Rightarrow> ('p, 'f) embed_state \<Rightarrow> bool" where
  "embed_reach js ps p \<equiv> reach (embed_start p) (embed_step js ps)"

lemma served_nth:
  assumes "served_in_order js ps p s gs" and "k < length gs"
  shows "snd (es_calls s ! (gs ! k)) = Returned (seq_results js ps p (requests_of s gs) ! k)"
proof -
  have "length (seq_results js ps p (requests_of s gs)) = length gs" by (simp add: length_embed_all requests_of_def)
  then show ?thesis using assms arg_cong [where f = "\<lambda>xs. xs ! k", OF assms(1) [unfolded served_in_order_def]] by simp
qed

lemma requests_of_append: "requests_of s (gs @ hs) = requests_of s gs @ requests_of s hs"
  by (simp add: requests_of_def)

text \<open>Somebody can always go on until every call has returned.\<close>

lemma embed_progress:
  assumes inv: "embed_inv js ps p s" and g: "g < length (es_calls s)" "\<nexists>r. snd (es_calls s ! g) = Returned r"
  shows "\<exists>h. embed_exec js ps (Advance h) s \<noteq> None"
proof (cases "em_mu (es_emb s)")
  case None
  have "\<not> inside (snd (es_calls s ! g))" using inside_holds_lock [OF inv g(1)] None by auto
  then obtain req where "es_calls s ! g = (req, AtLock)"
    using g(2) by (cases "es_calls s ! g"; cases "snd (es_calls s ! g)") auto
  then show ?thesis using g(1) None by (intro exI [of _ g]) simp
next
  case (Some h)
  then obtain gs where gs: "es_order s = gs @ [h]" "holder_ok js ps p s gs h" and order: "order_ok s"
    using inv by (auto simp: embed_inv_def)
  obtain req pc where call: "es_calls s ! h = (req, pc)" by fastforce
  have h: "h < length (es_calls s)" "inside pc" using gs order call by (auto simp: order_ok_def holder_ok_def)
  obtain p' pc' where st: "embed_stage js ps req pc (em_proc (es_emb s)) = (p', pc')" by fastforce
  show ?thesis
  proof (cases "stages_left pc = 0")
    case True
    then obtain r where "pc = AtUnlock r" using h(2) by (cases pc) auto
    then show ?thesis using h(1) call by (intro exI [of _ h]) simp
  next
    case False
    then show ?thesis using embed_exec_stage [OF h(1) call h(2) _ st] by blast
  qed
qed

lemma returned_in_order:
  assumes inv: "embed_inv js ps p s" and g: "g < length (es_calls s)" "snd (es_calls s ! g) = Returned r"
  shows "\<exists>k < length (es_order s). es_order s ! k = g \<and> r = snd (embed_all js ps (requests_of s (es_order s)) p) ! k"
proof -
  have order: "order_ok s" using inv by (simp add: embed_inv_def)
  have mem: "g \<in> set (es_order s)" using g order by (simp add: order_ok_def)
  obtain gs hs where gs: "es_order s = gs @ hs" "served_in_order js ps p s gs" "g \<in> set gs"
  proof (cases "em_mu (es_emb s)")
    case None
    then show thesis using that [of "es_order s" "[]"] inv mem by (simp add: embed_inv_def)
  next
    case (Some h)
    then obtain gs where "es_order s = gs @ [h]" "served_in_order js ps p s gs" "inside (snd (es_calls s ! h))"
      using inv by (auto simp: embed_inv_def holder_ok_def)
    then show thesis using that [of gs "[h]"] mem g(2) by auto
  qed
  then obtain k where k: "k < length gs" "gs ! k = g" by (auto simp: in_set_conv_nth)
  have "r = seq_results js ps p (requests_of s gs) ! k" using served_nth [OF gs(2) k(1)] g(2) k(2) by simp
  moreover have "k < length (seq_results js ps p (requests_of s gs))"
    using k(1) by (simp add: length_embed_all requests_of_def)
  ultimately have "r = seq_results js ps p (requests_of s (es_order s)) ! k"
    unfolding gs(1) requests_of_append embed_all_append by (simp add: nth_append case_prod_beta)
  then show ?thesis using k gs(1) by (intro exI [of _ k]) (simp add: nth_append)
qed

text \<open>C40 Concurrent calls of \<open>Embed\<close> cannot be told from calls made one after the other: in whatever order
  goroutines call it and take their steps, at most one of them is between lock and unlock;
  every call that has returned has returned what it returns when the calls are made one by
  one in the order in which they got the lock; when nobody holds the lock the subprocess is
  where these calls leave it; and some goroutine can take a step until all have returned.\<close>

theorem embed_linearizable:
  assumes "embed_reach js ps p s"
  shows "distinct (es_order s) \<and>
    (\<forall>g h. g < length (es_calls s) \<and> h < length (es_calls s) \<and> inside (snd (es_calls s ! g)) \<and> inside (snd (es_calls s ! h)) \<longrightarrow> g = h) \<and>
    (\<forall>g r. g < length (es_calls s) \<and> snd (es_calls s ! g) = Returned r \<longrightarrow> (\<exists>k < length (es_order s). es_order s ! k = g \<and>
       r = snd (embed_all js ps (requests_of s (es_order s)) p) ! k)) \<and>
    (em_mu (es_emb s) = None \<longrightarrow> em_proc (es_emb s) = fst (embed_all js ps (requests_of s (es_order s)) p)) \<and>
    ((\<exists>g < length (es_calls s). \<nexists>r. snd (es_calls s ! g) = Returned r) \<longrightarrow> (\<exists>h. embed_exec js ps (Advance h) s \<noteq> None))"
proof -
  have inv: "embed_inv js ps p s" by (rule embeds.reach_inv [OF assms])
  then have order: "order_ok s" by (simp add: embed_inv_def)
  have "g = h" if "g < length (es_calls s)" "h < length (es_calls s)" "inside (snd (es_calls s ! g))" "inside (snd (es_calls s ! h))" for g h
    using inside_holds_lock [OF inv that(1,3)] inside_holds_lock [OF inv that(2,4)] by simp
  moreover have "em_mu (es_emb s) = None \<Longrightarrow> em_proc (es_emb s) = seq_proc js ps p (requests_of s (es_order s))"
    using inv by (simp add: embed_inv_def)
  moreover have "distinct (es_order s)" using order by (simp add: order_ok_def)
  ultimately show ?thesis using embed_progress [OF inv] returned_in_order [OF inv] by blast
qed

text \<open>Two calls of which the second gets the lock first, on a process that counts the lines it was sent.\<close>

definition demo_json :: "string embed_json" where
  "demo_json = \<lparr>js_MarshalRequest = (\<lambda>req. Inr (rq_Text req)), js_UnmarshalRequest = (\<lambda>x. Inr \<lparr>rq_ChunkID = x, rq_Text = x\<rparr>),
     js_MarshalResponse = (\<lambda>resp. Inr (rs_ChunkID resp)), js_UnmarshalResponse = (\<lambda>x. Inr \<lparr>rs_ChunkID = x, rs_Vector = [x]\<rparr>)\<rparr>"

definition demo_pipes :: "string list pipes" where
  "demo_pipes = \<lparr>ps_Write = (\<lambda>x p. (p @ [butlast x], None)), ps_Flush = (\<lambda>p. (p, None)),
     ps_Scan = (\<lambda>p. (p, if p = [] then None else Some (last p))), ps_Err = (\<lambda>p. None)\<rparr>"

fun run_embed :: "embed_event list \<Rightarrow> (string list, string) embed_state \<Rightarrow> (string list, string) embed_state option" where
  "run_embed [] s = Some s"
| "run_embed (e # es) s = (case embed_exec demo_json demo_pipes e s of None \<Rightarrow> None | Some t \<Rightarrow> run_embed es t)"

lemma run_embed_reach:
  "embed_reach demo_json demo_pipes p s \<Longrightarrow> run_embed es s = Some t \<Longrightarrow> embed_reach demo_json demo_pipes p t"
proof (induction es arbitrary: s)
  case (Cons e es)
  then obtain u where u: "embed_exec demo_json demo_pipes e s = Some u" "run_embed es u = Some t" by (auto split: option.splits)
  then have "embed_step demo_json demo_pipes s u" by (auto simp: embed_step_def)
  then show ?case using Cons.IH [OF reach.reach_step [OF Cons.prems(1)] u(2)] by simp
qed simp

theorem embed_linearizable_witness:
  "\<exists>s. embed_reach demo_json demo_pipes [] s \<and> es_order s = [1, 0] \<and>
     snd (es_calls s ! 0) = Returned (Inr \<lparr>rs_ChunkID = ''a'', rs_Vector = [''a'']\<rparr>) \<and>
     em_proc (es_emb s) = fst (embed_all demo_json demo_pipes [\<lparr>rq_ChunkID = ''2'', rq_Text = ''b''\<rparr>, \<lparr>rq_ChunkID = ''1'', rq_Text = ''a''\<rparr>] [])"
proof -
  let ?s0 = "\<lparr>es_emb = \<lparr>em_mu = None, em_proc = []\<rparr>, es_calls = [], es_order = []\<rparr> :: (string list, string) embed_state"
  let ?es = "[NewCall \<lparr>rq_ChunkID = ''1'', rq_Text = ''a''\<rparr>, NewCall \<lparr>rq_ChunkID = ''2'', rq_Text = ''b''\<rparr>] @
    replicate 7 (Advance 1) @ replicate 7 (Advance 0)"
  have "embed_reach demo_json demo_pipes [] ?s0" by (rule reach.reach_start) (simp add: embed_start_def)
  moreover obtain s where run: "run_embed ?es ?s0 = Some s" "es_order s = [1, 0]" "em_mu (es_emb s) = None"
      "es_calls s = [(\<lparr>rq_ChunkID = ''1'', rq_Text = ''a''\<rparr>, Returned (Inr \<lparr>rs_ChunkID = ''a'', rs_Vector = [''a'']\<rparr>)),
        (\<lparr>rq_ChunkID = ''2'', rq_Text = ''b''\<rparr>, Returned (Inr \<lparr>rs_ChunkID = ''b'', rs_Vector = [''b'']\<rparr>))]"
    by (simp add: numeral_eq_Suc demo_json_def demo_pipes_def newline_def)
  ultimately have reach: "embed_reach demo_json demo_pipes [] s" by (blast intro: run_embed_reach)
  show ?thesis
    using embed_linearizable [OF reach] run reach by (intro exI [of _ s]) (simp add: requests_of_def)
qed

end
