(* ===== verification/Mock_Embedder.thy ===== *)
theory Mock_Embedder
  imports Indexer
begin

text \<open>
  The deterministic embedding subprocess of \<^verbatim>\<open>src/tools/mock_embedder/main.go\<close>, and the
  exchange between it and \<open>Embed\<close>. The FNV-32a hash is on 32-bit words. Floating-point
  arithmetic is a parameter: \<open>'d\<close> is the type of a \<open>float64\<close> and \<open>'f\<close> of a \<open>float32\<close>.
\<close>

unbundle bit_operations_syntax

section \<open>Model\<close>

text \<open>The program declares its own copies of the two message types.\<close>

type_synonym request = Request
type_synonym 'f response = "'f Response"

definition vectorDim :: nat where "vectorDim = 384"

record ('d, 'f) floats =
  fl_int :: "int \<Rightarrow> 'd"
  fl_zero :: 'd
  fl_add :: "'d \<Rightarrow> 'd \<Rightarrow> 'd"
  fl_mul :: "'d \<Rightarrow> 'd \<Rightarrow> 'd"
  fl_positive :: "'d \<Rightarrow> bool"
  fl_inv_sqrt :: "'d \<Rightarrow> 'd"
  fl_round :: "'d \<Rightarrow> 'f"
  fl_mul32 :: "'f \<Rightarrow> 'f \<Rightarrow> 'f"

definition fnv32a :: "string \<Rightarrow> 32 word" where
  "fnv32a s = foldl (\<lambda>h c. (h XOR of_nat (of_char c)) * 16777619) 2166136261 s"

text \<open>One dimension: the hash of the text and the number of the dimension, read as a signed number.\<close>

definition raw_hash :: "string \<Rightarrow> nat \<Rightarrow> int" where
  "raw_hash txt i = sint (fnv32a (txt @ '':'' @ Itoa (int i)))"

fun project_loop :: "('d, 'f) floats \<Rightarrow> string \<Rightarrow> nat list \<Rightarrow> 'f list \<Rightarrow> 'd \<Rightarrow> 'f list \<times> 'd" where
  "project_loop fl txt [] vec norm = (vec, norm)"
| "project_loop fl txt (i # rest) vec norm =
     (let raw = fl_int fl (raw_hash txt i)
      in project_loop fl txt rest (vec @ [fl_round fl raw]) (fl_add fl norm (fl_mul fl raw raw)))"

definition hashProject :: "('d, 'f) floats \<Rightarrow> string \<Rightarrow> 'f list" where
  "hashProject fl txt =
     (case project_loop fl txt [0..<vectorDim] [] (fl_zero fl) of
        (vec, norm) \<Rightarrow>
          if fl_positive fl norm
          then (let scale = fl_round fl (fl_inv_sqrt fl norm) in map (\<lambda>x. fl_mul32 fl x scale) vec)
          else vec)"

text \<open>
  The main loop on the lines of its standard input: the lines it writes. An empty line
  and a line that does not parse are skipped; a line that does not fit into the
  scanner's buffer of 64 KiB ends the loop. The optional delay is a sleep, without effect.
\<close>

fun mock_main :: "'f embed_json \<Rightarrow> ('d, 'f) floats \<Rightarrow> string list \<Rightarrow> string list" where
  "mock_main js fl [] = []"
| "mock_main js fl (line # rest) =
     (if length line \<ge> 65536 then []
      else if length line = 0 then mock_main js fl rest
      else (case js_UnmarshalRequest js line of
          Inl err \<Rightarrow> mock_main js fl rest
        | Inr req \<Rightarrow>
            (let resp = \<lparr>rs_ChunkID = rq_ChunkID req, rs_Vector = hashProject fl (rq_Text req)\<rparr>
             in (case js_MarshalResponse js resp of Inl _ \<Rightarrow> [] | Inr out \<Rightarrow> out) # mock_main js fl rest)))"

section \<open>The exchange\<close>

lemma length_project_loop: "length (fst (project_loop fl txt ds vec norm)) = length vec + length ds"
  by (induction ds arbitrary: vec norm) (auto simp: Let_def)

text \<open>Vectors have the dimension the collection is created with.\<close>

lemma length_hashProject: "int (length (hashProject fl txt)) = VectorDim"
  using length_project_loop [of fl "txt" "[0..<vectorDim]" "[]" "fl_zero fl"]
  by (cases "project_loop fl txt [0..<vectorDim] [] (fl_zero fl)")
    (simp add: hashProject_def vectorDim_def VectorDim_def Let_def)

text \<open>
  The subprocess behind its pipes: what the writer has buffered and the output lines that
  have not been read. Flushing hands the buffered lines to the program.
\<close>

record mock_process =
  mp_buffer :: string
  mp_output :: "string list"

definition mock_pipes :: "'f embed_json \<Rightarrow> ('d, 'f) floats \<Rightarrow> mock_process pipes" where
  "mock_pipes js fl = \<lparr>
     ps_Write = (\<lambda>s p. (p\<lparr>mp_buffer := mp_buffer p @ s\<rparr>, None)),
     ps_Flush = (\<lambda>p. (p\<lparr>mp_buffer := [], mp_output := mp_output p @ mock_main js fl (butlast (Split (mp_buffer p) newline))\<rparr>, None)),
     ps_Scan = (\<lambda>p. case mp_output p of [] \<Rightarrow> (p, None) | l # ls \<Rightarrow> (p\<lparr>mp_output := ls\<rparr>, Some l)),
     ps_Err = (\<lambda>p. None)\<rparr>"

text \<open>What the exchange needs of the JSON encoders: each undoes the other, and a request is one line that fits.\<close>

definition json_lines :: "'f embed_json \<Rightarrow> Request \<Rightarrow> bool" where
  "json_lines js req \<longleftrightarrow> (\<exists>line. js_MarshalRequest js req = Inr line \<and> js_UnmarshalRequest js line = Inr req \<and>
     line \<noteq> [] \<and> length line < 65536 \<and> newline \<notin> set line) \<and>
     (\<forall>resp. \<exists>out. js_MarshalResponse js resp = Inr out \<and> js_UnmarshalResponse js out = Inr resp)"

lemma split_loop_line: "sep \<notin> set line \<Longrightarrow> split_loop sep cur (line @ [sep]) = [cur @ line, []]"
  by (induction line arbitrary: cur) auto

text \<open>Every request gets its own answer, and the pipes are drained for the next one.\<close>

lemma mock_answers:
  assumes "json_lines js req" and "mp_buffer p = []" and "mp_output p = []"
  shows "Embed js (mock_pipes js fl) req p =
    (p, Inr \<lparr>rs_ChunkID = rq_ChunkID req, rs_Vector = hashProject fl (rq_Text req)\<rparr>)"
proof -
  let ?resp = "\<lparr>rs_ChunkID = rq_ChunkID req, rs_Vector = hashProject fl (rq_Text req)\<rparr>"
  from assms(1) obtain line where line: "js_MarshalRequest js req = Inr line" "js_UnmarshalRequest js line = Inr req"
      "line \<noteq> []" "length line < 65536" "newline \<notin> set line"
    and resp: "\<exists>out. js_MarshalResponse js ?resp = Inr out \<and> js_UnmarshalResponse js out = Inr ?resp"
    by (auto simp: json_lines_def)
  then obtain out where out: "js_MarshalResponse js ?resp = Inr out" "js_UnmarshalResponse js out = Inr ?resp" by blast
  have "Split (line @ [newline]) newline = [line, []]"
    using split_loop_line [OF line(5), of "[]"] by (simp add: Split_def)
  moreover have "mock_main js fl [line] = [out]" using line out(1) by (simp add: Let_def)
  ultimately show ?thesis
    using line out assms(2,3) by (simp add: Embed_def mock_pipes_def)
qed

end
