(* ===== verification/Raft_Commands.thy ===== *)
theory Raft_Commands
  imports Raft_Apply Raft_Trace
begin

text \<open>
  Where the commands of a cluster come from: nothing but \<open>noop\<close> and what a client gave to
  \<open>Start\<close> is ever in a log, in a request or on a commit channel; and a commit channel only
  grows.
\<close>

definition log_from :: "string set \<Rightarrow> Raft \<Rightarrow> bool" where
  "log_from C rf \<longleftrightarrow> (\<forall>e \<in> set (log_list (rf_log rf)). le_Command e \<in> C)"

definition commands_from :: "ClusterConfig \<Rightarrow> string set \<Rightarrow> Cluster \<Rightarrow> bool" where
  "commands_from cfg C s \<longleftrightarrow> (\<forall>i \<in> node_ids cfg. log_from C (cl_nodes s i)) \<and>
     (\<forall>i p args. MAppend i p args \<in> sent s \<longrightarrow> (\<forall>e \<in> set (ae_Entries args). pe_Command e \<in> C))"

lemma commands_from_mono: "commands_from cfg C s \<Longrightarrow> C \<subseteq> D \<Longrightarrow> commands_from cfg D s"
  unfolding commands_from_def log_from_def by blast

lemma log_from_same: "log_from C rf \<Longrightarrow> rf_log rf' = rf_log rf \<Longrightarrow> log_from C rf'"
  by (simp add: log_from_def)

lemma log_from_snoc:
  "log_from C rf \<Longrightarrow> log_list (rf_log rf') = log_list (rf_log rf) @ [e] \<Longrightarrow> le_Command e \<in> C \<Longrightarrow> log_from C rf'"
  by (auto simp: log_from_def)

lemma log_from_AppendEntries:
  assumes "node_ok cfg p rf" and "ae_wf args" and "AppendEntries r args rf = Inr (rf', reply)"
    and "log_from C rf" and "\<forall>e \<in> set (ae_Entries args). pe_Command e \<in> C"
  shows "log_from C rf'"
  using assms(1-3)
proof (cases rule: AppendEntries_cases)
  case reject
  then show ?thesis using assms(4) by (auto simp: same_data_def intro: log_from_same)
next
  case accept
  have "set (log_list (rf_log rf')) \<subseteq> set (log_list (rf_log rf)) \<union> from_pb ` set (ae_Entries args)"
    unfolding accept(7) using set_merge_spec by fastforce
  then show ?thesis using assms(4,5) by (fastforce simp: log_from_def)
qed

lemma log_from_voteReply:
  assumes "node_ok cfg c rf" and "voteReply r t reply n rf = Inr (rf', n', won)" and "log_from C rf" and "''noop'' \<in> C"
  shows "log_from C rf'"
  using assms(1,2)
proof (cases rule: voteReply_cases)
  case win
  show ?thesis by (rule log_from_snoc [OF assms(3)]) (use win assms(4) in \<open>auto simp: entry_of_def\<close>)
next
  case down
  then show ?thesis using assms(3) by (auto intro: log_from_same)
next
  case count
  then show ?thesis using assms(3) by simp
qed

lemma log_from_recv:
  assumes "wf_cfg cfg" and "node_ok cfg i rf" and "p \<in> node_ids cfg"
    and "sendAppendEntries_recv r p args reply rf = Inr (rf', again)" and "log_from C rf"
  shows "log_from C rf'"
  using assms(1-4)
proof (cases rule: recv_cases)
  case down
  then show ?thesis using assms(5) by (auto intro: log_from_same)
qed (use assms(5) in \<open>auto simp: quiet_def intro: log_from_same\<close>)

lemma log_from_Start:
  assumes "log_wf (rf_log rf)" and "Start c rf = Inr (rf', res, ps)" and "log_from C rf" and "c \<in> C"
  shows "log_from C rf'"
  using Start_effect [OF assms(1), of c] assms(2-4) by (cases "rf_state rf = Leader") (auto simp: log_from_def)

text \<open>A step that replaces node \<open>i\<close> and posts requests with known commands only.\<close>

lemma commands_from_update:
  assumes "commands_from cfg C s" and "cl_nodes t = (cl_nodes s)(i := rf')" and "log_from C rf'"
    and "cl_net t = cl_net s @ ms" and "\<And>j p args e. MAppend j p args \<in> set ms \<Longrightarrow> e \<in> set (ae_Entries args) \<Longrightarrow> pe_Command e \<in> C"
  shows "commands_from cfg C t"
  using assms by (fastforce simp: commands_from_def)

lemma commands_from_exec:
  assumes inv: "type_inv cfg s" and from_C: "commands_from cfg C s" and noop: "''noop'' \<in> C"
    and new: "\<And>i c. ev = EvClient i c \<Longrightarrow> c \<in> C" and exec: "cluster_exec cfg ev s = Some t"
  shows "commands_from cfg C t"
proof -
  note ok = type_inv_nodeD [OF inv] and msg = type_inv_msgD [OF inv]
  have wf: "wf_cfg cfg" using inv by (simp add: type_inv_def)
  have logs: "log_from C (cl_nodes s i)" if "i \<in> node_ids cfg" for i
    using from_C that by (simp add: commands_from_def)
  show ?thesis
  proof (cases ev)
    case (EvTimeout i r)
    with exec obtain rf' out where st: "i \<in> node_ids cfg" "startElection r (fire_timer (cl_nodes s i)) = Inr (rf', out)"
        "cl_nodes t = (cl_nodes s)(i := rf')" "\<exists>ms. cl_net t = cl_net s @ ms \<and> (\<forall>m \<in> set ms. \<exists>c a. m = MRequestVote c a)"
      by (auto split: if_splits sum.splits prod.splits option.splits)
    have "log_from C rf'"
      using node_ok_startElection [OF ok [OF st(1)] st(1,2)] logs [OF st(1)] by (auto simp: same_data_def intro: log_from_same)
    then show ?thesis using st(3,4) by (elim exE conjE) (rule commands_from_update [OF from_C], auto)
  next
    case (EvRecvVote k v r1 r2)
    with exec obtain c args rf' reply where st: "v \<in> node_ids cfg" "RequestVote r1 r2 args (cl_nodes s v) = Inr (rf', reply)"
        "t = post (MVoteReply c (rv_Term args) v reply) (note_vote (rvr_VoteGranted reply) (rv_Term args) v (set_node v rf' s))"
      by (auto split: if_splits sum.splits prod.splits option.splits msg.splits)
    have "log_wf (rf_log (cl_nodes s v))" using ok [OF st(1)] by (simp add: node_ok_def)
    from RequestVote_effect [OF st(2) this] have "log_from C rf'"
      using logs [OF st(1)] by (auto simp: same_data_def intro: log_from_same)
    then show ?thesis by (intro commands_from_update [OF from_C, of _ v rf']) (auto simp: st(3))
  next
    case (EvVoteReply k r)
    with exec obtain c tm v reply rf' n won where st: "(c, tm, v) \<in> set (cl_waiting s)"
        "voteReply r tm reply (cl_votes s c tm) (cl_nodes s c) = Inr (rf', n, won)"
        "t = end_wait c tm v n (note_leader won c (set_node c rf' s))"
      by (auto split: if_splits sum.splits prod.splits option.splits msg.splits)
    have c: "c \<in> node_ids cfg" using type_inv_waitD [OF inv st(1)] by simp
    from log_from_voteReply [OF ok [OF c] st(2) logs [OF c] noop] show ?thesis
      by (intro commands_from_update [OF from_C, of _ c rf' "[]"]) (auto simp: st(3))
  next
    case (EvVoteLost c tm v)
    with exec from_C show ?thesis by (auto simp: commands_from_def split: if_splits)
  next
    case (EvSend i p)
    with exec obtain args where st: "i \<in> node_ids cfg" "p \<in> node_ids cfg" "sendAppendEntries_send p (cl_nodes s i) = Inr (Some args)"
        "t = post (MAppend i p args) s"
      by (auto split: if_splits sum.splits option.splits)
    have "from_pb ` set (ae_Entries args) \<subseteq> set (node_log s i)"
      using append_send_ok [OF wf ok [OF st(1)] st(2,3)] by (metis list.set_map set_drop_subset)
    then have "pe_Command e \<in> C" if "e \<in> set (ae_Entries args)" for e
      using logs [OF st(1)] that by (fastforce simp: log_from_def from_pb_def)
    then show ?thesis
      using logs [OF st(1)] by (intro commands_from_update [OF from_C, of _ i "cl_nodes s i" "[MAppend i p args]"]) (auto simp: st(4))
  next
    case (EvRecvAppend k r)
    with exec obtain i p args rf' reply where st: "MAppend i p args \<in> sent s" "AppendEntries r args (cl_nodes s p) = Inr (rf', reply)"
        "t = post (MAppendReply i p args reply) (set_node p rf' s)"
      by (auto split: sum.splits prod.splits option.splits msg.splits dest: net_get_sent)
    have m: "p \<in> node_ids cfg" "ae_wf args" using msg [OF st(1)] by (simp_all add: msg_ok_def)
    have "\<forall>e \<in> set (ae_Entries args). pe_Command e \<in> C" using from_C st(1) by (auto simp: commands_from_def)
    from log_from_AppendEntries [OF ok [OF m(1)] m(2) st(2) logs [OF m(1)] this] show ?thesis
      by (intro commands_from_update [OF from_C, of _ p rf']) (auto simp: st(3))
  next
    case (EvAppendReply k r)
    with exec obtain i p args reply rf' again where st: "MAppendReply i p args reply \<in> sent s"
        "sendAppendEntries_recv r p args reply (cl_nodes s i) = Inr (rf', again)" "t = set_node i rf' s"
      by (auto split: sum.splits prod.splits option.splits msg.splits dest: net_get_sent)
    have "MAppend i p args \<in> sent s" using msg [OF st(1)] by (simp add: msg_ok_def)
    then have m: "i \<in> node_ids cfg" "p \<in> node_ids cfg" using msg by (fastforce simp: msg_ok_def)+
    from log_from_recv [OF wf ok [OF m(1)] m(2) st(2) logs [OF m(1)]] show ?thesis
      by (intro commands_from_update [OF from_C, of _ i rf' "[]"]) (auto simp: st(3))
  next
    case (EvClient i c)
    with exec obtain rf' res ps isLeader where st: "i \<in> node_ids cfg" "Start c (cl_nodes s i) = Inr (rf', res, ps)"
        "t = note_leader isLeader i (set_node i rf' s)"
      by (auto split: if_splits sum.splits prod.splits)
    have "log_wf (rf_log (cl_nodes s i))" using ok [OF st(1)] by (simp add: node_ok_def)
    from log_from_Start [OF this st(2) logs [OF st(1)] new [OF EvClient]] show ?thesis
      by (intro commands_from_update [OF from_C, of _ i rf' "[]"]) (auto simp: st(3))
  next
    case (EvApply i)
    with exec have st: "i \<in> node_ids cfg" "t = set_node i (applyLoop (cl_nodes s i)) s" by (auto split: if_splits)
    from log_from_same [OF logs [OF st(1)], of "applyLoop (cl_nodes s i)"] show ?thesis
      by (intro commands_from_update [OF from_C, of _ i "applyLoop (cl_nodes s i)" "[]"]) (auto simp: st(2))
  next
    case (EvKill i)
    with exec have st: "i \<in> node_ids cfg" "t = set_node i (Kill (cl_nodes s i)) s" by (auto split: if_splits)
    from log_from_same [OF logs [OF st(1)], of "Kill (cl_nodes s i)"] show ?thesis
      by (intro commands_from_update [OF from_C, of _ i "Kill (cl_nodes s i)" "[]"]) (auto simp: st(2))
  qed
qed

lemma commands_from_start: "cluster_start cfg s \<Longrightarrow> commands_from cfg C s"
  by (auto simp: cluster_start_def init_cluster_def commands_from_def log_from_def)

lemma commands_from_channel:
  assumes "cluster_reach cfg s" and "commands_from cfg C s" and "i \<in> node_ids cfg" and "m \<in> set (rf_commitCh (cl_nodes s i))"
  shows "am_Command m \<in> C"
proof -
  have "\<exists>e \<in> set (node_log s i). m = apply_msg e"
    using reach_node(4) [OF assms(1,3)] assms(4) by (auto simp: apply_ok_def dest!: in_set_takeD)
  then show ?thesis using assms(2,3) by (auto simp: commands_from_def log_from_def apply_msg_def)
qed

text \<open>What a node has delivered stays delivered.\<close>

lemma applyLoop_channel: "\<exists>ms. rf_commitCh (applyLoop rf) = rf_commitCh rf @ ms"
  by (auto simp: applyLoop_def apply_park_def Let_def split: ApplyPc.splits prod.splits if_splits)

lemma step_channel:
  assumes "cluster_step cfg s t"
  shows "\<exists>ms. rf_commitCh (cl_nodes t i) = rf_commitCh (cl_nodes s i) @ ms"
  using step_apply [OF assms, of i] applyLoop_channel by (auto simp: apply_frame_def)

end
