(* ===== verification/System.thy ===== *)
theory System
  imports Raft_Commands Raft_Theorems Broker_Proofs
begin

text \<open>
  The broker service as a whole: one broker server on every Raft node, the commit channel
  between them, and the handler goroutines that wait for their commands. A step is one
  critical section: a step of the Raft cluster, the leader note that \<open>AppendEntries\<close>
  leaves, one of the three sections of \<open>proposeAndWait\<close>, one message of the apply loop, or
  one section of another handler. Nothing is assumed about the order of steps, so every
  schedule of the goroutines of every node is included, and more.
\<close>

section \<open>The sections of \<open>proposeAndWait\<close>\<close>

text \<open>What \<open>select\<close> and the code behind it do with the object at address \<open>a\<close>.\<close>

definition await_result :: "nat \<Rightarrow> int \<Rightarrow> int \<Rightarrow> bool \<Rightarrow> brokerServer \<Rightarrow> brokerServer \<times> bool" where
  "await_result a index term timedOut s =
     (if po_closed (bs_ops s ! a) \<and> \<not> timedOut then (s, po_term (bs_ops s ! a) = term)
      else (forget_op index s, False))"

lemma proposeAndWait_sections:
  "proposeAndWait before during timedOut cmd s =
     go_bind (Start cmd (bs_rf s)) (\<lambda>(rf', (index, term, isLeader), peers).
       if \<not> isLeader then Inr (s\<lparr>bs_rf := rf'\<rparr>, False)
       else let s1 = before (s\<lparr>bs_rf := rf'\<rparr>)
            in Inr (await_result (length (bs_ops s1)) index term timedOut (during (register_op index term s1))))"
  by (auto simp: proposeAndWait_def await_result_def Let_def intro!: arg_cong [where f = "go_bind _"] split: prod.splits)

section \<open>State\<close>

text \<open>
  A handler in \<open>proposeAndWait\<close>: its node and command, what \<open>Start\<close> returned, and the
  address of its \<open>pendingOp\<close> once it has registered.
\<close>

record proposal =
  pp_node :: int
  pp_cmd :: command
  pp_index :: int
  pp_term :: int
  pp_op :: "nat option"

text \<open>
  \<open>sy_taken i\<close> counts the messages that the apply loop of node \<open>i\<close> has taken from its
  commit channel. \<open>sy_seen\<close> holds the goroutines that
  are in \<open>refreshLeaderState\<close> between its two sections, each with its node and what
  \<open>GetState\<close> told it; \<open>sy_entered\<close> the nodes of those for which it returned true and that
  have yet to lock the server again. The last four fields are histories, read by no step: the commands that
  a leader accepted, the proposals that were answered with success, the tasks that \<open>Poll\<close>
  served, and the results that \<open>GetResult\<close> reported.
\<close>

record System =
  sy_cluster :: Cluster
  sy_servers :: "int \<Rightarrow> brokerServer"
  sy_taken :: "int \<Rightarrow> nat"
  sy_waiting :: "proposal list"
  sy_seen :: "(int \<times> bool) list"
  sy_entered :: "int list"
  sy_started :: "command list"
  sy_acked :: "proposal list"
  sy_served :: "Task list"
  sy_results :: "(string \<times> string) list"

text \<open>A server shares its Raft node with the cluster.\<close>

definition server_at :: "System \<Rightarrow> int \<Rightarrow> brokerServer" where
  "server_at s i = (sy_servers s i)\<lparr>bs_rf := cl_nodes (sy_cluster s) i\<rparr>"

definition put_server :: "int \<Rightarrow> brokerServer \<Rightarrow> System \<Rightarrow> System" where
  "put_server i b s = s\<lparr>sy_servers := (sy_servers s)(i := b)\<rparr>"

abbreviation channel :: "System \<Rightarrow> int \<Rightarrow> ApplyMsg list" where
  "channel s i \<equiv> rf_commitCh (cl_nodes (sy_cluster s) i)"

abbreviation applied :: "System \<Rightarrow> int \<Rightarrow> ApplyMsg list" where
  "applied s i \<equiv> take (sy_taken s i) (channel s i)"

abbreviation board_at :: "System \<Rightarrow> int \<Rightarrow> TaskBoard" where
  "board_at s i \<equiv> board_of (server_at s i)"

definition boot_server :: "int \<Rightarrow> int \<Rightarrow> ClusterConfig \<Rightarrow> brokerServer" where
  "boot_server r i cfg = the (newBrokerServer r (\<lambda>_. True) i cfg)"

definition init_system :: "(int \<Rightarrow> int) \<Rightarrow> ClusterConfig \<Rightarrow> System" where
  "init_system rs cfg =
     \<lparr>sy_cluster = init_cluster rs cfg, sy_servers = (\<lambda>i. boot_server (rs i) i cfg), sy_taken = (\<lambda>_. 0),
      sy_waiting = [], sy_seen = [], sy_entered = [], sy_started = [], sy_acked = [], sy_served = [], sy_results = []\<rparr>"

definition system_start :: "ClusterConfig \<Rightarrow> System \<Rightarrow> bool" where
  "system_start cfg s \<longleftrightarrow> wf_cfg cfg \<and> (\<exists>rs. s = init_system rs cfg)"

section \<open>Steps\<close>

datatype sys_event =
    SysRaft event
  | SysLeader nat
  | SysStart int command
  | SysRegister nat
  | SysAnswer nat bool
  | SysApply int
  | SysGetState int
  | SysRefresh int bool
  | SysPoll int int PollRequest
  | SysBeat int int HeartbeatRequest
  | SysScan int "string \<Rightarrow> int"
  | SysResult int GetResultRequest

fun is_client_event :: "event \<Rightarrow> bool" where
  "is_client_event (EvClient i c) = True"
| "is_client_event _ = False"

definition drop_nth :: "nat \<Rightarrow> 'a list \<Rightarrow> 'a list" where
  "drop_nth n xs = take n xs @ drop (Suc n) xs"

fun system_exec :: "ClusterConfig \<Rightarrow> sys_event \<Rightarrow> System \<Rightarrow> System option" where
  "system_exec cfg (SysRaft e) s =
     (if is_client_event e then None
      else map_option (\<lambda>c. s\<lparr>sy_cluster := c\<rparr>) (cluster_exec cfg e (sy_cluster s)))"
| "system_exec cfg (SysLeader k) s =
     (case net_get (sy_cluster s) k of
        Some (MAppendReply l p args reply) \<Rightarrow>
          if aer_Term reply = ae_Term args
          then Some (put_server p ((sy_servers s p)\<lparr>bs_leaderID := ae_LeaderId args\<rparr>) s) else None
      | _ \<Rightarrow> None)"
| "system_exec cfg (SysStart i c) s =
     (if i \<in> node_ids cfg then
        (case Start (encode_command c) (cl_nodes (sy_cluster s) i) of
           Inl e \<Rightarrow> None
         | Inr (rf', (index, term, isLeader), peers) \<Rightarrow>
             let s1 = s\<lparr>sy_cluster := note_leader isLeader i (set_node i rf' (sy_cluster s))\<rparr>
             in Some (if isLeader
                  then s1\<lparr>sy_waiting := sy_waiting s @
                            [\<lparr>pp_node = i, pp_cmd = c, pp_index = index, pp_term = term, pp_op = None\<rparr>],
                          sy_started := sy_started s @ [c]\<rparr>
                  else s1))
      else None)"
| "system_exec cfg (SysRegister n) s =
     (if n < length (sy_waiting s) \<and> pp_op (sy_waiting s ! n) = None then
        let p = sy_waiting s ! n; b = sy_servers s (pp_node p)
        in Some ((put_server (pp_node p) (register_op (pp_index p) (pp_term p) b) s)
             \<lparr>sy_waiting := (sy_waiting s)[n := p\<lparr>pp_op := Some (length (bs_ops b))\<rparr>]\<rparr>)
      else None)"
| "system_exec cfg (SysAnswer n timedOut) s =
     (if n < length (sy_waiting s) then
        let p = sy_waiting s ! n; b = sy_servers s (pp_node p)
        in case pp_op p of
             None \<Rightarrow> None
           | Some a \<Rightarrow>
               if \<not> po_closed (bs_ops b ! a) \<and> \<not> timedOut then None
               else (case await_result a (pp_index p) (pp_term p) timedOut b of
                 (b', ok) \<Rightarrow> Some ((put_server (pp_node p) b' s)
                   \<lparr>sy_waiting := drop_nth n (sy_waiting s), sy_acked := sy_acked s @ (if ok then [p] else [])\<rparr>))
      else None)"
| "system_exec cfg (SysApply i) s =
     (if i \<in> node_ids cfg \<and> sy_taken s i < length (channel s i) then
        Some ((put_server i (apply_message (channel s i ! sy_taken s i) (sy_servers s i)) s)
          \<lparr>sy_taken := (sy_taken s)(i := sy_taken s i + 1)\<rparr>)
      else None)"
| "system_exec cfg (SysGetState i) s =
     (if i \<in> node_ids cfg
      then Some (s\<lparr>sy_seen := sy_seen s @ [(i, snd (GetState (cl_nodes (sy_cluster s) i)))]\<rparr>) else None)"
| "system_exec cfg (SysRefresh i isLeader) s =
     (if i \<in> node_ids cfg \<and> (i, isLeader) \<in> set (sy_seen s)
      then Some ((put_server i (note_leadership isLeader (server_at s i)) s)
        \<lparr>sy_seen := remove1 (i, isLeader) (sy_seen s), sy_entered := sy_entered s @ (if isLeader then [i] else [])\<rparr>)
      else None)"
| "system_exec cfg (SysPoll i now req) s =
     (if i \<in> node_ids cfg \<and> i \<in> set (sy_entered s) then
        (case Poll_locked now req (server_at s i) of
           (b', resp) \<Rightarrow> Some ((put_server i b' s)\<lparr>sy_entered := remove1 i (sy_entered s), sy_served := sy_served s @ (case pr_Task resp of Some t \<Rightarrow> [t] | None \<Rightarrow> [])\<rparr>))
      else None)"
| "system_exec cfg (SysBeat i now req) s =
     (if i \<in> node_ids cfg \<and> i \<in> set (sy_entered s)
      then Some ((put_server i (Heartbeat_locked now req (server_at s i)) s)\<lparr>sy_entered := remove1 i (sy_entered s)\<rparr>)
      else None)"
| "system_exec cfg (SysScan i now) s =
     (if i \<in> node_ids cfg \<and> i \<in> set (sy_entered s)
      then Some ((put_server i (drop_stalled now (server_at s i)) s)\<lparr>sy_entered := remove1 i (sy_entered s)\<rparr>)
      else None)"
| "system_exec cfg (SysResult i req) s =
     (if i \<in> node_ids cfg then
        let resp = GetResult req (server_at s i)
        in Some (s\<lparr>sy_results := sy_results s @ (if gr_Done resp then [(gq_TaskId req, gr_Error resp)] else [])\<rparr>)
      else None)"

fun run_system :: "ClusterConfig \<Rightarrow> sys_event list \<Rightarrow> System \<Rightarrow> System option" where
  "run_system cfg [] s = Some s"
| "run_system cfg (e # es) s =
     (case system_exec cfg e s of None \<Rightarrow> None | Some t \<Rightarrow> run_system cfg es t)"

definition system_step :: "ClusterConfig \<Rightarrow> System \<Rightarrow> System \<Rightarrow> bool" where
  "system_step cfg s t \<longleftrightarrow> (\<exists>ev. system_exec cfg ev s = Some t)"

abbreviation system_reach :: "ClusterConfig \<Rightarrow> System \<Rightarrow> bool" where
  "system_reach cfg \<equiv> reach (system_start cfg) (system_step cfg)"

lemma system_exec_step: "system_exec cfg ev s = Some t \<Longrightarrow> system_step cfg s t"
  by (auto simp: system_step_def)

lemma run_system_reach: "system_reach cfg s \<Longrightarrow> run_system cfg es s = Some t \<Longrightarrow> system_reach cfg t"
  by (induction es arbitrary: s)
    (auto split: option.splits dest: system_exec_step intro: reach.reach_step)

lemma put_server_simps [simp]:
  "sy_cluster (put_server i b s) = sy_cluster s" "sy_servers (put_server i b s) = (sy_servers s)(i := b)"
  "sy_taken (put_server i b s) = sy_taken s" "sy_waiting (put_server i b s) = sy_waiting s"
  "sy_seen (put_server i b s) = sy_seen s" "sy_entered (put_server i b s) = sy_entered s"
  "sy_started (put_server i b s) = sy_started s" "sy_acked (put_server i b s) = sy_acked s"
  "sy_served (put_server i b s) = sy_served s" "sy_results (put_server i b s) = sy_results s"
  by (simp_all add: put_server_def)

lemma set_drop_nth: "x \<in> set (drop_nth n xs) \<Longrightarrow> x \<in> set xs"
  by (auto simp: drop_nth_def dest: in_set_takeD in_set_dropD)

end
