(* ===== verification/System_Proofs.thy ===== *)
theory System_Proofs
  imports System
begin

text \<open>
  The invariants of the broker service: every server shows the board of the messages it
  has applied; every waiting handler's command is in the log of the term that accepted
  it; every acknowledged command has been applied where it was acknowledged; nothing is
  served or reported that was not asked for.
\<close>

section \<open>What a step does to a server and to the cluster\<close>

lemma sys_cluster_move:
  assumes "system_exec cfg ev s = Some t"
  shows "sy_cluster t = sy_cluster s \<or> cluster_step cfg (sy_cluster s) (sy_cluster t)"
proof (cases ev)
  case (SysRaft e)
  then show ?thesis using assms by (auto split: if_splits dest: cluster_exec_sound)
next
  case (SysStart i c)
  then have "cluster_exec cfg (EvClient i (encode_command c)) (sy_cluster s) = Some (sy_cluster t)"
    using assms by (auto simp: Let_def split: if_splits sum.splits prod.splits)
  then show ?thesis using cluster_exec_sound by blast
qed (use assms in \<open>auto simp: Let_def split: if_splits option.splits prod.splits msg.splits\<close>)

lemma sys_channel_grows:
  "system_exec cfg ev s = Some t \<Longrightarrow> \<exists>ms. channel t i = channel s i @ ms"
  using sys_cluster_move [of cfg ev s t] step_channel by fastforce

text \<open>Each step runs a few events at one server, and counts the messages among them.\<close>

lemma sys_server_move:
  assumes exec: "system_exec cfg ev s = Some t" and le: "\<forall>i. sy_taken s i \<le> length (channel s i)"
  shows "\<exists>es. sy_servers t i = broker_run es (sy_servers s i) \<and> applied t i = applied s i @ applied_by es \<and>
    sy_taken t i \<le> length (channel t i)"
proof -
  have taken: "applied t i = applied s i \<and> sy_taken t i \<le> length (channel t i)"
    if "sy_taken t i = sy_taken s i"
  proof -
    obtain ms where "channel t i = channel s i @ ms" using sys_channel_grows [OF exec] by blast
    moreover have "sy_taken s i \<le> length (channel s i)" using le by simp
    ultimately show ?thesis using that by (simp add: take_append_le)
  qed
  have none: ?thesis if "sy_servers t i = sy_servers s i" "sy_taken t i = sy_taken s i"
    using taken [OF that(2)] that(1) by (intro exI [of _ "[]"]) simp
  have one: ?thesis if "sy_servers t i = broker_run es (sy_servers s i)" "applied_by es = []" "sy_taken t i = sy_taken s i" for es
    using taken [OF that(3)] that(1,2) by (intro exI [of _ es]) simp
  have rf: "server_at s j = broker_exec (BRaft (cl_nodes (sy_cluster s) j)) (sy_servers s j)" for j
    by (simp add: server_at_def)
  show ?thesis
  proof (cases ev)
    case (SysLeader k)
    with exec obtain p l where t: "t = put_server p ((sy_servers s p)\<lparr>bs_leaderID := l\<rparr>) s"
      by (auto split: option.splits msg.splits if_splits)
    show ?thesis by (rule one [of "if i = p then [BLeader l] else []"]) (auto simp: t)
  next
    case (SysRegister n)
    define p where "p = sy_waiting s ! n"
    from SysRegister exec have t: "t = (put_server (pp_node p) (register_op (pp_index p) (pp_term p) (sy_servers s (pp_node p))) s)\<lparr>sy_waiting :=
        (sy_waiting s)[n := p\<lparr>pp_op := Some (length (bs_ops (sy_servers s (pp_node p))))\<rparr>]\<rparr>"
      by (auto simp: Let_def p_def split: if_splits)
    show ?thesis by (rule one [of "if i = pp_node p then [BRegister (pp_index p) (pp_term p)] else []"]) (auto simp: t)
  next
    case (SysAnswer n out)
    define p where "p = sy_waiting s ! n"
    from SysAnswer exec obtain a b' ok where r: "await_result a (pp_index p) (pp_term p) out (sy_servers s (pp_node p)) = (b', ok)"
        and t: "t = (put_server (pp_node p) b' s)\<lparr>sy_waiting := drop_nth n (sy_waiting s), sy_acked := sy_acked s @ (if ok then [p] else [])\<rparr>"
      by (auto simp: Let_def p_def split: if_splits option.splits prod.splits)
    have "b' = sy_servers s (pp_node p) \<or> b' = broker_exec (BForget (pp_index p)) (sy_servers s (pp_node p))"
      using r by (auto simp: await_result_def split: if_splits)
    then consider "b' = broker_run [] (sy_servers s (pp_node p))"
      | "b' = broker_run [BForget (pp_index p)] (sy_servers s (pp_node p))" by auto
    then show ?thesis
    proof cases
      case 1
      then show ?thesis by (intro none) (auto simp: t)
    next
      case 2
      then show ?thesis
        by (intro one [of "if i = pp_node p then [BForget (pp_index p)] else []"]) (auto simp: t)
    qed
  next
    case (SysApply j)
    with exec have t: "t = (put_server j (apply_message (channel s j ! sy_taken s j) (sy_servers s j)) s)\<lparr>sy_taken := (sy_taken s)(j := sy_taken s j + 1)\<rparr>"
        and lt: "sy_taken s j < length (channel s j)" by (auto split: if_splits)
    show ?thesis
    proof (cases "i = j")
      case True
      then show ?thesis using lt
        by (intro exI [of _ "[BApply (channel s j ! sy_taken s j)]"]) (simp add: t take_Suc_conv_app_nth)
    next
      case False
      then show ?thesis by (intro none) (auto simp: t)
    qed
  next
    case (SysGetState j)
    with exec show ?thesis by (intro none) (auto split: if_splits)
  next
    case (SysRefresh j b)
    with exec obtain l l' where t: "t = (put_server j (broker_run [BRaft (cl_nodes (sy_cluster s) j), BRefresh b] (sy_servers s j)) s)
        \<lparr>sy_seen := l, sy_entered := l'\<rparr>"
      by (auto simp: rf split: if_splits)
    show ?thesis by (rule one [of "if i = j then [BRaft (cl_nodes (sy_cluster s) j), BRefresh b] else []"]) (auto simp: t)
  next
    case (SysPoll j now req)
    with exec obtain l h where t: "t = (put_server j (broker_run [BRaft (cl_nodes (sy_cluster s) j), BPoll now req] (sy_servers s j)) s)
        \<lparr>sy_entered := l, sy_served := h\<rparr>"
      by (auto simp: rf split: if_splits prod.splits)
    show ?thesis by (rule one [of "if i = j then [BRaft (cl_nodes (sy_cluster s) j), BPoll now req] else []"]) (auto simp: t)
  next
    case (SysBeat j now req)
    with exec obtain l where t: "t = (put_server j (broker_run [BRaft (cl_nodes (sy_cluster s) j), BBeat now req] (sy_servers s j)) s)\<lparr>sy_entered := l\<rparr>"
      by (auto simp: rf split: if_splits)
    show ?thesis by (rule one [of "if i = j then [BRaft (cl_nodes (sy_cluster s) j), BBeat now req] else []"]) (auto simp: t)
  next
    case (SysScan j now)
    with exec obtain l where t: "t = (put_server j (broker_run [BRaft (cl_nodes (sy_cluster s) j), BStalled now] (sy_servers s j)) s)\<lparr>sy_entered := l\<rparr>"
      by (auto simp: rf split: if_splits)
    show ?thesis by (rule one [of "if i = j then [BRaft (cl_nodes (sy_cluster s) j), BStalled now] else []"]) (auto simp: t)
  next
    case (SysRaft e)
    with exec show ?thesis by (intro none) (auto split: if_splits)
  next
    case (SysStart j c)
    with exec show ?thesis by (intro none) (auto simp: Let_def split: if_splits sum.splits prod.splits)
  next
    case (SysResult j req)
    with exec show ?thesis by (intro none) (auto simp: Let_def split: if_splits)
  qed
qed


section \<open>The cluster below\<close>

definition known_commands :: "System \<Rightarrow> string set" where
  "known_commands s = insert ''noop'' (encode_command ` set (sy_started s))"

definition raft_inv :: "ClusterConfig \<Rightarrow> System \<Rightarrow> bool" where
  "raft_inv cfg s \<longleftrightarrow> cluster_reach cfg (sy_cluster s) \<and> commands_from cfg (known_commands s) (sy_cluster s)"

lemma sys_started_grows: "system_exec cfg ev s = Some t \<Longrightarrow> set (sy_started s) \<subseteq> set (sy_started t)"
  by (cases ev) (auto simp: Let_def split: if_splits sum.splits prod.splits option.splits msg.splits)

lemma known_commands_mono: "set (sy_started s) \<subseteq> set (sy_started t) \<Longrightarrow> known_commands s \<subseteq> known_commands t"
  by (auto simp: known_commands_def)

lemma Start_follower: "Start c rf = Inr (rf', (idx, tm, False), ps) \<Longrightarrow> log_wf (rf_log rf) \<Longrightarrow> rf' = rf"
  using Start_effect [of rf c] by auto

lemma sys_commands_from:
  assumes exec: "system_exec cfg ev s = Some t" and inv: "raft_inv cfg s"
  shows "commands_from cfg (known_commands t) (sy_cluster t)"
proof -
  have reach: "cluster_reach cfg (sy_cluster s)" and "commands_from cfg (known_commands s) (sy_cluster s)"
    using inv by (simp_all add: raft_inv_def)
  then have old: "commands_from cfg (known_commands t) (sy_cluster s)"
    using commands_from_mono known_commands_mono [OF sys_started_grows [OF exec]] by metis
  note step = commands_from_exec [OF reach_invs(1) [OF reach] old]
  show ?thesis
  proof (cases ev)
    case (SysRaft e)
    then have "cluster_exec cfg e (sy_cluster s) = Some (sy_cluster t)" "\<not> is_client_event e"
      using exec by (auto split: if_splits)
    then show ?thesis by (intro step [of e]) (auto simp: known_commands_def)
  next
    case (SysStart i c)
    then have run: "cluster_exec cfg (EvClient i (encode_command c)) (sy_cluster s) = Some (sy_cluster t)"
      and i: "i \<in> node_ids cfg"
      using exec by (auto simp: Let_def split: if_splits sum.splits prod.splits)
    from SysStart exec obtain rf' idx tm ld ps where
      st: "Start (encode_command c) (cl_nodes (sy_cluster s) i) = Inr (rf', (idx, tm, ld), ps)"
      "sy_started t = sy_started s @ (if ld then [c] else [])"
      "sy_cluster t = note_leader ld i (set_node i rf' (sy_cluster s))"
      by (auto simp: Let_def split: if_splits sum.splits prod.splits)
    show ?thesis
    proof (cases ld)
      case True
      then have "encode_command c \<in> known_commands t" using st(2) by (simp add: known_commands_def)
      then show ?thesis by (intro step [OF _ _ run]) (auto simp: known_commands_def)
    next
      case False
      with st(1) have "rf' = cl_nodes (sy_cluster s) i" by (intro Start_follower [OF _ reach_node(2) [OF reach i]]) simp
      then show ?thesis using old st(3) False by simp
    qed
  qed (use exec old in \<open>auto simp: Let_def split: if_splits option.splits prod.splits msg.splits\<close>)
qed

lemma raft_inv_step: "system_step cfg s t \<Longrightarrow> raft_inv cfg s \<Longrightarrow> raft_inv cfg t"
proof -
  assume "system_step cfg s t" and inv: "raft_inv cfg s"
  then obtain ev where ev: "system_exec cfg ev s = Some t" by (auto simp: system_step_def)
  from sys_cluster_move [OF ev] inv have "cluster_reach cfg (sy_cluster t)"
    by (auto simp: raft_inv_def intro: reach.reach_step)
  then show ?thesis using sys_commands_from [OF ev inv] by (simp add: raft_inv_def)
qed

lemma raft_inv_start: "system_start cfg s \<Longrightarrow> raft_inv cfg s"
proof -
  assume "system_start cfg s"
  then have "cluster_start cfg (sy_cluster s)" by (auto simp: system_start_def cluster_start_def init_system_def)
  then show ?thesis by (auto simp: raft_inv_def intro: reach.reach_start commands_from_start)
qed

interpretation sys_raft: invariant_of "system_start cfg" "system_step cfg" "\<lambda>_. True" "raft_inv cfg" for cfg
  by unfold_locales (auto intro: raft_inv_start raft_inv_step)

section \<open>The servers\<close>

text \<open>
  A well-formed server that shows exactly the messages it has applied. The Raft node in
  the record plays no part, so the shared one may be put there.
\<close>

definition server_ok :: "brokerServer \<Rightarrow> ApplyMsg list \<Rightarrow> bool" where
  "server_ok b ms \<longleftrightarrow> broker_ok b \<and> board_of b = board_run ms"

definition servers_inv :: "System \<Rightarrow> bool" where
  "servers_inv s \<longleftrightarrow> (\<forall>i. sy_taken s i \<le> length (channel s i) \<and> server_ok (sy_servers s i) (applied s i))"

lemma server_ok_run:
  assumes "server_ok b ms"
  shows "server_ok (broker_run es b) (ms @ applied_by es)"
  using assms broker_ok_run [of b es] board_of_run [of b es]
  by (simp add: server_ok_def broker_ok_def board_run_append)

lemma servers_inv_step: "system_step cfg s t \<Longrightarrow> servers_inv s \<Longrightarrow> servers_inv t"
proof -
  assume "system_step cfg s t" and inv: "servers_inv s"
  then obtain ev where ev: "system_exec cfg ev s = Some t" by (auto simp: system_step_def)
  show ?thesis
    unfolding servers_inv_def
  proof
    fix i
    have "\<forall>i. sy_taken s i \<le> length (channel s i)" and ok: "server_ok (sy_servers s i) (applied s i)"
      using inv by (simp_all add: servers_inv_def)
    from sys_server_move [OF ev this(1), of i] obtain es where
      "sy_servers t i = broker_run es (sy_servers s i)" "applied t i = applied s i @ applied_by es"
      "sy_taken t i \<le> length (channel t i)" by blast
    then show "sy_taken t i \<le> length (channel t i) \<and> server_ok (sy_servers t i) (applied t i)"
      using server_ok_run [OF ok] by simp
  qed
qed

lemma boot_server_new: "newBrokerServer r (\<lambda>_. True) i cfg = Some (boot_server r i cfg)"
  by (simp add: boot_server_def newBrokerServer_def New_def dial_peers_True)

lemma servers_inv_start: "system_start cfg s \<Longrightarrow> servers_inv s"
  using broker_ok_new [OF boot_server_new] board_of_new [OF boot_server_new]
  by (auto simp: system_start_def init_system_def servers_inv_def server_ok_def board_run_def)

interpretation sys_servers: invariant_of "system_start cfg" "system_step cfg" "\<lambda>_. True" servers_inv for cfg
  by unfold_locales (auto intro: servers_inv_start servers_inv_step)

lemma server_at_ok [simp]:
  "board_at s i = board_of (sy_servers s i)" "broker_ok (server_at s i) = broker_ok (sy_servers s i)"
  "pending (server_at s i) = pending (sy_servers s i)"
  "GetResult req (server_at s i) = GetResult req (sy_servers s i)"
  by (simp_all add: server_at_def board_of_def broker_ok_def board_ok_def flights_ok_def ops_ok_def is_done_def
      pending_def GetResult_def fun_eq_iff)


section \<open>The handlers that wait\<close>

text \<open>The entry that \<open>Start\<close> wrote for a proposal is in the log of its term.\<close>

definition accepted :: "System \<Rightarrow> proposal \<Rightarrow> bool" where
  "accepted s p \<longleftrightarrow> 1 \<le> pp_index p \<and> nat (pp_index p) \<le> length (h_tlog (sy_cluster s) (pp_term p)) \<and>
     le_Command (h_tlog (sy_cluster s) (pp_term p) ! (nat (pp_index p) - 1)) = encode_command (pp_cmd p) \<and>
     pp_cmd p \<in> set (sy_started s)"

definition waits_ok :: "System \<Rightarrow> proposal \<Rightarrow> bool" where
  "waits_ok s p \<longleftrightarrow> (\<forall>a. pp_op p = Some a \<longrightarrow>
     op_tracks a (pp_index p) (pp_term p) (set (applied s (pp_node p))) (sy_servers s (pp_node p)))"

definition answered_ok :: "System \<Rightarrow> proposal \<Rightarrow> bool" where
  "answered_ok s p \<longleftrightarrow> (\<exists>m \<in> set (applied s (pp_node p)). am_Index m = pp_index p \<and> am_Term m = pp_term p)"

definition proposals_inv :: "ClusterConfig \<Rightarrow> System \<Rightarrow> bool" where
  "proposals_inv cfg s \<longleftrightarrow>
     (\<forall>p \<in> set (sy_waiting s). pp_node p \<in> node_ids cfg \<and> accepted s p \<and> waits_ok s p) \<and>
     (\<forall>p \<in> set (sy_acked s). pp_node p \<in> node_ids cfg \<and> accepted s p \<and> answered_ok s p)"

definition service_base :: "ClusterConfig \<Rightarrow> System \<Rightarrow> bool" where
  "service_base cfg s \<longleftrightarrow> raft_inv cfg s \<and> servers_inv s"

lemma accepted_step:
  assumes exec: "system_exec cfg ev s = Some t" and base: "service_base cfg s" and acc: "accepted s p"
  shows "accepted t p"
proof -
  have "cluster_reach cfg (sy_cluster s)" using base by (simp add: service_base_def raft_inv_def)
  moreover have "cluster_steps cfg (sy_cluster s) (sy_cluster t)"
    using sys_cluster_move [OF exec] by (auto simp: cluster_steps_def)
  ultimately obtain ys where "h_tlog (sy_cluster t) (pp_term p) = h_tlog (sy_cluster s) (pp_term p) @ ys"
    using cluster_steps_tlog by blast
  moreover have "nat (pp_index p) - 1 < length (h_tlog (sy_cluster s) (pp_term p))" using acc by (auto simp: accepted_def)
  ultimately show ?thesis using acc sys_started_grows [OF exec] by (auto simp: accepted_def nth_append)
qed

lemma waits_ok_step:
  assumes exec: "system_exec cfg ev s = Some t" and base: "service_base cfg s" and w: "waits_ok s p"
  shows "waits_ok t p"
proof -
  have "\<forall>i. sy_taken s i \<le> length (channel s i)" using base by (simp add: service_base_def servers_inv_def)
  from sys_server_move [OF exec this, of "pp_node p"] obtain es where
    "sy_servers t (pp_node p) = broker_run es (sy_servers s (pp_node p))"
    "set (applied t (pp_node p)) = set (applied s (pp_node p)) \<union> set (applied_by es)" by auto
  then show ?thesis using w op_tracks_run [where es = es] by (simp add: waits_ok_def)
qed

lemma answered_ok_step:
  assumes exec: "system_exec cfg ev s = Some t" and base: "service_base cfg s" and w: "answered_ok s p"
  shows "answered_ok t p"
proof -
  have "\<forall>i. sy_taken s i \<le> length (channel s i)" using base by (simp add: service_base_def servers_inv_def)
  from sys_server_move [OF exec this, of "pp_node p"] obtain es where
    "set (applied t (pp_node p)) = set (applied s (pp_node p)) \<union> set (applied_by es)" by auto
  then show ?thesis using w by (auto simp: answered_ok_def)
qed

lemma sys_waiting_same:
  assumes "system_exec cfg ev s = Some t" and "\<And>i c. ev \<noteq> SysStart i c" and "\<And>n. ev \<noteq> SysRegister n"
    and "\<And>n out. ev \<noteq> SysAnswer n out"
  shows "sy_waiting t = sy_waiting s"
  using assms by (cases ev) (auto simp: Let_def split: if_splits option.splits prod.splits msg.splits)

lemma new_proposal:
  assumes exec: "system_exec cfg ev s = Some t" and base: "service_base cfg s" and inv: "proposals_inv cfg s"
    and p: "p \<in> set (sy_waiting t)"
  shows "pp_node p \<in> node_ids cfg \<and> accepted t p \<and> waits_ok t p"
proof -
  have old: ?thesis if "p \<in> set (sy_waiting s)"
    using inv that accepted_step [OF exec base] waits_ok_step [OF exec base] by (auto simp: proposals_inv_def)
  show ?thesis
  proof (cases ev)
    case (SysStart i c)
    show ?thesis
    proof (cases "p \<in> set (sy_waiting s)")
      case False
      with SysStart exec p obtain rf' idx tm ps where i: "i \<in> node_ids cfg"
          and st: "Start (encode_command c) (cl_nodes (sy_cluster s) i) = Inr (rf', (idx, tm, True), ps)"
          and cl: "sy_cluster t = note_leader True i (set_node i rf' (sy_cluster s))" "c \<in> set (sy_started t)"
          and new: "p = \<lparr>pp_node = i, pp_cmd = c, pp_index = idx, pp_term = tm, pp_op = None\<rparr>"
        by (auto simp: Let_def split: if_splits sum.splits prod.splits)
      have "log_wf (rf_log (cl_nodes (sy_cluster s) i))"
        using base reach_node(2) i by (auto simp: service_base_def raft_inv_def)
      from Start_effect [OF this, of "encode_command c"] st
      have eff: "idx = int (length (node_log (sy_cluster s) i)) + 1" "tm = rf_currentTerm rf'"
          "log_list (rf_log rf') = node_log (sy_cluster s) i @ [\<lparr>le_Index = int (length (node_log (sy_cluster s) i)) + 1,
             le_Term = node_term (sy_cluster s) i, le_Command = encode_command c\<rparr>]" by auto
      then have "nat idx = Suc (length (node_log (sy_cluster s) i))" by simp
      with eff(1,3) cl(2) i show ?thesis
        by (simp add: new accepted_def waits_ok_def cl(1) eff(2) [symmetric])
    qed (rule old)
  next
    case (SysRegister n)
    define q where "q = sy_waiting s ! n"
    let ?b = "sy_servers s (pp_node q)" and ?q = "q\<lparr>pp_op := Some (length (bs_ops (sy_servers s (pp_node q))))\<rparr>"
    from SysRegister exec have n: "n < length (sy_waiting s)"
        and t: "t = (put_server (pp_node q) (register_op (pp_index q) (pp_term q) ?b) s)\<lparr>sy_waiting := (sy_waiting s)[n := ?q]\<rparr>"
      by (auto simp: Let_def q_def split: if_splits)
    have q: "pp_node q \<in> node_ids cfg" "accepted s q" using inv n by (auto simp: proposals_inv_def q_def)
    show ?thesis
    proof (cases "p \<in> set (sy_waiting s)")
      case False
      then have new: "p = ?q" using p set_update_subset_insert [of "sy_waiting s" n ?q] by (auto simp: t)
      have "accepted t q" by (rule accepted_step [OF exec base q(2)])
      then have "accepted t p" by (simp add: new accepted_def)
      moreover have "ops_ok ?b" using base by (simp add: service_base_def servers_inv_def server_ok_def broker_ok_def)
      from op_tracks_register [OF this] have "waits_ok t p" by (simp add: waits_ok_def new t)
      ultimately show ?thesis using q(1) by (simp add: new)
    qed (rule old)
  next
    case (SysAnswer n out)
    then have "p \<in> set (sy_waiting s)"
      using exec p by (auto simp: Let_def split: if_splits option.splits prod.splits dest: set_drop_nth)
    then show ?thesis by (rule old)
  qed (use p in \<open>auto simp: sys_waiting_same [OF exec] intro!: old\<close>)
qed

lemma new_answer:
  assumes exec: "system_exec cfg ev s = Some t" and base: "service_base cfg s" and inv: "proposals_inv cfg s"
    and p: "p \<in> set (sy_acked t)"
  shows "pp_node p \<in> node_ids cfg \<and> accepted t p \<and> answered_ok t p"
proof (cases "p \<in> set (sy_acked s)")
  case True
  then show ?thesis
    using inv accepted_step [OF exec base] answered_ok_step [OF exec base] by (auto simp: proposals_inv_def)
next
  case False
  then obtain n out where ev: "ev = SysAnswer n out"
    using exec p by (cases ev) (auto simp: Let_def split: if_splits option.splits prod.splits msg.splits sum.splits)
  define q where "q = sy_waiting s ! n"
  let ?b = "sy_servers s (pp_node q)"
  from ev exec False p obtain a b' where n: "n < length (sy_waiting s)" and a: "pp_op q = Some a" and pq: "p = q"
      and r: "await_result a (pp_index q) (pp_term q) out ?b = (b', True)"
    by (auto simp: Let_def q_def split: if_splits option.splits prod.splits)
  have q: "pp_node q \<in> node_ids cfg" "accepted s q" "waits_ok s q" using inv n by (auto simp: proposals_inv_def q_def)
  have "po_closed (bs_ops ?b ! a)" "po_term (bs_ops ?b ! a) = pp_term q"
    using r by (auto simp: await_result_def split: if_splits)
  then have "answered_ok s q" using q(3) a by (auto simp: waits_ok_def op_tracks_def answered_ok_def)
  then show ?thesis
    using q(1) accepted_step [OF exec base q(2)] answered_ok_step [OF exec base] by (simp add: pq)
qed

lemma proposals_inv_step: "system_step cfg s t \<Longrightarrow> service_base cfg s \<Longrightarrow> proposals_inv cfg s \<Longrightarrow> proposals_inv cfg t"
  using new_proposal new_answer by (auto simp: system_step_def proposals_inv_def [of cfg t])

interpretation sys_proposals: invariant_of "system_start cfg" "system_step cfg" "service_base cfg" "proposals_inv cfg" for cfg
proof
  show "system_reach cfg s \<Longrightarrow> service_base cfg s" for s
    using sys_raft.reach_inv sys_servers.reach_inv by (simp add: service_base_def)
  show "system_start cfg s \<Longrightarrow> proposals_inv cfg s" for s
    by (auto simp: system_start_def init_system_def proposals_inv_def)
qed (auto intro: proposals_inv_step)

section \<open>Nothing comes from nowhere\<close>

lemma board_step_sources:
  "x \<in> set (tb_tasks (board_step (op, i, d) b)) \<Longrightarrow> x \<in> set (tb_tasks b) \<or> op = ''submit'' \<and> x = (i, d)"
  "tb_results (board_step (op, i, d) b) j = Some e \<Longrightarrow>
     tb_results b j = Some e \<or> op = ''complete'' \<and> j = i \<and> e = d"
  by (auto split: if_splits)

lemma board_run_task:
  "(i, d) \<in> set (tb_tasks (board_run ms)) \<Longrightarrow> \<exists>m \<in> set ms. decodeCommand (am_Command m) = (''submit'', i, d)"
proof (induction ms rule: rev_induct)
  case (snoc m ms)
  obtain op j e where dec: "decodeCommand (am_Command m) = (op, j, e)" by (cases "decodeCommand (am_Command m)") auto
  from snoc.prems board_step_sources(1) [of "(i, d)" op j e "board_run ms"] snoc.IH dec show ?case
    by (auto simp: board_run_append simp del: board_step.simps)
qed (simp add: board_run_def board_empty_def)

lemma board_run_result:
  "tb_results (board_run ms) i = Some d \<Longrightarrow> \<exists>m \<in> set ms. decodeCommand (am_Command m) = (''complete'', i, d)"
proof (induction ms rule: rev_induct)
  case (snoc m ms)
  obtain op j e where dec: "decodeCommand (am_Command m) = (op, j, e)" by (cases "decodeCommand (am_Command m)") auto
  from snoc.prems board_step_sources(2) [of op j e "board_run ms" i d] snoc.IH dec show ?case
    by (auto simp: board_run_append simp del: board_step.simps)
qed (simp add: board_run_def board_empty_def)

lemma decode_encode_cases:
  "decodeCommand (encode_command c) = command_fields c \<or> decodeCommand (encode_command c) = ('''', '''', '''')"
proof (cases "CHR '':'' \<in> set (command_id c)")
  case True
  then show ?thesis
    using decode_colon_id [of "''submit''"] decode_colon_id [of "''complete''"]
    by (cases c) (auto simp: encodeSubmit_def encodeComplete_def)
qed (simp add: decode_encode_command)

lemma known_decode:
  assumes "x \<in> known_commands s"
  shows "decodeCommand x = (''submit'', i, d) \<Longrightarrow> CSubmit i d \<in> set (sy_started s)"
    and "decodeCommand x = (''complete'', i, d) \<Longrightarrow> CComplete i d \<in> set (sy_started s)"
proof -
  have src: "x = ''noop'' \<or> (\<exists>c \<in> set (sy_started s). x = encode_command c)" using assms by (auto simp: known_commands_def)
  have one: "c \<in> set (sy_started s) \<Longrightarrow> decodeCommand (encode_command c) = (op, i, d) \<Longrightarrow> op \<noteq> '''' \<Longrightarrow>
      \<exists>c \<in> set (sy_started s). command_fields c = (op, i, d)" for c op
    using decode_encode_cases [of c] by auto
  have key: "\<exists>c \<in> set (sy_started s). command_fields c = (op, i, d)"
    if "decodeCommand x = (op, i, d)" "op \<noteq> ''''" for op
    using src that by (auto intro: one)
  show "decodeCommand x = (''submit'', i, d) \<Longrightarrow> CSubmit i d \<in> set (sy_started s)"
  proof -
    assume "decodeCommand x = (''submit'', i, d)"
    then obtain c where c: "c \<in> set (sy_started s)" "command_fields c = (''submit'', i, d)" using key by auto
    from c(2) have "c = CSubmit i d" by (cases c) simp_all
    then show ?thesis using c(1) by simp
  qed
  show "decodeCommand x = (''complete'', i, d) \<Longrightarrow> CComplete i d \<in> set (sy_started s)"
  proof -
    assume "decodeCommand x = (''complete'', i, d)"
    then obtain c where c: "c \<in> set (sy_started s)" "command_fields c = (''complete'', i, d)" using key by auto
    from c(2) have "c = CComplete i d" by (cases c) simp_all
    then show ?thesis using c(1) by simp
  qed
qed

text \<open>The board of every server, and so what it serves and reports, goes back to accepted commands.\<close>

lemma board_sources:
  assumes "service_base cfg s" and "i \<in> node_ids cfg"
  shows "(x, d) \<in> set (tb_tasks (board_at s i)) \<Longrightarrow> CSubmit x d \<in> set (sy_started s)"
    and "tb_results (board_at s i) x = Some e \<Longrightarrow> CComplete x e \<in> set (sy_started s)"
proof -
  have board: "board_at s i = board_run (applied s i)"
    using assms(1) by (simp add: service_base_def servers_inv_def server_ok_def)
  have known: "am_Command m \<in> known_commands s" if "m \<in> set (applied s i)" for m
    using assms in_set_takeD [OF that] commands_from_channel by (auto simp: service_base_def raft_inv_def)
  show "(x, d) \<in> set (tb_tasks (board_at s i)) \<Longrightarrow> CSubmit x d \<in> set (sy_started s)"
    unfolding board using board_run_task known known_decode(1) by metis
  show "tb_results (board_at s i) x = Some e \<Longrightarrow> CComplete x e \<in> set (sy_started s)"
    unfolding board using board_run_result known known_decode(2) by metis
qed

definition history_inv :: "System \<Rightarrow> bool" where
  "history_inv s \<longleftrightarrow> (\<forall>t \<in> set (sy_served s). CSubmit (tk_Id t) (tk_Payload t) \<in> set (sy_started s)) \<and>
     (\<forall>(i, e) \<in> set (sy_results s). CComplete i e \<in> set (sy_started s))"

lemma polled_on_board:
  "pr_Task (snd (Poll_locked now req b)) = Some t \<Longrightarrow> (tk_Id t, tk_Payload t) \<in> set (tb_tasks (board_of b))"
  using poll_scan_Some [of b "bs_submittedOrder b"]
  by (auto simp: Poll_locked_def Let_def board_of_def split: option.splits)

lemma result_on_board:
  "gr_Done (GetResult req b) \<Longrightarrow> tb_results (board_of b) (gq_TaskId req) = Some (gr_Error (GetResult req b))"
  by (auto simp: GetResult_def board_of_def split: if_splits)

lemma sys_histories_same:
  assumes "system_exec cfg ev s = Some t" and "\<And>i now req. ev \<noteq> SysPoll i now req" and "\<And>i req. ev \<noteq> SysResult i req"
  shows "sy_served t = sy_served s" "sy_results t = sy_results s"
  using assms by (cases ev; auto simp: Let_def split: if_splits sum.splits option.splits prod.splits msg.splits)+

lemma history_inv_step:
  assumes "system_step cfg s t" and base: "service_base cfg s" and inv: "history_inv s"
  shows "history_inv t"
proof -
  obtain ev where exec: "system_exec cfg ev s = Some t" using assms(1) by (auto simp: system_step_def)
  note grow = sys_started_grows [OF exec]
  have old: "history_inv t" if "sy_served t = sy_served s" "sy_results t = sy_results s"
    using inv grow that by (auto simp: history_inv_def)
  show ?thesis
  proof (cases ev)
    case (SysPoll i now req)
    with exec have i: "i \<in> node_ids cfg" by (auto split: if_splits)
    let ?r = "Poll_locked now req (server_at s i)"
    from SysPoll exec have t: "sy_started t = sy_started s" "sy_results t = sy_results s"
        "sy_served t = sy_served s @ (case pr_Task (snd ?r) of Some t \<Rightarrow> [t] | None \<Rightarrow> [])"
      by (auto split: if_splits prod.splits)
    have "CSubmit (tk_Id u) (tk_Payload u) \<in> set (sy_started s)" if "pr_Task (snd ?r) = Some u" for u
      by (rule board_sources(1) [OF base i polled_on_board [OF that]])
    then show ?thesis using inv unfolding history_inv_def t by (auto split: option.splits)
  next
    case (SysResult i req)
    with exec have i: "i \<in> node_ids cfg" by (auto split: if_splits)
    let ?r = "GetResult req (server_at s i)"
    from SysResult exec i have t: "sy_started t = sy_started s" "sy_served t = sy_served s"
        "sy_results t = sy_results s @ (if gr_Done ?r then [(gq_TaskId req, gr_Error ?r)] else [])"
      by (auto simp: Let_def)
    have "gr_Done ?r \<Longrightarrow> CComplete (gq_TaskId req) (gr_Error ?r) \<in> set (sy_started s)"
      by (rule board_sources(2) [OF base i result_on_board])
    then show ?thesis using inv unfolding history_inv_def t by auto
  qed (rule old; use exec sys_histories_same [OF exec] in simp)+
qed

interpretation sys_history: invariant_of "system_start cfg" "system_step cfg" "service_base cfg" history_inv for cfg
proof
  show "system_reach cfg s \<Longrightarrow> service_base cfg s" for s by (rule sys_proposals.base_reach)
  show "system_start cfg s \<Longrightarrow> history_inv s" for s
    by (auto simp: system_start_def init_system_def history_inv_def)
qed (auto intro: history_inv_step)

lemma system_invs:
  assumes "system_reach cfg s"
  shows "cluster_reach cfg (sy_cluster s)" "service_base cfg s" "servers_inv s" "proposals_inv cfg s" "history_inv s"
  using sys_proposals.reach_both [OF assms] sys_history.reach_inv [OF assms]
  by (auto simp: service_base_def raft_inv_def)

end
