(* ===== verification/System_Demo.thy ===== *)
theory System_Demo
  imports System_Proofs
begin

text \<open>
  A run of the whole service on three nodes: node 0 is elected, accepts a task, commits
  it, acknowledges it and hands it out, accepts its completion, commits and reports it;
  node 1 catches up. The two commands stay variables in the runs of the cluster, so that
  these can be evaluated without decoding anything.
\<close>

section \<open>Runs of the cluster inside the service\<close>

lemma run_system_append:
  "run_system cfg (es @ fs) s = (case run_system cfg es s of None \<Rightarrow> None | Some t \<Rightarrow> run_system cfg fs t)"
  by (induction es arbitrary: s) (simp_all split: option.split)

lemma run_system_raft:
  assumes "run_events cfg es (sy_cluster s) = Some c" and "\<forall>e \<in> set es. \<not> is_client_event e"
  shows "run_system cfg (map SysRaft es) s = Some (s\<lparr>sy_cluster := c\<rparr>)"
  using assms by (induction es arbitrary: s) (auto split: option.splits)

lemma sys_start_leader:
  assumes "cluster_reach cfg (sy_cluster s)" and "i \<in> node_ids cfg" and "node_state (sy_cluster s) i = Leader"
  shows "system_exec cfg (SysStart i c) s = Some (s\<lparr>sy_cluster := the (cluster_exec cfg (EvClient i (encode_command c)) (sy_cluster s)),
    sy_waiting := sy_waiting s @ [\<lparr>pp_node = i, pp_cmd = c, pp_index = int (length (node_log (sy_cluster s) i)) + 1,
      pp_term = node_term (sy_cluster s) i, pp_op = None\<rparr>], sy_started := sy_started s @ [c]\<rparr>)"
  using Start_effect [OF reach_node(2) [OF assms(1,2)], of "encode_command c"] assms(2,3) by (auto simp: Let_def)

definition elect_events :: "event list" where
  "elect_events = [EvTimeout 0 0, EvRecvVote 0 1 0 0, EvVoteReply 1 0]"

definition commit_events :: "event list" where
  "commit_events = [EvSend 0 1, EvRecvAppend 2 0, EvAppendReply 3 0, EvApply 0, EvApply 0, EvApply 0, EvApply 0, EvApply 0]"

definition finish_events :: "event list" where
  "finish_events = [EvSend 0 1, EvRecvAppend 4 0, EvAppendReply 5 0, EvApply 0, EvApply 0, EvApply 0, EvApply 0,
     EvSend 0 1, EvRecvAppend 6 0, EvApply 1, EvApply 1, EvApply 1, EvApply 1, EvApply 1, EvApply 1, EvApply 1]"

definition elected :: Cluster where
  "elected = the (run_events demo_cfg elect_events demo_init)"

definition offered :: "string \<Rightarrow> Cluster" where
  "offered x = the (cluster_exec demo_cfg (EvClient 0 x) elected)"

definition agreed :: "string \<Rightarrow> Cluster" where
  "agreed x = the (run_events demo_cfg commit_events (offered x))"

definition closing :: "string \<Rightarrow> string \<Rightarrow> Cluster" where
  "closing x y = the (cluster_exec demo_cfg (EvClient 0 y) (agreed x))"

definition finished :: "string \<Rightarrow> string \<Rightarrow> Cluster" where
  "finished x y = the (run_events demo_cfg finish_events (closing x y))"

lemma elected_facts:
  "run_events demo_cfg elect_events demo_init \<noteq> None"
  "node_state elected 0 = Leader" "length (node_log elected 0) = 1" "node_term elected 0 = 1"
  by code_simp+

lemma agreed_facts:
  "run_events demo_cfg commit_events (offered x) \<noteq> None"
  "node_state (agreed x) 0 = Leader" "length (node_log (agreed x) 0) = 2" "node_term (agreed x) 0 = 1"
  "rf_commitCh (cl_nodes (agreed x) 0) =
     [\<lparr>am_Index = 1, am_Term = 1, am_Command = ''noop''\<rparr>, \<lparr>am_Index = 2, am_Term = 1, am_Command = x\<rparr>]"
  by code_simp+

lemma finished_facts:
  "run_events demo_cfg finish_events (closing x y) \<noteq> None"
  "node_state (finished x y) 0 = Leader"
  "rf_commitCh (cl_nodes (finished x y) 0) =
     [\<lparr>am_Index = 1, am_Term = 1, am_Command = ''noop''\<rparr>, \<lparr>am_Index = 2, am_Term = 1, am_Command = x\<rparr>,
      \<lparr>am_Index = 3, am_Term = 1, am_Command = y\<rparr>]"
  "rf_commitCh (cl_nodes (finished x y) 1) = rf_commitCh (cl_nodes (finished x y) 0)"
  by code_simp+

section \<open>The run of the service\<close>

definition demo_submit_events :: "string \<Rightarrow> sys_event list" where
  "demo_submit_events d = map SysRaft elect_events @ [SysStart 0 (CSubmit ''t1'' d), SysRegister 0] @
     map SysRaft commit_events @ [SysApply 0, SysApply 0, SysAnswer 0 False, SysGetState 0, SysRefresh 0 True, SysPoll 0 7 \<lparr>pq_WorkerId = ''w''\<rparr>]"

definition demo_complete_events :: "sys_event list" where
  "demo_complete_events = [SysStart 0 (CComplete ''t1'' ''''), SysRegister 0] @ map SysRaft finish_events @
     [SysApply 0, SysAnswer 0 False, SysResult 0 \<lparr>gq_TaskId = ''t1''\<rparr>, SysApply 1, SysApply 1, SysApply 1]"

abbreviation demo_boot :: System where
  "demo_boot \<equiv> init_system (\<lambda>_. 0) demo_cfg"

lemma demo_boot_start: "system_start demo_cfg demo_boot"
  unfolding system_start_def by (auto simp: wf_cfg_def demo_cfg_def upt_rec)

lemma boot_server_fields:
  "bs_submitted (boot_server r i cfg) = Map.empty" "bs_submittedOrder (boot_server r i cfg) = []"
  "bs_done (boot_server r i cfg) = Map.empty" "bs_errors (boot_server r i cfg) = Map.empty"
  "bs_inflight (boot_server r i cfg) = Map.empty" "bs_wasLeader (boot_server r i cfg) = False"
  "bs_pendingOps (boot_server r i cfg) = Map.empty" "bs_ops (boot_server r i cfg) = []"
  by (simp_all add: boot_server_def newBrokerServer_def New_def dial_peers_True)

lemma elected_reach: "cluster_reach demo_cfg elected"
proof -
  have "cluster_start demo_cfg demo_init"
    unfolding cluster_start_def demo_init_def by (auto simp: wf_cfg_def demo_cfg_def upt_rec)
  then have "cluster_reach demo_cfg demo_init" by (rule reach.reach_start)
  then show ?thesis using elected_facts(1) by (auto simp: elected_def intro: run_events_reach)
qed

lemma demo_elected:
  "run_system demo_cfg (map SysRaft elect_events) demo_boot = Some (demo_boot\<lparr>sy_cluster := elected\<rparr>)"
  by (rule run_system_raft) (use elected_facts(1) in \<open>auto simp: elected_def init_system_def demo_init_def elect_events_def\<close>)

lemma demo_submitted:
  "run_system demo_cfg [SysStart 0 (CSubmit ''t1'' d), SysRegister 0] (demo_boot\<lparr>sy_cluster := elected\<rparr>) =
     Some (put_server 0 (register_op 2 1 (boot_server 0 0 demo_cfg)) demo_boot
       \<lparr>sy_cluster := offered (encodeSubmit ''t1'' d), sy_started := [CSubmit ''t1'' d],
        sy_waiting := [\<lparr>pp_node = 0, pp_cmd = CSubmit ''t1'' d, pp_index = 2, pp_term = 1, pp_op = Some 0\<rparr>]\<rparr>)"
  using sys_start_leader [of demo_cfg "demo_boot\<lparr>sy_cluster := elected\<rparr>" 0 "CSubmit ''t1'' d"] elected_reach
  by (simp add: demo_ids elected_facts init_system_def offered_def boot_server_fields put_server_def
      del: system_exec.simps(3))

lemma demo_agreed:
  "sy_cluster s = offered x \<Longrightarrow> run_system demo_cfg (map SysRaft commit_events) s = Some (s\<lparr>sy_cluster := agreed x\<rparr>)"
  by (rule run_system_raft) (use agreed_facts(1) [of x] in \<open>auto simp: agreed_def commit_events_def\<close>)

lemma demo_finished:
  "sy_cluster s = closing x y \<Longrightarrow> run_system demo_cfg (map SysRaft finish_events) s = Some (s\<lparr>sy_cluster := finished x y\<rparr>)"
  by (rule run_system_raft) (use finished_facts(1) [of x y] in \<open>auto simp: finished_def finish_events_def\<close>)

lemmas demo_server_simps = init_system_def put_server_def server_at_def apply_message_def wake_waiter_def apply_command_def
  register_op_def boot_server_fields await_result_def drop_nth_def note_leadership_def Poll_locked_def GetState_def
  GetResult_def is_done_def map_string_def Let_def

lemma demo_served_task:
  "\<exists>s. run_system demo_cfg (demo_submit_events d) demo_boot = Some s \<and> sy_cluster s = agreed (encodeSubmit ''t1'' d) \<and>
     sy_taken s 0 = 2 \<and> sy_taken s 1 = 0 \<and> sy_waiting s = [] \<and> sy_started s = [CSubmit ''t1'' d] \<and>
     sy_acked s = [\<lparr>pp_node = 0, pp_cmd = CSubmit ''t1'' d, pp_index = 2, pp_term = 1, pp_op = Some 0\<rparr>] \<and>
     sy_served s = [\<lparr>tk_Id = ''t1'', tk_Payload = d\<rparr>] \<and> sy_results s = [] \<and>
     bs_pendingOps (sy_servers s 0) = Map.empty \<and> length (bs_ops (sy_servers s 0)) = 1 \<and>
     sy_servers s 1 = boot_server 0 1 demo_cfg"
  unfolding demo_submit_events_def run_system_append demo_elected demo_submitted option.case
  by (subst demo_agreed [where x = "encodeSubmit ''t1'' d"], simp)
    (simp add: demo_ids agreed_facts demo_server_simps)

lemma agreed_reach:
  assumes "run_system demo_cfg (demo_submit_events d) demo_boot = Some s" and "sy_cluster s = agreed x"
  shows "cluster_reach demo_cfg (agreed x)"
proof -
  have "system_reach demo_cfg s"
    using run_system_reach [OF reach.reach_start] demo_boot_start assms(1) by blast
  from sys_raft.reach_inv [OF this] assms(2) show ?thesis by (simp add: raft_inv_def)
qed

lemma demo_completed:
  "\<exists>s. run_system demo_cfg (demo_submit_events d @ demo_complete_events) demo_boot = Some s \<and>
     sy_taken s 0 = 3 \<and> sy_taken s 1 = 3 \<and> node_state (sy_cluster s) 0 = Leader \<and>
     sy_started s = [CSubmit ''t1'' d, CComplete ''t1'' ''''] \<and>
     map pp_cmd (sy_acked s) = [CSubmit ''t1'' d, CComplete ''t1'' ''''] \<and>
     map pp_index (sy_acked s) = [2, 3] \<and> map pp_node (sy_acked s) = [0, 0] \<and>
     sy_served s = [\<lparr>tk_Id = ''t1'', tk_Payload = d\<rparr>] \<and> sy_results s = [(''t1'', '''')]"
proof -
  let ?x = "encodeSubmit ''t1'' d" and ?y = "encodeComplete ''t1'' ''''"
  from demo_served_task [of d] obtain s where run: "run_system demo_cfg (demo_submit_events d) demo_boot = Some s"
      and cl: "sy_cluster s = agreed ?x" and taken: "sy_taken s 0 = 2" "sy_taken s 1 = 0"
      and hist: "sy_waiting s = []" "sy_started s = [CSubmit ''t1'' d]"
        "sy_acked s = [\<lparr>pp_node = 0, pp_cmd = CSubmit ''t1'' d, pp_index = 2, pp_term = 1, pp_op = Some 0\<rparr>]"
        "sy_served s = [\<lparr>tk_Id = ''t1'', tk_Payload = d\<rparr>]" "sy_results s = []"
      and srv: "bs_pendingOps (sy_servers s 0) = Map.empty" "length (bs_ops (sy_servers s 0)) = 1"
        "sy_servers s 1 = boot_server 0 1 demo_cfg" by blast
  let ?p = "\<lparr>pp_node = 0, pp_cmd = CComplete ''t1'' '''', pp_index = 3, pp_term = 1, pp_op = Some 1\<rparr>"
  have offer: "run_system demo_cfg [SysStart 0 (CComplete ''t1'' ''''), SysRegister 0] s =
      Some (put_server 0 (register_op 3 1 (sy_servers s 0)) s\<lparr>sy_cluster := closing ?x ?y,
        sy_started := [CSubmit ''t1'' d, CComplete ''t1'' ''''], sy_waiting := [?p]\<rparr>)"
    using sys_start_leader [of demo_cfg s 0 "CComplete ''t1'' ''''"] agreed_reach [OF run cl]
    by (simp add: demo_ids agreed_facts closing_def put_server_def cl hist srv del: system_exec.simps(3))
  have b1: "bs_done (sy_servers s 1) = Map.empty" "bs_pendingOps (sy_servers s 1) = Map.empty"
    by (simp_all add: srv boot_server_fields)
  show ?thesis
    unfolding run_system_append run option.case demo_complete_events_def offer
    by (subst demo_finished [where x = ?x and y = ?y], simp)
      (simp add: demo_ids finished_facts demo_server_simps hist srv taken cl nth_append numeral_eq_Suc)
qed

definition demo_system :: "string \<Rightarrow> System" where
  "demo_system d = the (run_system demo_cfg (demo_submit_events d @ demo_complete_events) demo_boot)"

lemma demo_system_facts:
  "sy_taken (demo_system d) 0 = 3" "sy_taken (demo_system d) 1 = 3" "node_state (sy_cluster (demo_system d)) 0 = Leader"
  "sy_started (demo_system d) = [CSubmit ''t1'' d, CComplete ''t1'' '''']"
  "map pp_cmd (sy_acked (demo_system d)) = [CSubmit ''t1'' d, CComplete ''t1'' '''']"
  "map pp_index (sy_acked (demo_system d)) = [2, 3]" "map pp_node (sy_acked (demo_system d)) = [0, 0]"
  "sy_served (demo_system d) = [\<lparr>tk_Id = ''t1'', tk_Payload = d\<rparr>]" "sy_results (demo_system d) = [(''t1'', '''')]"
  using demo_completed [of d] by (auto simp: demo_system_def)

lemma demo_system_reach: "system_reach demo_cfg (demo_system d)"
proof -
  obtain s where "run_system demo_cfg (demo_submit_events d @ demo_complete_events) demo_boot = Some s"
    using demo_completed by blast
  then show ?thesis
    using run_system_reach [OF reach.reach_start [where start = "system_start demo_cfg", OF demo_boot_start]]
    by (simp add: demo_system_def)
qed

end
