(* ===== verification/System_Theorems.thy ===== *)
theory System_Theorems
  imports System_Demo
begin

text \<open>
  What the broker service promises in every reachable state, whatever the schedule: the
  boards of the servers agree, an acknowledged command is never lost, and nothing is
  served or reported that nobody asked for.
\<close>

section \<open>Servers and channels\<close>

lemma board_of_applied: "servers_inv s \<Longrightarrow> board_at s i = board_run (applied s i)"
  by (simp add: servers_inv_def server_ok_def)

lemma channel_index:
  assumes "cluster_reach cfg c" and "i \<in> node_ids cfg" and "k < length (rf_commitCh (cl_nodes c i))"
  shows "am_Index (rf_commitCh (cl_nodes c i) ! k) = int k + 1"
  using reach_node [OF assms(1,2)] assms(3) lg.index_els [of "rf_log (cl_nodes c i)" k]
  by (auto simp: apply_ok_def apply_msg_def)

lemma applied_prefix:
  assumes "cluster_reach cfg (sy_cluster s)" and "servers_inv s" and "i \<in> node_ids cfg" and "j \<in> node_ids cfg"
    and "n \<le> sy_taken s i" and "n \<le> sy_taken s j"
  shows "take n (applied s i) = take n (applied s j)"
proof -
  have len: "sy_taken s i \<le> length (channel s i)" "sy_taken s j \<le> length (channel s j)"
    using assms(2) by (simp_all add: servers_inv_def)
  have "take n (channel s i) = take n (channel s j)"
  proof (cases "length (channel s i) \<le> length (channel s j)")
    case True
    show ?thesis by (rule take_of_prefix [OF channels_agree(1) [OF assms(1,3,4) True]]) (use assms(5) len in linarith)
  next
    case False
    then have "length (channel s j) \<le> length (channel s i)" by simp
    from take_of_prefix [OF channels_agree(2) [OF assms(1,3,4) this], of n] show ?thesis using assms(6) len by simp
  qed
  then show ?thesis using assms(5,6) by (simp add: min_absorb1)
qed

text \<open>An acknowledged command was applied, at its index, by the server that acknowledged it.\<close>

lemma acked_applied:
  assumes "system_reach cfg s" and "p \<in> set (sy_acked s)"
  obtains "pp_node p \<in> node_ids cfg" "1 \<le> pp_index p" "nat (pp_index p) \<le> sy_taken s (pp_node p)"
    "am_Command (applied s (pp_node p) ! (nat (pp_index p) - 1)) = encode_command (pp_cmd p)"
    "applied s (pp_node p) ! (nat (pp_index p) - 1) = channel s (pp_node p) ! (nat (pp_index p) - 1)"
    "nat (pp_index p) \<le> length (channel s (pp_node p))"
proof -
  let ?i = "pp_node p"
  note inv = system_invs [OF assms(1)]
  have p: "?i \<in> node_ids cfg" "accepted s p" "answered_ok s p" using inv(4) assms(2) by (auto simp: proposals_inv_def)
  then obtain k where k: "k < length (applied s ?i)" "am_Index (applied s ?i ! k) = pp_index p"
      "am_Term (applied s ?i ! k) = pp_term p"
    by (auto simp: answered_ok_def in_set_conv_nth)
  then have idx: "pp_index p = int k + 1" using channel_index [OF inv(1) p(1), of k] by simp
  have "applied s ?i ! k \<in> set (channel s ?i)" using k(1) by (meson in_set_takeD nth_mem)
  from delivered_entry [OF inv(1) p(1) this] have "am_Command (applied s ?i ! k) = encode_command (pp_cmd p)"
    using p(2) k(2,3) by (simp add: accepted_def apply_msg_def)
  moreover have "nat (pp_index p) - 1 = k" using idx by simp
  ultimately show thesis using that p(1) idx k(1) by auto
qed

definition on_board :: "command \<Rightarrow> TaskBoard \<Rightarrow> bool" where
  "on_board c b = (case c of CSubmit i d \<Rightarrow> i \<in> fst ` set (tb_tasks b) | CComplete i e \<Rightarrow> tb_results b i \<noteq> None)"

text \<open>It is on the board of every server that has applied as far.\<close>

lemma acked_on_board:
  assumes "system_reach cfg s" and "p \<in> set (sy_acked s)" and "CHR '':'' \<notin> set (command_id (pp_cmd p))"
    and "j \<in> node_ids cfg" and "nat (pp_index p) \<le> sy_taken s j"
  shows "on_board (pp_cmd p) (board_at s j)"
proof -
  let ?i = "pp_node p" and ?n = "nat (pp_index p)"
  note inv = system_invs [OF assms(1)]
  from assms(1,2) have i: "?i \<in> node_ids cfg" "1 \<le> pp_index p" "?n \<le> sy_taken s ?i"
      and cmd: "am_Command (applied s ?i ! (?n - 1)) = encode_command (pp_cmd p)"
    by (auto elim!: acked_applied)
  have lt: "?n - 1 < ?n" using i(2) by simp
  have len: "sy_taken s j \<le> length (channel s j)" using inv(3) by (simp add: servers_inv_def)
  have "applied s j ! (?n - 1) = applied s ?i ! (?n - 1)"
    using applied_prefix [OF inv(1,3) assms(4) i(1) assms(5) i(3)] lt by (rule take_eq_nth)
  moreover have "applied s j ! (?n - 1) \<in> set (applied s j)" using assms(5) len lt by (intro nth_mem) simp
  ultimately have m: "applied s ?i ! (?n - 1) \<in> set (applied s j)" by simp
  have "decodeCommand (am_Command (applied s ?i ! (?n - 1))) = command_fields (pp_cmd p)"
    unfolding cmd by (rule decode_encode_command [OF assms(3)])
  from applied_in_board [OF m this, of board_empty] show ?thesis
    unfolding on_board_def board_of_applied [OF inv(3)] board_run_def by (cases "pp_cmd p") auto
qed

section \<open>The properties\<close>

text \<open>C6 All servers show the same board: in every reachable state of the service, if one server has
  applied at most as many messages as another, its board is extended by the other's: its
  tasks are a prefix of the other's, in the same order and with the same payloads, and
  every task it shows as done, the other does; servers that are equally far show equal boards.\<close>

theorem servers_agree:
  assumes "system_reach cfg s" and "i \<in> node_ids cfg" and "j \<in> node_ids cfg" and "sy_taken s i \<le> sy_taken s j"
  shows "board_extends (board_at s i) (board_at s j) \<and> (sy_taken s i = sy_taken s j \<longrightarrow> board_at s i = board_at s j)"
proof -
  note inv = system_invs [OF assms(1)]
  have same: "applied s i = take (sy_taken s i) (applied s j)"
    using applied_prefix [OF inv(1,3) assms(2,3), of "sy_taken s i"] assms(4) by simp
  then have "applied s j = applied s i @ drop (sy_taken s i) (applied s j)" by (metis append_take_drop_id)
  then show ?thesis
    using board_run_extends [of "applied s i" "drop (sy_taken s i) (applied s j)"] same assms(4)
    unfolding board_of_applied [OF inv(3)] by auto
qed

theorem servers_agree_witness:
  "board_at (demo_system ''x'') 0 = board_at (demo_system ''x'') 1 \<and> sy_taken (demo_system ''x'') 1 = 3"
  using servers_agree [OF demo_system_reach, of 0 1 "''x''"] demo_system_facts [of "''x''"]
  by (simp add: demo_ids del: server_at_ok)

text \<open>C2 An acknowledged command is never lost: once \<open>Submit\<close> or \<open>Complete\<close> has answered with success,
  the answering server has applied the messages up to the command's index; every leader of
  the answering node's term or a later one has the command in its log, so it will be
  applied there as well; and if the command's identifier has no colon (every UUID has none,
  but \<open>Complete\<close> takes any string, and a command whose identifier has one is applied as a
  no-op), every server that has applied as many messages, the answering one among them,
  shows the task, or the result, on its board.\<close>

theorem acknowledged_never_lost:
  assumes "system_reach cfg s" and "p \<in> set (sy_acked s)" and "j \<in> node_ids cfg"
  shows "nat (pp_index p) \<le> sy_taken s (pp_node p) \<and>
    (CHR '':'' \<notin> set (command_id (pp_cmd p)) \<and> nat (pp_index p) \<le> sy_taken s j \<longrightarrow>
       on_board (pp_cmd p) (board_at s j)) \<and>
    (node_state (sy_cluster s) j = Leader \<and> node_term (sy_cluster s) (pp_node p) \<le> node_term (sy_cluster s) j \<longrightarrow>
       encode_command (pp_cmd p) \<in> le_Command ` set (node_log (sy_cluster s) j))"
proof -
  let ?i = "pp_node p" and ?n = "nat (pp_index p)"
  note inv = system_invs [OF assms(1)]
  from assms(1,2) have i: "?i \<in> node_ids cfg" "1 \<le> pp_index p" "?n \<le> sy_taken s ?i" "?n \<le> length (channel s ?i)"
      and cmd: "am_Command (applied s ?i ! (?n - 1)) = encode_command (pp_cmd p)"
      and ch: "applied s ?i ! (?n - 1) = channel s ?i ! (?n - 1)"
    by (auto elim!: acked_applied)
  have lt: "?n - 1 < ?n" using i(2) by simp
  have board: "on_board (pp_cmd p) (board_at s j)"
    if "CHR '':'' \<notin> set (command_id (pp_cmd p))" "?n \<le> sy_taken s j"
    using acked_on_board [OF assms(1,2) that(1) assms(3) that(2)] .
  have log: "encode_command (pp_cmd p) \<in> le_Command ` set (node_log (sy_cluster s) j)"
    if "node_state (sy_cluster s) j = Leader" "node_term (sy_cluster s) ?i \<le> node_term (sy_cluster s) j"
  proof -
    let ?L = "node_log (sy_cluster s) ?i"
    have ok: "apply_ok (cl_nodes (sy_cluster s) ?i)" using reach_node(4) [OF inv(1) i(1)] .
    then have n: "?n \<le> nat (node_commit (sy_cluster s) ?i)"
      using i(4) delivered_le [OF ok] length_commitCh [OF ok] by linarith
    moreover have "nat (node_commit (sy_cluster s) ?i) \<le> length ?L" using ok by (auto simp: apply_ok_def)
    ultimately have k: "?n - 1 < nat (node_commit (sy_cluster s) ?i)" "?n - 1 < length ?L" using lt by linarith+
    have "channel s ?i ! (?n - 1) = apply_msg (?L ! (?n - 1))"
      using ok i(4) k lt by (auto simp: apply_ok_def)
    then have e: "le_Command (?L ! (?n - 1)) = encode_command (pp_cmd p)" using cmd ch by (simp add: apply_msg_def)
    note same = leader_has_committed [OF inv(1) assms(3) i(1) that]
    have "take (nat (node_commit (sy_cluster s) ?i)) ?L ! (?n - 1) = ?L ! (?n - 1)" using k(1) by simp
    moreover have "take (nat (node_commit (sy_cluster s) ?i)) ?L ! (?n - 1) \<in> set (take (nat (node_commit (sy_cluster s) ?i)) ?L)"
      using k by (intro nth_mem) simp
    ultimately have "?L ! (?n - 1) \<in> set (node_log (sy_cluster s) j)" using same by (metis in_set_takeD)
    then show ?thesis using e by (metis image_eqI)
  qed
  show ?thesis using i(3) board log by blast
qed

theorem acknowledged_never_lost_witness:
  "\<exists>p \<in> set (sy_acked (demo_system ''x'')). pp_cmd p = CComplete ''t1'' '''' \<and>
     on_board (pp_cmd p) (board_at (demo_system ''x'') 1) \<and>
     encode_command (pp_cmd p) \<in> le_Command ` set (node_log (sy_cluster (demo_system ''x'')) 0)"
proof -
  let ?s = "demo_system ''x''"
  have acked: "map pp_cmd (sy_acked ?s) = [CSubmit ''t1'' ''x'', CComplete ''t1'' '''']"
    "map pp_index (sy_acked ?s) = [2, 3]" "map pp_node (sy_acked ?s) = [0, 0]" by (rule demo_system_facts)+
  then obtain q p where "sy_acked ?s = [q, p]" and p: "pp_cmd p = CComplete ''t1'' ''''" "pp_index p = 3" "pp_node p = 0"
    by (auto simp: map_eq_Cons_conv)
  then have mem: "p \<in> set (sy_acked ?s)" by simp
  from acknowledged_never_lost [OF demo_system_reach mem, of 1]
    acknowledged_never_lost [OF demo_system_reach mem, of 0] show ?thesis
    using p mem demo_system_facts [of "''x''"] by (intro bexI [of _ p]) (auto simp: demo_ids simp del: server_at_ok)
qed

text \<open>C7 No work is invented: every task that any server shows or that \<open>Poll\<close> has handed out was
  accepted by a leader as a submission with just this identifier and payload, and every
  result that any server shows or that \<open>GetResult\<close> has reported was accepted as a
  completion with just this error text.\<close>

theorem no_invented_work:
  assumes "system_reach cfg s"
  shows "(i \<in> node_ids cfg \<longrightarrow>
      (\<forall>(x, d) \<in> set (tb_tasks (board_at s i)). CSubmit x d \<in> set (sy_started s)) \<and>
      (\<forall>x e. tb_results (board_at s i) x = Some e \<longrightarrow> CComplete x e \<in> set (sy_started s))) \<and>
    (\<forall>t \<in> set (sy_served s). CSubmit (tk_Id t) (tk_Payload t) \<in> set (sy_started s)) \<and>
    (\<forall>(x, e) \<in> set (sy_results s). CComplete x e \<in> set (sy_started s))"
  using system_invs(5) [OF assms] board_sources [OF system_invs(2) [OF assms]]
  by (auto simp: history_inv_def simp del: server_at_ok(1))

theorem no_invented_work_witness:
  "sy_results (demo_system ''x'') = [(''t1'', '''')] \<and> CComplete ''t1'' '''' \<in> set (sy_started (demo_system ''x'')) \<and>
   sy_served (demo_system ''x'') \<noteq> []"
  using no_invented_work [OF demo_system_reach, of 0 "''x''"] demo_system_facts [of "''x''"] by simp

end
