(* ===== verification/Worker.thy ===== *)
theory Worker
  imports Indexer Client_Concurrency
begin

text \<open>
  The worker of \<^verbatim>\<open>src/worker/main.go\<close>: poll, embed, upsert, complete, with one heartbeat
  goroutine per task. All goroutines share the broker client, whose calls are cut at every
  access to its fields (\<^verbatim>\<open>Client_Concurrency\<close>), and take their steps in any order: a heartbeat
  can be in flight during the embedding, the upsert, the \<open>Complete\<close> and later calls of
  \<open>Poll\<close>. The broker cluster behind the client is a state \<open>'w\<close>, as in the client library.
\<close>

section \<open>Error texts of the client\<close>

fun client_Error :: "client_error \<Rightarrow> string" where
  "client_Error NoAddresses = ''brokerclient: no broker addresses configured''"
| "client_Error (DialError addr err) = ''dial '' @ addr @ '': '' @ err"
| "client_Error (CallError err) = err"
| "client_Error (NotLeader redirect) = ''not leader (redirect to '' @ redirect @ '')''"
| "client_Error (Unreachable hops err) = ''broker cluster unreachable after '' @ Itoa hops @ '' hops: '' @ client_Error err"

text \<open>The remote methods of a broker cluster and how its addresses are dialled.\<close>

record 'w broker_rpcs =
  br_dial :: "string \<Rightarrow> string option"
  br_Submit :: "(SubmitRequest, SubmitResponse, 'w) rpc"
  br_Poll :: "(PollRequest, PollResponse, 'w) rpc"
  br_Complete :: "(CompleteRequest, CompleteResponse, 'w) rpc"
  br_Heartbeat :: "(HeartbeatRequest, HeartbeatResponse, 'w) rpc"
  br_GetResult :: "(GetResultRequest, GetResultResponse, 'w) rpc"

section \<open>Model\<close>

definition PollInterval :: int where "PollInterval = 100 * 1000000"
definition worker_HeartbeatInterval :: int where "worker_HeartbeatInterval = 3 * 1000000000"

text \<open>
  Where the main goroutine is in \<open>run\<close>'s loop: in the call of \<open>Poll\<close> with its captured
  variables, before \<open>json.Unmarshal\<close>, before \<open>Embed\<close>, before \<open>UpsertChunk\<close>, in the call of
  \<open>Complete\<close> with the error text it sends and the error that \<open>run\<close> returns afterwards (none
  when the loop goes on), or returned.
\<close>

datatype 'f main_pc =
    Polling call_pc call_locals "Task option" bool
  | Decoding Task
  | Embedding Task Chunk
  | Upserting Task Chunk "'f list"
  | Completing Task string "string option" call_pc call_locals
  | Exited string

text \<open>A heartbeat goroutine: in its \<open>select\<close>, in the call of \<open>Heartbeat\<close>, or returned.\<close>

datatype beat_pc = Waiting | Beating call_pc call_locals | Ended

record heartbeat =
  hb_task :: Task
  hb_cancelled :: bool
  hb_pc :: beat_pc

text \<open>
  The memory of the client, which all goroutines share without a lock, with the cluster
  behind it; the embedder and the index, which only the main goroutine uses; the
  goroutines; and the fatal error that has ended the process, if any.
\<close>

record ('w, 'p, 'q, 'f) worker =
  wk_mem :: "'w memory"
  wk_emb :: 'p
  wk_index :: 'q
  wk_main :: "'f main_pc"
  wk_beats :: "heartbeat list"
  wk_crash :: "crash option"

definition in_world :: "'b \<Rightarrow> 'a memory \<Rightarrow> 'b memory" where
  "in_world w m = \<lparr>me_client = me_client m, me_writing = me_writing m, me_world = w\<rparr>"

subsection \<open>The main goroutine\<close>

text \<open>The head of the loop: \<open>Poll\<close> is called.\<close>

definition worker_next :: "('w, 'p, 'q, 'f) worker \<Rightarrow> ('w, 'p, 'q, 'f) worker" where
  "worker_next s = (case call_entry (me_client (wk_mem s)) of (pc, v) \<Rightarrow> s\<lparr>wk_main := Polling pc v None False\<rparr>)"

text \<open>One step of that call.\<close>

definition worker_poll ::
  "'w broker_rpcs \<Rightarrow> string \<Rightarrow> call_pc \<Rightarrow> call_locals \<Rightarrow> Task option \<Rightarrow> bool \<Rightarrow> ('w, 'p, 'q, 'f) worker
     \<Rightarrow> ('w, 'p, 'q, 'f) worker" where
  "worker_poll br workerID pc v task ok s =
     (case call_stage (br_dial br) (poll_fn (br_Poll br) workerID) pc v (in_world (me_world (wk_mem s), task, ok) (wk_mem s)) of
        Inl c \<Rightarrow> s\<lparr>wk_crash := Some c\<rparr>
      | Inr (pc', v', m) \<Rightarrow> (case me_world m of (w, task', ok') \<Rightarrow>
          s\<lparr>wk_mem := in_world w m, wk_main := Polling pc' v' task' ok'\<rparr>))"

text \<open>
  Its result: the next iteration after an error or without a task; otherwise a heartbeat
  goroutine is started. The payload of a missing task is a nil dereference.
\<close>

definition worker_polled ::
  "client_error option \<Rightarrow> Task option \<Rightarrow> bool \<Rightarrow> ('w, 'p, 'q, 'f) worker \<Rightarrow> ('w, 'p, 'q, 'f) worker" where
  "worker_polled err polled hasTask s =
     (if err \<noteq> None then worker_next s
      else if \<not> hasTask then worker_next s
      else (case polled of
          None \<Rightarrow> s\<lparr>wk_crash := Some (Panicked NilPointer)\<rparr>
        | Some task \<Rightarrow> s\<lparr>wk_beats := wk_beats s @ [\<lparr>hb_task = task, hb_cancelled = False, hb_pc = Waiting\<rparr>],
                         wk_main := Decoding task\<rparr>))"

text \<open>\<open>cancelHB\<close> is the cancel function of the last goroutine; then \<open>Complete\<close> is called.\<close>

definition cancelHB :: "('w, 'p, 'q, 'f) worker \<Rightarrow> ('w, 'p, 'q, 'f) worker" where
  "cancelHB s =
     s\<lparr>wk_beats := (if wk_beats s = [] then [] else butlast (wk_beats s) @ [last (wk_beats s)\<lparr>hb_cancelled := True\<rparr>])\<rparr>"

definition worker_report ::
  "Task \<Rightarrow> string \<Rightarrow> string option \<Rightarrow> ('w, 'p, 'q, 'f) worker \<Rightarrow> ('w, 'p, 'q, 'f) worker" where
  "worker_report task errMsg after s =
     (case call_entry (me_client (wk_mem s)) of (pc, v) \<Rightarrow> (cancelHB s)\<lparr>wk_main := Completing task errMsg after pc v\<rparr>)"

definition worker_decode ::
  "(string \<Rightarrow> string + Chunk) \<Rightarrow> Task \<Rightarrow> ('w, 'p, 'q, 'f) worker \<Rightarrow> ('w, 'p, 'q, 'f) worker" where
  "worker_decode unmarshal task s =
     (case unmarshal (tk_Payload task) of
        Inl e \<Rightarrow> worker_report task e (Some (''decode task payload: '' @ e)) s
      | Inr c \<Rightarrow> s\<lparr>wk_main := Embedding task c\<rparr>)"

definition worker_embed ::
  "(Request \<Rightarrow> 'p \<Rightarrow> 'p \<times> (string + 'f Response)) \<Rightarrow> Task \<Rightarrow> Chunk \<Rightarrow> ('w, 'p, 'q, 'f) worker \<Rightarrow> ('w, 'p, 'q, 'f) worker" where
  "worker_embed emb task c s =
     (case emb \<lparr>rq_ChunkID = ck_ChunkID c, rq_Text = ck_Text c\<rparr> (wk_emb s) of
        (p, Inl e) \<Rightarrow> worker_report task e (Some (''embed task: '' @ e)) (s\<lparr>wk_emb := p\<rparr>)
      | (p, Inr resp) \<Rightarrow> s\<lparr>wk_emb := p, wk_main := Upserting task c (rs_Vector resp)\<rparr>)"

definition worker_upsert ::
  "('f, 'q) upsert \<Rightarrow> Task \<Rightarrow> Chunk \<Rightarrow> 'f list \<Rightarrow> ('w, 'p, 'q, 'f) worker \<Rightarrow> ('w, 'p, 'q, 'f) worker" where
  "worker_upsert client task c vector s =
     (case UpsertChunk client c vector (wk_index s) of
        (q, Some e) \<Rightarrow> worker_report task e (Some (''upsert task: '' @ e)) (s\<lparr>wk_index := q\<rparr>)
      | (q, None) \<Rightarrow> worker_report task '''' None (s\<lparr>wk_index := q\<rparr>))"

text \<open>One step of the call of \<open>Complete\<close>, and its end; its own error is logged or dropped.\<close>

definition worker_complete ::
  "'w broker_rpcs \<Rightarrow> string \<Rightarrow> Task \<Rightarrow> string \<Rightarrow> string option \<Rightarrow> call_pc \<Rightarrow> call_locals \<Rightarrow> ('w, 'p, 'q, 'f) worker
     \<Rightarrow> ('w, 'p, 'q, 'f) worker" where
  "worker_complete br workerID task errMsg after pc v s =
     (case call_stage (br_dial br)
         (complete_fn (br_Complete br) \<lparr>cq_TaskId = tk_Id task, cq_WorkerId = workerID, cq_Error = errMsg\<rparr>) pc v (wk_mem s) of
        Inl c \<Rightarrow> s\<lparr>wk_crash := Some c\<rparr>
      | Inr (pc', v', m) \<Rightarrow> s\<lparr>wk_mem := m, wk_main := Completing task errMsg after pc' v'\<rparr>)"

definition worker_completed :: "string option \<Rightarrow> ('w, 'p, 'q, 'f) worker \<Rightarrow> ('w, 'p, 'q, 'f) worker" where
  "worker_completed after s = (case after of None \<Rightarrow> worker_next s | Some e \<Rightarrow> s\<lparr>wk_main := Exited e\<rparr>)"

fun worker_step ::
  "(string \<Rightarrow> string + Chunk) \<Rightarrow> 'w broker_rpcs \<Rightarrow> (Request \<Rightarrow> 'p \<Rightarrow> 'p \<times> (string + 'f Response)) \<Rightarrow> ('f, 'q) upsert
     \<Rightarrow> string \<Rightarrow> 'f main_pc \<Rightarrow> ('w, 'p, 'q, 'f) worker \<Rightarrow> ('w, 'p, 'q, 'f) worker option" where
  "worker_step unmarshal br emb client workerID (Polling (Returned err) v task ok) s = Some (worker_polled err task ok s)"
| "worker_step unmarshal br emb client workerID (Polling pc v task ok) s = Some (worker_poll br workerID pc v task ok s)"
| "worker_step unmarshal br emb client workerID (Decoding task) s = Some (worker_decode unmarshal task s)"
| "worker_step unmarshal br emb client workerID (Embedding task c) s = Some (worker_embed emb task c s)"
| "worker_step unmarshal br emb client workerID (Upserting task c vector) s = Some (worker_upsert client task c vector s)"
| "worker_step unmarshal br emb client workerID (Completing task errMsg after (Returned err) v) s = Some (worker_completed after s)"
| "worker_step unmarshal br emb client workerID (Completing task errMsg after pc v) s =
     Some (worker_complete br workerID task errMsg after pc v s)"
| "worker_step unmarshal br emb client workerID (Exited e) s = None"

subsection \<open>The heartbeat goroutines\<close>

definition set_beat :: "nat \<Rightarrow> beat_pc \<Rightarrow> ('w, 'p, 'q, 'f) worker \<Rightarrow> ('w, 'p, 'q, 'f) worker" where
  "set_beat g pc s = s\<lparr>wk_beats := (wk_beats s)[g := (wk_beats s ! g)\<lparr>hb_pc := pc\<rparr>]\<rparr>"

text \<open>A tick: when the context is cancelled as well, \<open>select\<close> may take either.\<close>

definition worker_tick :: "nat \<Rightarrow> ('w, 'p, 'q, 'f) worker \<Rightarrow> ('w, 'p, 'q, 'f) worker option" where
  "worker_tick g s =
     (if g < length (wk_beats s) \<and> hb_pc (wk_beats s ! g) = Waiting
      then (case call_entry (me_client (wk_mem s)) of (pc, v) \<Rightarrow> Some (set_beat g (Beating pc v) s))
      else None)"

definition worker_done :: "nat \<Rightarrow> ('w, 'p, 'q, 'f) worker \<Rightarrow> ('w, 'p, 'q, 'f) worker option" where
  "worker_done g s =
     (if g < length (wk_beats s) \<and> hb_pc (wk_beats s ! g) = Waiting \<and> hb_cancelled (wk_beats s ! g)
      then Some (set_beat g Ended s) else None)"

text \<open>
  Once its context is cancelled, an attempt of \<open>Heartbeat\<close> can fail with the error of the
  context, before the request is sent or before its response is back.
\<close>

datatype cut = Whole | Unsent string | Unanswered string

fun cut_fn :: "cut \<Rightarrow> (string \<Rightarrow> 's \<Rightarrow> 's \<times> (string + string)) \<Rightarrow> string \<Rightarrow> 's \<Rightarrow> 's \<times> (string + string)" where
  "cut_fn Whole fn addr w = fn addr w"
| "cut_fn (Unsent e) fn addr w = (w, Inl e)"
| "cut_fn (Unanswered e) fn addr w = (fst (fn addr w), Inl e)"

text \<open>One step of the call of \<open>Heartbeat\<close>; its error is logged or dropped.\<close>

definition worker_beat ::
  "'w broker_rpcs \<Rightarrow> string \<Rightarrow> cut \<Rightarrow> nat \<Rightarrow> ('w, 'p, 'q, 'f) worker \<Rightarrow> ('w, 'p, 'q, 'f) worker option" where
  "worker_beat br workerID k g s =
     (if length (wk_beats s) \<le> g then None
      else let h = wk_beats s ! g in
        (case hb_pc h of
           Beating (Returned err) v \<Rightarrow> Some (set_beat g Waiting s)
         | Beating pc v \<Rightarrow>
             if k \<noteq> Whole \<and> \<not> hb_cancelled h then None
             else (case call_stage (br_dial br)
                 (cut_fn k (heartbeat_fn (br_Heartbeat br) \<lparr>hq_WorkerId = workerID, hq_TaskId = tk_Id (hb_task h)\<rparr>)) pc v (wk_mem s) of
                 Inl c \<Rightarrow> Some (s\<lparr>wk_crash := Some c\<rparr>)
               | Inr (pc', v', m) \<Rightarrow> Some (set_beat g (Beating pc' v') (s\<lparr>wk_mem := m\<rparr>)))
         | _ \<Rightarrow> None))"

subsection \<open>Interleavings\<close>

text \<open>
  Any goroutine takes its next step, at any time; the cluster moves on by itself, which is
  \<open>others k\<close> for any \<open>k\<close>; and other workers and the query server write to the index. The
  process is over when it has a fatal error; when \<open>run\<close> has returned, goroutines may still
  go on until \<open>log.Fatal\<close> ends it.
\<close>

datatype 'f worker_event =
    WMain
  | WTick nat
  | WDone nat
  | WBeat cut nat
  | WCluster nat
  | WIndexed Chunk "'f list"

fun worker_exec ::
  "(string \<Rightarrow> string + Chunk) \<Rightarrow> 'w broker_rpcs \<Rightarrow> (Request \<Rightarrow> 'p \<Rightarrow> 'p \<times> (string + 'f Response)) \<Rightarrow> ('f, 'q) upsert
     \<Rightarrow> (nat \<Rightarrow> 'w \<Rightarrow> 'w) \<Rightarrow> string \<Rightarrow> 'f worker_event \<Rightarrow> ('w, 'p, 'q, 'f) worker \<Rightarrow> ('w, 'p, 'q, 'f) worker option" where
  "worker_exec unmarshal br emb client others workerID WMain s = worker_step unmarshal br emb client workerID (wk_main s) s"
| "worker_exec unmarshal br emb client others workerID (WTick g) s = worker_tick g s"
| "worker_exec unmarshal br emb client others workerID (WDone g) s = worker_done g s"
| "worker_exec unmarshal br emb client others workerID (WBeat k g) s = worker_beat br workerID k g s"
| "worker_exec unmarshal br emb client others workerID (WCluster k) s =
     Some (s\<lparr>wk_mem := in_world (others k (me_world (wk_mem s))) (wk_mem s)\<rparr>)"
| "worker_exec unmarshal br emb client others workerID (WIndexed c vector) s =
     Some (s\<lparr>wk_index := fst (UpsertChunk client c vector (wk_index s))\<rparr>)"

fun worker_loop ::
  "(string \<Rightarrow> string + Chunk) \<Rightarrow> 'w broker_rpcs \<Rightarrow> (Request \<Rightarrow> 'p \<Rightarrow> 'p \<times> (string + 'f Response)) \<Rightarrow> ('f, 'q) upsert
     \<Rightarrow> (nat \<Rightarrow> 'w \<Rightarrow> 'w) \<Rightarrow> string \<Rightarrow> 'f worker_event list \<Rightarrow> ('w, 'p, 'q, 'f) worker \<Rightarrow> ('w, 'p, 'q, 'f) worker option" where
  "worker_loop unmarshal br emb client others workerID [] s = Some s"
| "worker_loop unmarshal br emb client others workerID (ev # evs) s =
     (if wk_crash s \<noteq> None then None
      else (case worker_exec unmarshal br emb client others workerID ev s of
              None \<Rightarrow> None
            | Some t \<Rightarrow> worker_loop unmarshal br emb client others workerID evs t))"

subsection \<open>Start-up\<close>

text \<open>
  \<open>run\<close> up to the poll loop: the error it returns, or the state the loop starts in. \<open>pid\<close>
  is the process identifier.
\<close>

definition worker_start ::
  "'p os_exec \<Rightarrow> (string \<Rightarrow> string option) \<Rightarrow> 'q collections_client \<Rightarrow> int \<Rightarrow> string list \<Rightarrow> string \<Rightarrow> string \<Rightarrow> 'w \<Rightarrow> 'q
     \<Rightarrow> string + string \<times> ('w, 'p, 'q, 'f) worker" where
  "worker_start ox dial collClient pid brokerAddrs qdrantAddr embedderCmd w q =
     (case dial qdrantAddr of
        Some err \<Rightarrow> Inl (''dial qdrant: '' @ err)
      | None \<Rightarrow>
          (case EnsureCollection collClient q of
             (q1, Some err) \<Rightarrow> Inl (''create qdrant collection: '' @ err)
           | (q1, None) \<Rightarrow>
               (case embedder_Start ox embedderCmd of
                  Inl err \<Rightarrow> Inl (''start embedder: '' @ err)
                | Inr p \<Rightarrow>
                    let c = client_New brokerAddrs
                    in Inr (''worker-'' @ Itoa pid,
                      \<lparr>wk_mem = \<lparr>me_client = c, me_writing = False, me_world = w\<rparr>, wk_emb = p, wk_index = q1,
                       wk_main = Polling (fst (call_entry c)) (snd (call_entry c)) None False, wk_beats = [], wk_crash = None\<rparr>))))"

text \<open>The command with its flags: the fatal message, or the start of the poll loop.\<close>

definition worker_main ::
  "'p os_exec \<Rightarrow> (string \<Rightarrow> string option) \<Rightarrow> 'q collections_client \<Rightarrow> int \<Rightarrow> string \<Rightarrow> string \<Rightarrow> string \<Rightarrow> 'w \<Rightarrow> 'q
     \<Rightarrow> string + string \<times> ('w, 'p, 'q, 'f) worker" where
  "worker_main ox dial collClient pid brokerAddrs qdrantAddr embedderCmd w q =
     (if embedderCmd = '''' then Inl ''--embedder is required''
      else worker_start ox dial collClient pid (Split brokerAddrs CHR '','') qdrantAddr embedderCmd w q)"

section \<open>The client never gives out\<close>

lemma Split_ne: "Split s sep \<noteq> []"
proof -
  have "split_loop sep cur s \<noteq> []" for cur by (induction s arbitrary: cur) auto
  then show ?thesis by (simp add: Split_def)
qed

lemma client_ok_New: "addrs \<noteq> [] \<Longrightarrow> client_ok (client_New addrs)"
  by (simp add: client_ok_def client_New_def)

text \<open>
  A property of the cluster that every attempt of a remote call keeps is kept by a whole
  call of the client, which returns.
\<close>

lemma call_keeps:
  assumes "client_ok c" and "\<And>a s s' r. I s \<Longrightarrow> fn a s = (s', r) \<Longrightarrow> I s'" and "I s"
  shows "\<exists>c' s' err. call dial fn c s = Inr (c', s', err) \<and> client_ok c' \<and> bc_addrs c' = bc_addrs c \<and> I s'"
proof -
  have "\<exists>c' s' res. call_loop dial fn (maxHops c) None c s = Inr (c', s', res) \<and> client_ok c' \<and>
      bc_addrs c' = bc_addrs c \<and> I s'"
    by (rule call_loop_total [where I = I, OF assms(1) _ assms(3)]) (use assms(2) in blast)
  then show ?thesis using assms(1) by (auto simp: call_def client_ok_def)
qed

section \<open>What a worker reports\<close>

text \<open>
  A cluster with a record of the tasks it served and the completions it was sent.
\<close>

datatype broker_call = Served Task | Reported CompleteRequest

definition unrecorded :: "('a, 'b, 'w) rpc \<Rightarrow> ('a, 'b, 'w \<times> broker_call list) rpc" where
  "unrecorded rpc a req = (\<lambda>(w, log). case rpc a req w of (w', r) \<Rightarrow> ((w', log), r))"

definition recorded_Poll :: "(PollRequest, PollResponse, 'w) rpc \<Rightarrow> (PollRequest, PollResponse, 'w \<times> broker_call list) rpc" where
  "recorded_Poll rpc a req = (\<lambda>(w, log). case rpc a req w of (w', r) \<Rightarrow>
     ((w', log @ (case r of Inr resp \<Rightarrow> (case pr_Task resp of Some t \<Rightarrow> [Served t] | None \<Rightarrow> []) | Inl _ \<Rightarrow> [])), r))"

definition recorded_Complete :: "(CompleteRequest, CompleteResponse, 'w) rpc \<Rightarrow> (CompleteRequest, CompleteResponse, 'w \<times> broker_call list) rpc" where
  "recorded_Complete rpc a req = (\<lambda>(w, log). case rpc a req w of (w', r) \<Rightarrow> ((w', log @ [Reported req]), r))"

definition recording :: "'w broker_rpcs \<Rightarrow> ('w \<times> broker_call list) broker_rpcs" where
  "recording br = \<lparr>br_dial = br_dial br, br_Submit = unrecorded (br_Submit br), br_Poll = recorded_Poll (br_Poll br),
     br_Complete = recorded_Complete (br_Complete br), br_Heartbeat = unrecorded (br_Heartbeat br),
     br_GetResult = unrecorded (br_GetResult br)\<rparr>"

lemma recording_simps [simp]:
  "br_dial (recording br) = br_dial br"
  "br_Poll (recording br) = recorded_Poll (br_Poll br)"
  "br_Complete (recording br) = recorded_Complete (br_Complete br)"
  "br_Heartbeat (recording br) = unrecorded (br_Heartbeat br)"
  by (simp_all add: recording_def)

text \<open>Every completion without an error is of a served task whose chunk is in the index.\<close>

definition backed :: "(string \<Rightarrow> string + Chunk) \<Rightarrow> broker_call list \<Rightarrow> (64 word \<rightharpoonup> 'f PointStruct) \<Rightarrow> bool" where
  "backed unmarshal log index \<longleftrightarrow> (\<forall>req. Reported req \<in> set log \<longrightarrow> cq_Error req = '''' \<longrightarrow>
     (\<exists>t c. Served t \<in> set log \<and> tk_Id t = cq_TaskId req \<and> unmarshal (tk_Payload t) = Inr c \<and>
        index (ChunkIDToUUID (ck_ChunkID c)) \<noteq> None))"

definition errors_have_text ::
  "(string \<Rightarrow> string + Chunk) \<Rightarrow> (Request \<Rightarrow> 'p \<Rightarrow> 'p \<times> (string + 'f Response)) \<Rightarrow> ('f, 'q) upsert \<Rightarrow> bool" where
  "errors_have_text unmarshal emb client \<longleftrightarrow> (\<forall>x. unmarshal x \<noteq> Inl '''') \<and> (\<forall>r p. snd (emb r p) \<noteq> Inl '''') \<and>
     (\<forall>r q. snd (client r q) \<noteq> Some '''')"

lemma backed_same_reports:
  "backed unmarshal log index \<Longrightarrow> set log \<subseteq> set log' \<Longrightarrow> (\<And>r. Reported r \<in> set log' \<Longrightarrow> Reported r \<in> set log) \<Longrightarrow>
    backed unmarshal log' index"
  by (fastforce simp: backed_def)

lemma backed_report:
  assumes "backed unmarshal log index" and "set log \<subseteq> set log'" and "set log' \<subseteq> insert (Reported req) (set log)"
    and "cq_Error req = '''' \<Longrightarrow> \<exists>t c. Served t \<in> set log \<and> tk_Id t = cq_TaskId req \<and> unmarshal (tk_Payload t) = Inr c \<and>
        index (ChunkIDToUUID (ck_ChunkID c)) \<noteq> None"
  shows "backed unmarshal log' index"
  unfolding backed_def
proof (intro allI impI)
  fix r
  assume r: "Reported r \<in> set log'" "cq_Error r = ''''"
  then have "\<exists>t c. Served t \<in> set log \<and> tk_Id t = cq_TaskId r \<and> unmarshal (tk_Payload t) = Inr c \<and>
      index (ChunkIDToUUID (ck_ChunkID c)) \<noteq> None"
    using assms(1,3,4) unfolding backed_def by (cases "r = req") blast+
  then show "\<exists>t c. Served t \<in> set log' \<and> tk_Id t = cq_TaskId r \<and> unmarshal (tk_Payload t) = Inr c \<and>
      index (ChunkIDToUUID (ck_ChunkID c)) \<noteq> None"
    using assms(2) by blast
qed

lemma backed_index:
  "backed unmarshal log index \<Longrightarrow> (\<And>k. index k \<noteq> None \<Longrightarrow> index' k \<noteq> None) \<Longrightarrow> backed unmarshal log index'"
  unfolding backed_def by blast

end
