(* ===== verification/Producer.thy ===== *)
theory Producer
  imports Worker
begin

text \<open>
  The producer of \<^verbatim>\<open>src/producer/main.go\<close>: one task per chunk of the corpus, then waiting
  until every task is done. The articles are those the JSON decoder yields before its
  first error. The order in which a round visits the waiting tasks is an argument, since
  Go's map iteration has none, and so is what the rest of the system does while the
  producer sleeps.
\<close>

section \<open>Model\<close>

record article =
  ar_ID :: string
  ar_Title :: string
  ar_Text :: string

record 'w producer =
  pd_client :: Client
  pd_cluster :: 'w
  pd_taskIDs :: "string list"
  pd_articleCount :: int
  pd_chunkCount :: int

definition article_chunk :: "article \<Rightarrow> int \<Rightarrow> string \<Rightarrow> Chunk" where
  "article_chunk art i passage =
     \<lparr>ck_DocID = ar_ID art, ck_ChunkID = ar_ID art @ ''-'' @ Itoa i, ck_Title = ar_Title art, ck_Text = passage\<rparr>"

text \<open>The passages of one article from number \<open>i\<close> on: the producer after, and the error that \<open>run\<close> returns.\<close>

fun submit_passages ::
  "(Chunk \<Rightarrow> string + string) \<Rightarrow> 'w broker_rpcs \<Rightarrow> article \<Rightarrow> int \<Rightarrow> string list \<Rightarrow> 'w producer \<Rightarrow> ('w producer \<times> string option) go" where
  "submit_passages marshal br art i [] s = Inr (s, None)"
| "submit_passages marshal br art i (passage # rest) s =
     (case marshal (article_chunk art i passage) of
        Inl err \<Rightarrow> Inr (s, Some (''marshal payload: '' @ err))
      | Inr payload \<Rightarrow>
          go_bind (client_Submit (br_dial br) (br_Submit br) payload (pd_client s) (pd_cluster s)) (\<lambda>(c, w, taskID, err).
            case err of
              Some e \<Rightarrow> Inr (s\<lparr>pd_client := c, pd_cluster := w\<rparr>, Some (''submit task: '' @ client_Error e))
            | None \<Rightarrow>
                submit_passages marshal br art (i + 1) rest
                  (s\<lparr>pd_client := c, pd_cluster := w, pd_taskIDs := pd_taskIDs s @ [taskID], pd_chunkCount := pd_chunkCount s + 1\<rparr>)))"

fun submit_articles ::
  "(Chunk \<Rightarrow> string + string) \<Rightarrow> 'w broker_rpcs \<Rightarrow> int \<Rightarrow> article list \<Rightarrow> 'w producer \<Rightarrow> ('w producer \<times> string option) go" where
  "submit_articles marshal br chunkSize [] s = Inr (s, None)"
| "submit_articles marshal br chunkSize (art # arts) s =
     go_bind (ChunkText (ar_Text art) chunkSize) (\<lambda>passages.
       go_bind (submit_passages marshal br art 0 passages (s\<lparr>pd_articleCount := pd_articleCount s + 1\<rparr>)) (\<lambda>(s1, err).
         case err of Some e \<Rightarrow> Inr (s1, Some e) | None \<Rightarrow> submit_articles marshal br chunkSize arts s1))"

text \<open>One round over the identifiers, in the order given.\<close>

fun wait_round :: "'w broker_rpcs \<Rightarrow> string list \<Rightarrow> string list \<Rightarrow> 'w producer \<Rightarrow> (string list \<times> 'w producer) go" where
  "wait_round br [] waiting s = Inr (waiting, s)"
| "wait_round br (tid # ids) waiting s =
     go_bind (client_GetResult (br_dial br) (br_GetResult br) tid (pd_client s) (pd_cluster s)) (\<lambda>(c, w, fin, errMsg, err).
       let s1 = s\<lparr>pd_client := c, pd_cluster := w\<rparr>
       in if err \<noteq> None then wait_round br ids waiting s1
          else if fin then wait_round br ids (removeAll tid waiting) s1
          else wait_round br ids waiting s1)"

text \<open>The rounds, from number \<open>k\<close> on; \<open>None\<close> when they never end.\<close>

partial_function (option) wait_loop ::
  "'w broker_rpcs \<Rightarrow> (nat \<Rightarrow> string list \<Rightarrow> string list) \<Rightarrow> (nat \<Rightarrow> 'w \<Rightarrow> 'w) \<Rightarrow> nat \<Rightarrow> string list \<Rightarrow> 'w producer \<Rightarrow> 'w producer go option" where
  "wait_loop br order meanwhile k waiting s =
     (if length waiting > 0 then
        (case wait_round br (order k waiting) waiting s of
           Inl p \<Rightarrow> Some (Inl p)
         | Inr (waiting', s1) \<Rightarrow>
             wait_loop br order meanwhile (k + 1) waiting'
               (if length waiting' > 0 then s1\<lparr>pd_cluster := meanwhile k (pd_cluster s1)\<rparr> else s1))
      else Some (Inr s))"

definition producer_New :: "string list \<Rightarrow> 'w \<Rightarrow> 'w producer" where
  "producer_New brokerAddrs w =
     \<lparr>pd_client = client_New brokerAddrs, pd_cluster = w, pd_taskIDs = [], pd_articleCount = 0, pd_chunkCount = 0\<rparr>"

text \<open>
  \<open>run\<close>: the error, or the line printed. \<open>openErr\<close> and \<open>gzipErr\<close> are the errors of opening
  the corpus, if any.
\<close>

definition producer_run ::
  "(Chunk \<Rightarrow> string + string) \<Rightarrow> 'w broker_rpcs \<Rightarrow> (nat \<Rightarrow> string list \<Rightarrow> string list) \<Rightarrow> (nat \<Rightarrow> 'w \<Rightarrow> 'w)
     \<Rightarrow> string option \<Rightarrow> string option \<Rightarrow> article list \<Rightarrow> string list \<Rightarrow> int \<Rightarrow> 'w \<Rightarrow> ('w producer \<times> (string + string)) go option" where
  "producer_run marshal br order meanwhile openErr gzipErr articles brokerAddrs chunkSize w =
     (let s = producer_New brokerAddrs w
      in case openErr of
           Some err \<Rightarrow> Some (Inr (s, Inl (''open corpus: '' @ err)))
         | None \<Rightarrow>
             (case gzipErr of
                Some err \<Rightarrow> Some (Inr (s, Inl (''gzip reader: '' @ err)))
              | None \<Rightarrow>
                  (case submit_articles marshal br chunkSize articles s of
                     Inl p \<Rightarrow> Some (Inl p)
                   | Inr (s1, Some err) \<Rightarrow> Some (Inr (s1, Inl err))
                   | Inr (s1, None) \<Rightarrow>
                       map_option (\<lambda>res. go_bind res (\<lambda>s2. Inr (s2, Inr
                           (''indexed '' @ Itoa (pd_chunkCount s2) @ '' chunks from '' @ Itoa (pd_articleCount s2) @ '' articles''))))
                         (wait_loop br order meanwhile 0 (remdups (pd_taskIDs s1)) s1))))"

definition producer_main ::
  "(Chunk \<Rightarrow> string + string) \<Rightarrow> 'w broker_rpcs \<Rightarrow> (nat \<Rightarrow> string list \<Rightarrow> string list) \<Rightarrow> (nat \<Rightarrow> 'w \<Rightarrow> 'w)
     \<Rightarrow> string option \<Rightarrow> string option \<Rightarrow> article list \<Rightarrow> string \<Rightarrow> int \<Rightarrow> 'w \<Rightarrow> ('w producer \<times> (string + string)) go option" where
  "producer_main marshal br order meanwhile openErr gzipErr articles brokerAddrs chunkSize w =
     producer_run marshal br order meanwhile openErr gzipErr articles (Split brokerAddrs CHR '','') chunkSize w"

section \<open>Waiting\<close>

text \<open>Whatever the cluster does, a call for a result returns.\<close>

lemma GetResult_keeps:
  assumes "client_ok c" and "\<And>a w w' r. I w \<Longrightarrow> rpc a \<lparr>gq_TaskId = tid\<rparr> w = (w', r) \<Longrightarrow> I w'" and "I w"
  shows "\<exists>c' w' fin msg err. client_GetResult dial rpc tid c w = Inr (c', w', fin, msg, err) \<and> client_ok c' \<and> I w'"
proof -
  have "\<exists>c' x err. call dial (result_fn rpc tid) c (w, False, '''') = Inr (c', x, err) \<and> client_ok c' \<and>
      bc_addrs c' = bc_addrs c \<and> I (fst x)"
    by (rule call_keeps [OF assms(1)])
      (use assms(2,3) in \<open>fastforce simp: result_fn_def split: prod.splits sum.splits\<close>)+
  then show ?thesis by (fastforce simp: client_GetResult_def)
qed

text \<open>A task that no node ever reports as done.\<close>

definition never_done :: "'w broker_rpcs \<Rightarrow> string \<Rightarrow> bool" where
  "never_done br tid \<longleftrightarrow> (\<forall>a w w' resp. br_GetResult br a \<lparr>gq_TaskId = tid\<rparr> w = (w', Inr resp) \<longrightarrow> \<not> gr_Done resp)"

lemma GetResult_never:
  assumes "client_ok c" and "never_done br tid"
    and "client_GetResult dial (br_GetResult br) tid c w = Inr (c', w', fin, msg, err)"
  shows "\<not> fin"
proof -
  have "\<exists>c' x err. call dial (result_fn (br_GetResult br) tid) c (w, False, '''') = Inr (c', x, err) \<and> client_ok c' \<and>
      bc_addrs c' = bc_addrs c \<and> (\<lambda>(w, fin, msg). \<not> fin) x"
    by (rule call_keeps [OF assms(1)])
      (use assms(2) in \<open>fastforce simp: result_fn_def never_done_def split: prod.splits sum.splits\<close>)+
  then show ?thesis using assms(3) by (fastforce simp: client_GetResult_def)
qed

lemma GetResult_returns:
  "client_ok c \<Longrightarrow> \<exists>c' w' fin msg err. client_GetResult dial rpc tid c w = Inr (c', w', fin, msg, err) \<and> client_ok c'"
  using GetResult_keeps [of c "\<lambda>_. True" rpc tid w dial] by simp

lemma wait_round_returns:
  "client_ok (pd_client s) \<Longrightarrow> \<exists>waiting' s'. wait_round br ids waiting s = Inr (waiting', s') \<and> client_ok (pd_client s') \<and>
    set waiting' \<subseteq> set waiting \<and> (\<forall>tid \<in> set waiting. never_done br tid \<longrightarrow> tid \<in> set waiting')"
proof (induction ids arbitrary: waiting s)
  case (Cons i ids)
  obtain c w fin msg err where r: "client_GetResult (br_dial br) (br_GetResult br) i (pd_client s) (pd_cluster s) = Inr (c, w, fin, msg, err)"
    and ok: "client_ok c"
    using GetResult_returns [OF Cons.prems, of "br_dial br" "br_GetResult br" i "pd_cluster s"] by (elim exE conjE) (rule that)
  have IH: "\<exists>waiting' s'. wait_round br ids p (s\<lparr>pd_client := c, pd_cluster := w\<rparr>) = Inr (waiting', s') \<and> client_ok (pd_client s') \<and>
      set waiting' \<subseteq> set p \<and> (\<forall>tid \<in> set p. never_done br tid \<longrightarrow> tid \<in> set waiting')" for p
    using Cons.IH [of "s\<lparr>pd_client := c, pd_cluster := w\<rparr>" p] ok by simp
  show ?case
  proof (cases "err = None \<and> fin")
    case True
    then have "\<not> never_done br i" using GetResult_never [OF Cons.prems _ r] by blast
    then show ?thesis using IH [of "removeAll i waiting"] r True by (fastforce simp: Let_def)
  next
    case False
    then show ?thesis using IH [of waiting] r by (auto simp: Let_def)
  qed
qed auto

text \<open>Any fact that a round carries from the state before it to the state after it, and that the
  end of the loop gives, holds of a loop that returns.\<close>

lemma wait_loop_rule [consumes 1, case_names fin round panic]:
  assumes ret: "wait_loop br order meanwhile k waiting s = Some r"
    and fin: "\<And>k waiting s. waiting = [] \<Longrightarrow> P k waiting s (Inr s)"
    and round: "\<And>k waiting s waiting' s1 r. wait_round br (order k waiting) waiting s = Inr (waiting', s1) \<Longrightarrow>
      P (k + 1) waiting' (if length waiting' > 0 then s1\<lparr>pd_cluster := meanwhile k (pd_cluster s1)\<rparr> else s1) r \<Longrightarrow>
      P k waiting s r"
    and panic: "\<And>k waiting s p. wait_round br (order k waiting) waiting s = Inl p \<Longrightarrow> P k waiting s (Inl p)"
  shows "P k waiting s r"
proof -
  have "br' = br \<and> order' = order \<and> meanwhile' = meanwhile \<longrightarrow> P k waiting s r"
    if "wait_loop br' order' meanwhile' k waiting s = Some r" for br' order' meanwhile' k waiting s r
    using that
  proof (rule wait_loop.raw_induct [rotated])
    fix f :: "'a broker_rpcs \<Rightarrow> (nat \<Rightarrow> string list \<Rightarrow> string list) \<Rightarrow> (nat \<Rightarrow> 'a \<Rightarrow> 'a) \<Rightarrow> nat \<Rightarrow> string list \<Rightarrow> 'a producer \<Rightarrow> 'a producer go option"
    fix br' order' meanwhile' k waiting s r
    assume IH: "\<And>br' order' meanwhile' k waiting s r. f br' order' meanwhile' k waiting s = Some r \<Longrightarrow>
        br' = br \<and> order' = order \<and> meanwhile' = meanwhile \<longrightarrow> P k waiting s r"
      and body: "(if 0 < length waiting then
          (case wait_round br' (order' k waiting) waiting s of
             Inl p \<Rightarrow> Some (Inl p)
           | Inr (waiting', s1) \<Rightarrow> f br' order' meanwhile' (k + 1) waiting'
               (if 0 < length waiting' then s1\<lparr>pd_cluster := meanwhile' k (pd_cluster s1)\<rparr> else s1))
        else Some (Inr s)) = Some r"
    show "br' = br \<and> order' = order \<and> meanwhile' = meanwhile \<longrightarrow> P k waiting s r"
    proof (intro impI)
      assume eq: "br' = br \<and> order' = order \<and> meanwhile' = meanwhile"
      show "P k waiting s r"
      proof (cases "waiting = []")
        case True
        then show ?thesis using body fin by auto
      next
        case False
        show ?thesis
        proof (cases "wait_round br (order k waiting) waiting s")
          case (Inl p)
          then show ?thesis using body False eq panic [OF Inl] by simp
        next
          case (Inr x)
          then obtain waiting' s1 where x: "wait_round br (order k waiting) waiting s = Inr (waiting', s1)" by (cases x) auto
          then have "f br' order' meanwhile' (k + 1) waiting'
              (if 0 < length waiting' then s1\<lparr>pd_cluster := meanwhile' k (pd_cluster s1)\<rparr> else s1) = Some r"
            using body False eq by simp
          from IH [OF this] have "P (k + 1) waiting'
              (if 0 < length waiting' then s1\<lparr>pd_cluster := meanwhile' k (pd_cluster s1)\<rparr> else s1) r" using eq by blast
          moreover have "meanwhile' = meanwhile" using eq by blast
          ultimately show ?thesis using round [OF x, of r] by (simp only:)
        qed
      qed
    qed
  qed
  then show ?thesis using ret by blast
qed

lemma wait_never_ends:
  assumes "client_ok (pd_client s)" and "tid \<in> set waiting" and "never_done br tid"
  shows "wait_loop br order meanwhile k waiting s = None"
proof (rule ccontr)
  assume "wait_loop br order meanwhile k waiting s \<noteq> None"
  then obtain r where "wait_loop br order meanwhile k waiting s = Some r" by blast
  then have "\<not> (client_ok (pd_client s) \<and> tid \<in> set waiting)"
  proof (induction rule: wait_loop_rule)
    case (round k waiting s waiting' s1 r)
    then show ?case using wait_round_returns [of s br "order k waiting" waiting] assms(3) by fastforce
  next
    case (panic k waiting s p)
    then show ?case using wait_round_returns [of s br "order k waiting" waiting] by fastforce
  qed simp
  then show False using assms(1,2) by simp
qed

text \<open>
  A cluster that has settled answers every question about the tasks with done, and stays
  settled; round \<open>K\<close> leaves the cluster settled.
\<close>

definition settles :: "'w broker_rpcs \<Rightarrow> (nat \<Rightarrow> 'w \<Rightarrow> 'w) \<Rightarrow> ('w \<Rightarrow> bool) \<Rightarrow> nat \<Rightarrow> string list \<Rightarrow> bool" where
  "settles br meanwhile settled K ids \<longleftrightarrow>
     (\<forall>a. br_dial br a = None) \<and>
     (\<forall>a tid w. tid \<in> set ids \<longrightarrow> settled w \<longrightarrow>
       (\<exists>w' resp. br_GetResult br a \<lparr>gq_TaskId = tid\<rparr> w = (w', Inr resp) \<and> gr_Done resp \<and> settled w')) \<and>
     (\<forall>k w. settled w \<longrightarrow> settled (meanwhile k w)) \<and> (\<forall>w. settled (meanwhile K w))"

lemma GetResult_settled:
  assumes "client_ok c" and "settles br meanwhile settled K ids" and "tid \<in> set ids" and "settled w"
  shows "\<exists>c' w' msg. client_GetResult (br_dial br) (br_GetResult br) tid c w = Inr (c', w', True, msg, None) \<and> client_ok c' \<and> settled w'"
proof -
  let ?a = "bc_addrs c ! nat (bc_current c)"
  obtain w' resp where rpc: "br_GetResult br ?a \<lparr>gq_TaskId = tid\<rparr> w = (w', Inr resp)" "gr_Done resp" "settled w'"
    using assms(2-4) by (auto simp: settles_def) metis
  have "\<exists>c'. call (br_dial br) (result_fn (br_GetResult br) tid) c (w, False, '''') = Inr (c', (w', True, gr_Error resp), None)"
    by (rule call_empty_redirect [OF assms(1)]) (use assms(2) rpc in \<open>auto simp: settles_def result_fn_def\<close>)
  moreover have "\<exists>c' x err. call (br_dial br) (result_fn (br_GetResult br) tid) c (w, False, '''') = Inr (c', x, err) \<and> client_ok c' \<and>
      bc_addrs c' = bc_addrs c \<and> True"
    by (rule call_keeps [OF assms(1)]) simp_all
  ultimately show ?thesis using rpc(3) by (auto simp: client_GetResult_def)
qed

lemma wait_round_settled:
  assumes "settles br meanwhile settled K ids"
  shows "client_ok (pd_client s) \<Longrightarrow> settled (pd_cluster s) \<Longrightarrow> set xs \<subseteq> set ids \<Longrightarrow>
    \<exists>s'. wait_round br xs waiting s = Inr (filter (\<lambda>t. t \<notin> set xs) waiting, s')"
proof (induction xs arbitrary: waiting s)
  case (Cons x xs)
  from GetResult_settled [OF Cons.prems(1) assms _ Cons.prems(2), of x] Cons.prems(3) obtain c w msg where
      r: "client_GetResult (br_dial br) (br_GetResult br) x (pd_client s) (pd_cluster s) = Inr (c, w, True, msg, None)"
      "client_ok c" "settled w" by auto
  have "\<exists>s'. wait_round br xs (removeAll x waiting) (s\<lparr>pd_client := c, pd_cluster := w\<rparr>) =
      Inr (filter (\<lambda>t. t \<notin> set xs) (removeAll x waiting), s')"
    using Cons.IH [of "s\<lparr>pd_client := c, pd_cluster := w\<rparr>" "removeAll x waiting"] r Cons.prems(3) by simp
  moreover have "filter (\<lambda>t. t \<notin> set xs) (removeAll x waiting) = filter (\<lambda>t. t \<notin> set (x # xs)) waiting"
    by (induction waiting) auto
  ultimately show ?case using r(1) by (simp add: Let_def)
qed simp

lemma wait_settled:
  assumes "settles br meanwhile settled K ids" and "\<And>k xs. set (order k xs) = set xs"
    and "client_ok (pd_client s)" and "settled (pd_cluster s)" and "set waiting \<subseteq> set ids"
  shows "\<exists>s'. wait_loop br order meanwhile k waiting s = Some (Inr s')"
proof (cases "waiting = []")
  case True
  then show ?thesis by (simp add: wait_loop.simps)
next
  case False
  have "\<exists>s'. wait_round br (order k waiting) waiting s = Inr (filter (\<lambda>t. t \<notin> set (order k waiting)) waiting, s')"
    by (rule wait_round_settled [OF assms(1,3,4)]) (simp add: assms(2,5))
  then obtain s1 where r: "wait_round br (order k waiting) waiting s = Inr ([], s1)" by (auto simp: assms(2))
  have "wait_loop br order meanwhile (k + 1) [] s1 = Some (Inr s1)" by (simp add: wait_loop.simps)
  then show ?thesis using False r by (subst wait_loop.simps) simp
qed

lemma wait_returns:
  assumes "settles br meanwhile settled K ids" and "\<And>k xs. set (order k xs) = set xs"
  shows "k \<le> K \<Longrightarrow> client_ok (pd_client s) \<Longrightarrow> set waiting \<subseteq> set ids \<Longrightarrow> \<exists>s'. wait_loop br order meanwhile k waiting s = Some (Inr s')"
proof (induction "K - k" arbitrary: k waiting s rule: less_induct)
  case less
  obtain waiting' s1 where r: "wait_round br (order k waiting) waiting s = Inr (waiting', s1)" "client_ok (pd_client s1)"
      "set waiting' \<subseteq> set waiting"
    using wait_round_returns [OF less.prems(2)] by blast
  let ?s1 = "if length waiting' > 0 then s1\<lparr>pd_cluster := meanwhile k (pd_cluster s1)\<rparr> else s1"
  have "\<exists>s'. wait_loop br order meanwhile (k + 1) waiting' ?s1 = Some (Inr s')"
  proof (cases "waiting' \<noteq> [] \<and> k < K")
    case True
    then have "K - (k + 1) < K - k" by arith
    from less.hyps [OF this, of ?s1 waiting'] True show ?thesis using order_trans [OF r(3) less.prems(3)] r(2) by simp
  next
    case False
    show ?thesis
    proof (cases "waiting' = []")
      case True
      then show ?thesis by (simp add: wait_loop.simps)
    next
      case ne: False
      then have "settled (pd_cluster ?s1)" using False less.prems(1) assms(1) by (simp add: settles_def)
      then show ?thesis by (rule wait_settled [OF assms(1,2) _ _ order_trans [OF r(3) less.prems(3)], rotated]) (simp add: r(2))
    qed
  qed
  then show ?case
    using r(1) wait_loop.simps [of br order meanwhile k waiting s] by (cases "waiting = []") simp_all
qed


section \<open>What the producer has when it returns\<close>

text \<open>A cluster with a record of the tasks it accepted and the tasks it reported done.\<close>

datatype producer_call = Accepted string string | Finished string

definition recorded_Submit :: "(SubmitRequest, SubmitResponse, 'w) rpc \<Rightarrow> (SubmitRequest, SubmitResponse, 'w \<times> producer_call list) rpc" where
  "recorded_Submit rpc a req = (\<lambda>(w, log). case rpc a req w of (w', r) \<Rightarrow>
     ((w', log @ (case r of Inr resp \<Rightarrow> (if sr_Ok resp then [Accepted (sq_Payload req) (sr_TaskId resp)] else []) | Inl _ \<Rightarrow> [])), r))"

definition recorded_GetResult :: "(GetResultRequest, GetResultResponse, 'w) rpc \<Rightarrow> (GetResultRequest, GetResultResponse, 'w \<times> producer_call list) rpc" where
  "recorded_GetResult rpc a req = (\<lambda>(w, log). case rpc a req w of (w', r) \<Rightarrow>
     ((w', log @ (case r of Inr resp \<Rightarrow> (if gr_Done resp then [Finished (gq_TaskId req)] else []) | Inl _ \<Rightarrow> [])), r))"

definition watching :: "'w broker_rpcs \<Rightarrow> ('w \<times> producer_call list) broker_rpcs" where
  "watching br = \<lparr>br_dial = br_dial br, br_Submit = recorded_Submit (br_Submit br),
     br_Poll = (\<lambda>a req (w, log). case br_Poll br a req w of (w', r) \<Rightarrow> ((w', log), r)),
     br_Complete = (\<lambda>a req (w, log). case br_Complete br a req w of (w', r) \<Rightarrow> ((w', log), r)),
     br_Heartbeat = (\<lambda>a req (w, log). case br_Heartbeat br a req w of (w', r) \<Rightarrow> ((w', log), r)),
     br_GetResult = recorded_GetResult (br_GetResult br)\<rparr>"

lemma watching_simps [simp]:
  "br_dial (watching br) = br_dial br"
  "br_Submit (watching br) = recorded_Submit (br_Submit br)"
  "br_GetResult (watching br) = recorded_GetResult (br_GetResult br)"
  by (simp_all add: watching_def)

abbreviation pd_log :: "('w \<times> producer_call list) producer \<Rightarrow> producer_call list" where
  "pd_log s \<equiv> snd (pd_cluster s)"

lemma Submit_recorded:
  assumes "client_ok c"
  shows "\<exists>c' wl' tid err. client_Submit dial (recorded_Submit rpc) payload c wl = Inr (c', wl', tid, err) \<and> client_ok c' \<and>
    set (snd wl) \<subseteq> set (snd wl') \<and> (tid = '''' \<or> Accepted payload tid \<in> set (snd wl'))"
proof -
  let ?I = "\<lambda>(x, tid). set (snd wl) \<subseteq> set (snd x) \<and> (tid = '''' \<or> Accepted payload tid \<in> set (snd x))"
  have "\<exists>c' x err. call dial (submit_fn (recorded_Submit rpc) payload) c (wl, '''') = Inr (c', x, err) \<and> client_ok c' \<and>
      bc_addrs c' = bc_addrs c \<and> ?I x"
  proof (rule call_keeps [OF assms])
    fix a x x' r
    assume "?I x" "submit_fn (recorded_Submit rpc) payload a x = (x', r)"
    then show "?I x'" by (fastforce simp: submit_fn_def recorded_Submit_def split: prod.splits sum.splits if_splits)
  qed simp
  then show ?thesis by (fastforce simp: client_Submit_def)
qed

lemma GetResult_recorded:
  assumes "client_ok c"
  shows "\<exists>c' wl' fin msg err. client_GetResult dial (recorded_GetResult rpc) tid c wl = Inr (c', wl', fin, msg, err) \<and> client_ok c' \<and>
    set (snd wl) \<subseteq> set (snd wl') \<and> (fin \<longrightarrow> Finished tid \<in> set (snd wl'))"
proof -
  let ?I = "\<lambda>(x, fin, msg :: string). set (snd wl) \<subseteq> set (snd x) \<and> (fin \<longrightarrow> Finished tid \<in> set (snd x))"
  have "\<exists>c' x err. call dial (result_fn (recorded_GetResult rpc) tid) c (wl, False, '''') = Inr (c', x, err) \<and> client_ok c' \<and>
      bc_addrs c' = bc_addrs c \<and> ?I x"
  proof (rule call_keeps [OF assms])
    fix a x x' r
    assume "?I x" "result_fn (recorded_GetResult rpc) tid a x = (x', r)"
    then show "?I x'" by (fastforce simp: result_fn_def recorded_GetResult_def split: prod.splits sum.splits if_splits)
  qed simp
  then show ?thesis by (fastforce simp: client_GetResult_def)
qed

subsection \<open>Waiting\<close>

text \<open>A round keeps the task list and drops a task only after it was reported done.\<close>

definition same_job :: "'w producer \<Rightarrow> 'w producer \<Rightarrow> bool" where
  "same_job s s' \<longleftrightarrow> pd_taskIDs s' = pd_taskIDs s \<and> pd_chunkCount s' = pd_chunkCount s \<and> pd_articleCount s' = pd_articleCount s"

lemma wait_round_recorded:
  "client_ok (pd_client s) \<Longrightarrow> wait_round (watching br) ids waiting s = Inr (waiting', s') \<Longrightarrow>
    client_ok (pd_client s') \<and> same_job s s' \<and> set (pd_log s) \<subseteq> set (pd_log s') \<and>
    (\<forall>t \<in> set waiting. t \<in> set waiting' \<or> Finished t \<in> set (pd_log s'))"
proof (induction ids arbitrary: waiting s)
  case (Cons i ids)
  obtain c wl fin msg err where r: "client_GetResult (br_dial br) (recorded_GetResult (br_GetResult br)) i (pd_client s) (pd_cluster s) =
      Inr (c, wl, fin, msg, err)" "client_ok c" "set (pd_log s) \<subseteq> set (snd wl)" "fin \<longrightarrow> Finished i \<in> set (snd wl)"
    using GetResult_recorded [OF Cons.prems(1)] by blast
  let ?s1 = "s\<lparr>pd_client := c, pd_cluster := wl\<rparr>"
  have IH: "client_ok (pd_client s') \<and> same_job ?s1 s' \<and> set (snd wl) \<subseteq> set (pd_log s') \<and>
      (\<forall>t \<in> set p. t \<in> set waiting' \<or> Finished t \<in> set (pd_log s'))"
    if "wait_round (watching br) ids p ?s1 = Inr (waiting', s')" for p
    using Cons.IH [OF _ that] r(2) by simp
  show ?case
  proof (cases "err = None \<and> fin")
    case True
    then have "wait_round (watching br) ids (removeAll i waiting) ?s1 = Inr (waiting', s')"
      using Cons.prems(2) r(1) by (simp add: Let_def)
    from IH [OF this] show ?thesis using r(3,4) True by (auto simp: same_job_def)
  next
    case False
    then have "wait_round (watching br) ids waiting ?s1 = Inr (waiting', s')"
      using Cons.prems(2) r(1) by (auto simp: Let_def split: if_splits)
    from IH [OF this] show ?thesis using r(3) by (auto simp: same_job_def)
  qed
qed (auto simp: same_job_def)

lemma wait_loop_recorded:
  assumes "wait_loop (watching br) order (\<lambda>k. apfst (meanwhile k)) k waiting s = Some r"
  shows "client_ok (pd_client s) \<longrightarrow> (\<forall>s'. r = Inr s' \<longrightarrow> same_job s s' \<and> set (pd_log s) \<subseteq> set (pd_log s') \<and>
    (\<forall>t \<in> set waiting. Finished t \<in> set (pd_log s')))"
  using assms
proof (induction rule: wait_loop_rule)
  case (fin k waiting s)
  then show ?case by (simp add: same_job_def)
next
  case (round k waiting s waiting' s1 r)
  let ?s2 = "if length waiting' > 0 then s1\<lparr>pd_cluster := apfst (meanwhile k) (pd_cluster s1)\<rparr> else s1"
  show ?case
  proof (intro impI allI)
    fix s'
    assume ok: "client_ok (pd_client s)" and r: "r = Inr s'"
    note one = wait_round_recorded [OF ok round(1)]
    have s2: "client_ok (pd_client ?s2)" "same_job s1 ?s2" "pd_log ?s2 = pd_log s1" using one by (simp_all add: same_job_def)
    then have "same_job ?s2 s'" "set (pd_log s1) \<subseteq> set (pd_log s')" "\<forall>t \<in> set waiting'. Finished t \<in> set (pd_log s')"
      using round(2) r by auto
    moreover from this(1) have "same_job s s'" using one s2(2) by (simp only: same_job_def)
    ultimately show "same_job s s' \<and> set (pd_log s) \<subseteq> set (pd_log s') \<and> (\<forall>t \<in> set waiting. Finished t \<in> set (pd_log s'))"
      using one by blast
  qed
qed simp


subsection \<open>Submitting\<close>

text \<open>The chunks of the corpus, in the order the producer submits them.\<close>

definition article_chunks :: "int \<Rightarrow> article \<Rightarrow> Chunk list" where
  "article_chunks n art =
     (case ChunkText (ar_Text art) n of
        Inr ps \<Rightarrow> map (\<lambda>j. article_chunk art (int j) (ps ! j)) [0..<length ps]
      | Inl _ \<Rightarrow> [])"

definition corpus_chunks :: "int \<Rightarrow> article list \<Rightarrow> Chunk list" where
  "corpus_chunks n arts = concat (map (article_chunks n) arts)"

text \<open>The tasks so far stand for the payloads so far.\<close>

definition submitted :: "string list \<Rightarrow> ('w \<times> producer_call list) producer \<Rightarrow> bool" where
  "submitted payloads s \<longleftrightarrow> client_ok (pd_client s) \<and> pd_chunkCount s = int (length payloads) \<and>
     list_all2 (\<lambda>tid pl. tid = '''' \<or> Accepted pl tid \<in> set (pd_log s)) (pd_taskIDs s) payloads"

lemma submitted_more:
  assumes "submitted payloads s" and "client_ok c" and "set (pd_log s) \<subseteq> set (snd wl)" and "tid = '''' \<or> Accepted pl tid \<in> set (snd wl)"
  shows "submitted (payloads @ [pl])
    (s\<lparr>pd_client := c, pd_cluster := wl, pd_taskIDs := pd_taskIDs s @ [tid], pd_chunkCount := pd_chunkCount s + 1\<rparr>)"
proof -
  have "list_all2 (\<lambda>tid pl. tid = '''' \<or> Accepted pl tid \<in> set (snd wl)) (pd_taskIDs s) payloads"
    using assms(1,3) unfolding submitted_def by (blast intro: list_all2_mono)
  then show ?thesis using assms by (simp add: submitted_def list_all2_appendI)
qed

lemma submit_passages_recorded:
  assumes "submitted payloads s" and "submit_passages marshal (watching br) art i ps s = Inr (s', None)"
  shows "\<exists>pls. map marshal (map (\<lambda>j. article_chunk art (i + int j) (ps ! j)) [0..<length ps]) = map Inr pls \<and>
    submitted (payloads @ pls) s' \<and> pd_articleCount s' = pd_articleCount s"
  using assms
proof (induction ps arbitrary: i payloads s)
  case (Cons p ps)
  obtain pl where pl: "marshal (article_chunk art i p) = Inr pl" using Cons.prems(2) by (auto split: sum.splits)
  have ok: "client_ok (pd_client s)" using Cons.prems(1) by (simp add: submitted_def)
  obtain c wl tid err where r: "client_Submit (br_dial br) (recorded_Submit (br_Submit br)) pl (pd_client s) (pd_cluster s) = Inr (c, wl, tid, err)"
      "client_ok c" "set (pd_log s) \<subseteq> set (snd wl)" "tid = '''' \<or> Accepted pl tid \<in> set (snd wl)"
    using Submit_recorded [OF ok] by blast
  have "err = None" using Cons.prems(2) pl r(1) by (cases err) auto
  then have next_: "submit_passages marshal (watching br) art (i + 1) ps
      (s\<lparr>pd_client := c, pd_cluster := wl, pd_taskIDs := pd_taskIDs s @ [tid], pd_chunkCount := pd_chunkCount s + 1\<rparr>) = Inr (s', None)"
    using Cons.prems(2) pl r(1) by simp
  from Cons.IH [OF submitted_more [OF Cons.prems(1) r(2-4)] next_] obtain pls where
      pls: "map marshal (map (\<lambda>j. article_chunk art (i + 1 + int j) (ps ! j)) [0..<length ps]) = map Inr pls"
        "submitted ((payloads @ [pl]) @ pls) s'" "pd_articleCount s' = pd_articleCount s" by auto
  have "[0..<length (p # ps)] = 0 # map Suc [0..<length ps]" by (simp add: upt_conv_Cons map_Suc_upt del: upt_Suc)
  then have "map marshal (map (\<lambda>j. article_chunk art (i + int j) ((p # ps) ! j)) [0..<length (p # ps)]) = map Inr (pl # pls)"
    using pl pls(1) by (simp add: add.assoc comp_def del: upt_Suc)
  then show ?case using pls(2,3) by (intro exI [of _ "pl # pls"]) simp
qed simp

lemma submit_articles_recorded:
  assumes "submitted payloads s" and "submit_articles marshal (watching br) n arts s = Inr (s', None)"
  shows "\<exists>pls. map marshal (corpus_chunks n arts) = map Inr pls \<and> submitted (payloads @ pls) s' \<and>
    pd_articleCount s' = pd_articleCount s + int (length arts)"
  using assms
proof (induction arts arbitrary: payloads s)
  case (Cons art arts)
  obtain ps where ps: "ChunkText (ar_Text art) n = Inr ps" by (simp add: ChunkText_eq)
  let ?s1 = "s\<lparr>pd_articleCount := pd_articleCount s + 1\<rparr>"
  obtain s1 where one: "submit_passages marshal (watching br) art 0 ps ?s1 = Inr (s1, None)"
      and rest: "submit_articles marshal (watching br) n arts s1 = Inr (s', None)"
    using Cons.prems(2) ps by (auto elim!: go_bind_InrE split: option.splits)
  have "submitted payloads ?s1" using Cons.prems(1) by (simp add: submitted_def)
  from submit_passages_recorded [OF this one] obtain pls where
      pls: "map marshal (article_chunks n art) = map Inr pls" "submitted (payloads @ pls) s1" "pd_articleCount s1 = pd_articleCount s + 1"
    by (auto simp: article_chunks_def ps)
  from Cons.IH [OF pls(2) rest] obtain more where
      "map marshal (corpus_chunks n arts) = map Inr more" "submitted ((payloads @ pls) @ more) s'"
      "pd_articleCount s' = pd_articleCount s1 + int (length arts)" by blast
  then show ?case using pls by (intro exI [of _ "pls @ more"]) (simp add: corpus_chunks_def)
qed (simp add: corpus_chunks_def)

end
