(* ===== verification/Worker_Runs.thy ===== *)
theory Worker_Runs
  imports Worker
begin

text \<open>
  What every interleaving of a worker's goroutines keeps: a completion without an error
  text is only sent for a served task whose chunk is in the index, nothing panics, and
  each iteration of the poll loop ends after a bounded number of its own steps.
\<close>

section \<open>Steps of a call\<close>

abbreviation wk_log :: "('w \<times> broker_call list, 'p, 'q, 'f) worker \<Rightarrow> broker_call list" where
  "wk_log s \<equiv> snd (me_world (wk_mem s))"

lemma in_world_simps [simp]:
  "me_client (in_world w m) = me_client m" "me_writing (in_world w m) = me_writing m" "me_world (in_world w m) = w"
  "memory_ok c (in_world w m) = memory_ok c m"
  by (simp_all add: in_world_def memory_ok_def)

text \<open>Only the attempt itself touches the cluster.\<close>

lemma call_stage_world:
  "call_stage dial fn pc v m = Inr (pc', v', m') \<Longrightarrow>
    me_world m' = me_world m \<or> (\<exists>a. pc = AtCall a \<and> me_world m' = fst (fn a (me_world m)))"
  by (cases "(dial, fn, pc, v, m)" rule: call_stage.cases)
    (auto simp: Let_def split: nat.splits sum.splits option.splits prod.splits if_splits)

lemma call_entry_ok: "pc_ok addrs (fst (call_entry c))"
  by (simp add: call_entry_def)

lemma set_beats_update: "h \<in> set (bs[g := x]) \<Longrightarrow> h = x \<or> h \<in> set bs"
  using set_update_subset_insert [of bs g x] by blast

lemma set_beat_simps [simp]:
  "wk_mem (set_beat g pc s) = wk_mem s" "wk_emb (set_beat g pc s) = wk_emb s" "wk_index (set_beat g pc s) = wk_index s"
  "wk_main (set_beat g pc s) = wk_main s" "wk_crash (set_beat g pc s) = wk_crash s"
  "(wk_beats (set_beat g pc s) = []) = (wk_beats s = [])"
  by (simp_all add: set_beat_def)

lemma cancelHB_simps [simp]:
  "wk_mem (cancelHB s) = wk_mem s" "wk_emb (cancelHB s) = wk_emb s" "wk_index (cancelHB s) = wk_index s"
  "wk_main (cancelHB s) = wk_main s" "wk_crash (cancelHB s) = wk_crash s" "(wk_beats (cancelHB s) = []) = (wk_beats s = [])"
  by (simp_all add: cancelHB_def)

section \<open>What the goroutines know\<close>

fun main_ok ::
  "(string \<Rightarrow> string + Chunk) \<Rightarrow> string list \<Rightarrow> broker_call list \<Rightarrow> (64 word \<rightharpoonup> 'f PointStruct) \<Rightarrow> 'f main_pc \<Rightarrow> bool" where
  "main_ok unmarshal addrs log index (Polling pc v task ok) \<longleftrightarrow> pc_ok addrs pc \<and> (\<forall>t. task = Some t \<longrightarrow> Served t \<in> set log)"
| "main_ok unmarshal addrs log index (Decoding t) \<longleftrightarrow> Served t \<in> set log"
| "main_ok unmarshal addrs log index (Embedding t c) \<longleftrightarrow> Served t \<in> set log \<and> unmarshal (tk_Payload t) = Inr c"
| "main_ok unmarshal addrs log index (Upserting t c v) \<longleftrightarrow> Served t \<in> set log \<and> unmarshal (tk_Payload t) = Inr c"
| "main_ok unmarshal addrs log index (Completing t msg after pc v) \<longleftrightarrow> pc_ok addrs pc \<and> (msg = '''' \<longrightarrow> Served t \<in> set log \<and>
     (\<exists>c. unmarshal (tk_Payload t) = Inr c \<and> index (ChunkIDToUUID (ck_ChunkID c)) \<noteq> None))"
| "main_ok unmarshal addrs log index (Exited e) \<longleftrightarrow> True"

lemma main_ok_mono:
  assumes "main_ok unmarshal addrs log index pc" and "set log \<subseteq> set log'" and "\<And>k. index k \<noteq> None \<Longrightarrow> index' k \<noteq> None"
  shows "main_ok unmarshal addrs log' index' pc"
  using assms by (cases pc) fastforce+

fun beat_ok :: "string list \<Rightarrow> beat_pc \<Rightarrow> bool" where
  "beat_ok addrs (Beating pc v) \<longleftrightarrow> pc_ok addrs pc"
| "beat_ok addrs Waiting \<longleftrightarrow> True"
| "beat_ok addrs Ended \<longleftrightarrow> True"

definition beats_ok :: "string list \<Rightarrow> heartbeat list \<Rightarrow> bool" where
  "beats_ok addrs bs \<longleftrightarrow> (\<forall>h \<in> set bs. beat_ok addrs (hb_pc h))"

lemma beats_ok_set_beat:
  "beats_ok addrs (wk_beats s) \<Longrightarrow> beat_ok addrs pc \<Longrightarrow> beats_ok addrs (wk_beats (set_beat g pc s))"
  by (auto simp: beats_ok_def set_beat_def dest!: set_beats_update)

lemma beats_ok_cancelHB: "beats_ok addrs (wk_beats s) \<Longrightarrow> beats_ok addrs (wk_beats (cancelHB s))"
  by (auto simp: beats_ok_def cancelHB_def dest: in_set_butlastD)

definition worker_inv ::
  "(string \<Rightarrow> string + Chunk) \<Rightarrow> ('q \<Rightarrow> 64 word \<rightharpoonup> 'f PointStruct) \<Rightarrow> Client
     \<Rightarrow> ('w \<times> broker_call list, 'p, 'q, 'f) worker \<Rightarrow> bool" where
  "worker_inv unmarshal look c s \<longleftrightarrow> memory_ok c (wk_mem s) \<and> beats_ok (bc_addrs c) (wk_beats s) \<and>
     backed unmarshal (wk_log s) (look (wk_index s)) \<and>
     main_ok unmarshal (bc_addrs c) (wk_log s) (look (wk_index s)) (wk_main s)"

lemma worker_invI:
  assumes "memory_ok c (wk_mem s)" and "beats_ok (bc_addrs c) (wk_beats s)"
    and "backed unmarshal (wk_log s) (look (wk_index s))"
    and "main_ok unmarshal (bc_addrs c) (wk_log s) (look (wk_index s)) (wk_main s)"
  shows "worker_inv unmarshal look c s"
  using assms by (simp add: worker_inv_def)

lemma worker_inv_crash [simp]: "worker_inv unmarshal look c (s\<lparr>wk_crash := x\<rparr>) = worker_inv unmarshal look c s"
  by (simp add: worker_inv_def)

subsection \<open>Steps that keep the record and the index\<close>

lemma next_inv: "worker_inv unmarshal look c s \<Longrightarrow> worker_inv unmarshal look c (worker_next s)"
  using call_entry_ok [of "bc_addrs c" "me_client (wk_mem s)"]
  by (cases "call_entry (me_client (wk_mem s))") (simp add: worker_inv_def worker_next_def)

lemma report_inv:
  assumes "worker_inv unmarshal look c s"
    and "msg = '''' \<Longrightarrow> Served t \<in> set (wk_log s) \<and>
      (\<exists>ck. unmarshal (tk_Payload t) = Inr ck \<and> look (wk_index s) (ChunkIDToUUID (ck_ChunkID ck)) \<noteq> None)"
  shows "worker_inv unmarshal look c (worker_report t msg after s)"
proof -
  obtain pc v where e: "call_entry (me_client (wk_mem s)) = (pc, v)" by (cases "call_entry (me_client (wk_mem s))")
  then have "pc_ok (bc_addrs c) pc" using call_entry_ok [of "bc_addrs c" "me_client (wk_mem s)"] by simp
  then show ?thesis using assms beats_ok_cancelHB [of "bc_addrs c" s]
    by (auto simp: worker_inv_def worker_report_def e)
qed

lemma report_error_inv:
  "worker_inv unmarshal look c s \<Longrightarrow> e \<noteq> '''' \<Longrightarrow> worker_inv unmarshal look c (worker_report t e after s)"
  by (rule report_inv) simp_all

lemma polled_inv:
  assumes "worker_inv unmarshal look c s" and "wk_main s = Polling pc v task ok"
  shows "worker_inv unmarshal look c (worker_polled err task ok s)"
proof (cases "err \<noteq> None \<or> \<not> ok \<or> task = None")
  case True
  then show ?thesis using next_inv [OF assms(1)] assms(1) by (auto simp: worker_polled_def split: option.split)
next
  case False
  then obtain t where t: "err = None" "ok" "task = Some t" by auto
  then show ?thesis using assms by (auto simp: worker_polled_def worker_inv_def beats_ok_def)
qed

lemma decode_inv:
  assumes "worker_inv unmarshal look c s" and "errors_have_text unmarshal emb client" and "wk_main s = Decoding t"
  shows "worker_inv unmarshal look c (worker_decode unmarshal t s)"
proof (cases "unmarshal (tk_Payload t)")
  case (Inl e)
  then have "e \<noteq> ''''" using assms(2) by (auto simp: errors_have_text_def)
  then show ?thesis by (simp add: worker_decode_def Inl report_error_inv [OF assms(1)])
next
  case (Inr ck)
  then show ?thesis using assms(1,3) by (simp add: worker_decode_def worker_inv_def)
qed

lemma embed_inv:
  assumes "worker_inv unmarshal look c s" and "errors_have_text unmarshal emb client" and "wk_main s = Embedding t ck"
  shows "worker_inv unmarshal look c (worker_embed emb t ck s)"
proof -
  obtain p r where emb: "emb \<lparr>rq_ChunkID = ck_ChunkID ck, rq_Text = ck_Text ck\<rparr> (wk_emb s) = (p, r)" by fastforce
  have inv: "worker_inv unmarshal look c (s\<lparr>wk_emb := p\<rparr>)" using assms(1) by (simp add: worker_inv_def)
  show ?thesis
  proof (cases r)
    case (Inl e)
    then have "e \<noteq> ''''" using assms(2) emb by (metis errors_have_text_def snd_conv)
    then show ?thesis by (simp add: worker_embed_def emb Inl report_error_inv [OF inv])
  next
    case (Inr resp)
    then show ?thesis using assms(1,3) emb by (simp add: worker_embed_def worker_inv_def)
  qed
qed

subsection \<open>Steps that write to the index\<close>

lemma point_Id: "pt_Id (chunk_point c v) = ChunkIDToUUID (ck_ChunkID c)"
  by (simp add: chunk_point_def)

lemma UpsertChunk_look:
  assumes "point_store client look" and "UpsertChunk client c v q = (q', err)"
  shows "look q k \<noteq> None \<Longrightarrow> look q' k \<noteq> None" and "err = None \<Longrightarrow> look q' (ChunkIDToUUID (ck_ChunkID c)) \<noteq> None"
proof -
  have "client \<lparr>up_CollectionName = QdrantCollection, up_Wait = None, up_Points = [chunk_point c v]\<rparr> q = (q', err)"
    using assms(2) by (simp add: UpsertChunk_def)
  from assms(1) [unfolded point_store_def, rule_format, OF this]
  have q: "look q' = (look q)(ChunkIDToUUID (ck_ChunkID c) \<mapsto> chunk_point c v) \<or> err \<noteq> None \<and> look q' = look q"
    by (simp only: point_Id)
  show "look q k \<noteq> None \<Longrightarrow> look q' k \<noteq> None"
    using q by (elim disjE conjE) (simp_all only: fun_upd_apply, simp_all)
  show "err = None \<Longrightarrow> look q' (ChunkIDToUUID (ck_ChunkID c)) \<noteq> None"
    using q by (elim disjE conjE) (simp_all only: fun_upd_same, simp_all)
qed

lemma written_inv:
  assumes "point_store client look" and "worker_inv unmarshal look c s" and "UpsertChunk client ck v (wk_index s) = (q, err)"
  shows "worker_inv unmarshal look c (s\<lparr>wk_index := q\<rparr>)"
  using assms(2) UpsertChunk_look(1) [OF assms(1,3)]
    main_ok_mono [of unmarshal "bc_addrs c" "wk_log s" "look (wk_index s)" "wk_main s" "wk_log s" "look q"]
    backed_index [of unmarshal "wk_log s" "look (wk_index s)" "look q"]
  by (simp add: worker_inv_def)

lemma upsert_inv:
  assumes "point_store client look" and "errors_have_text unmarshal emb client" and "worker_inv unmarshal look c s"
    and "wk_main s = Upserting t ck v"
  shows "worker_inv unmarshal look c (worker_upsert client t ck v s)"
proof -
  obtain q err where up: "UpsertChunk client ck v (wk_index s) = (q, err)" by fastforce
  note inv = written_inv [OF assms(1,3) up]
  show ?thesis
  proof (cases err)
    case None
    then show ?thesis
      using report_inv [OF inv, of "''''" t] UpsertChunk_look(2) [OF assms(1) up None] assms(3,4) up
      by (auto simp: worker_upsert_def worker_inv_def)
  next
    case (Some e)
    then have "e \<noteq> ''''" using assms(2) up by (metis UpsertChunk_def errors_have_text_def snd_conv)
    then show ?thesis by (simp add: worker_upsert_def up Some report_error_inv [OF inv])
  qed
qed

subsection \<open>Steps of the calls\<close>

text \<open>What an attempt of each remote call adds to the record.\<close>

lemma poll_fn_recorded:
  assumes "poll_fn (recorded_Poll rpc) wid a (wl, task, ok) = ((wl', task', ok'), r)"
    and "\<forall>t. task = Some t \<longrightarrow> Served t \<in> set (snd wl)"
  shows "set (snd wl) \<subseteq> set (snd wl')" and "Reported q \<in> set (snd wl') \<Longrightarrow> Reported q \<in> set (snd wl)"
    and "task' = Some t \<Longrightarrow> Served t \<in> set (snd wl')"
  using assms by (auto simp: poll_fn_def recorded_Poll_def split: prod.splits sum.splits if_splits option.splits)

lemma complete_fn_recorded:
  "snd (fst (complete_fn (recorded_Complete rpc) req a wl)) = snd wl @ [Reported req]"
  by (auto simp: complete_fn_def recorded_Complete_def split: prod.split sum.split)

lemma heartbeat_fn_recorded:
  "snd (fst (cut_fn k (heartbeat_fn (unrecorded rpc) req) a wl)) = snd wl"
  by (cases k) (auto simp: heartbeat_fn_def unrecorded_def split: prod.split sum.split)

lemma poll_inv:
  assumes inv: "worker_inv unmarshal look c s" and main: "wk_main s = Polling pc v task ok"
  shows "worker_inv unmarshal look c (worker_poll (recording br) wid pc v task ok s)"
proof -
  let ?m = "in_world (me_world (wk_mem s), task, ok) (wk_mem s)" and ?fn = "poll_fn (recorded_Poll (br_Poll br)) wid"
  have ok: "memory_ok c ?m" "pc_ok (bc_addrs c) pc" and known: "\<forall>t. task = Some t \<longrightarrow> Served t \<in> set (wk_log s)"
    using inv main by (simp_all add: worker_inv_def)
  show ?thesis
  proof (cases "call_stage (br_dial br) ?fn pc v ?m")
    case (Inl x)
    then show ?thesis using inv by (simp add: worker_poll_def)
  next
    case (Inr y)
    obtain pc' v' m where y: "y = (pc', v', m)" by (cases y)
    obtain wl task' ok' where w: "me_world m = (wl, task', ok')" by (cases "me_world m")
    note st = Inr [unfolded y]
    have "memory_ok c m" "pc_ok (bc_addrs c) pc'" using call_stage_ok(2) [OF ok st] by simp_all
    moreover have log: "set (wk_log s) \<subseteq> set (snd wl)" "\<And>q. Reported q \<in> set (snd wl) \<Longrightarrow> Reported q \<in> set (wk_log s)"
        "\<forall>t. task' = Some t \<longrightarrow> Served t \<in> set (snd wl)"
    proof -
      from call_stage_world [OF st] consider "(wl, task', ok') = (me_world (wk_mem s), task, ok)"
        | a r where "?fn a (me_world (wk_mem s), task, ok) = ((wl, task', ok'), r)"
        by (metis in_world_simps(3) prod.collapse w)
      then show "set (wk_log s) \<subseteq> set (snd wl)" "\<And>q. Reported q \<in> set (snd wl) \<Longrightarrow> Reported q \<in> set (wk_log s)"
          "\<forall>t. task' = Some t \<longrightarrow> Served t \<in> set (snd wl)"
        using known poll_fn_recorded [OF _ known] by (cases; auto)+
    qed
    moreover have "backed unmarshal (snd wl) (look (wk_index s))"
      using inv by (intro backed_same_reports [OF _ log(1,2)]) (simp add: worker_inv_def)
    ultimately show ?thesis using inv by (simp add: worker_poll_def st w worker_inv_def)
  qed
qed

lemma complete_inv:
  assumes inv: "worker_inv unmarshal look c s" and main: "wk_main s = Completing t msg after pc v"
  shows "worker_inv unmarshal look c (worker_complete (recording br) wid t msg after pc v s)"
proof -
  let ?req = "\<lparr>cq_TaskId = tk_Id t, cq_WorkerId = wid, cq_Error = msg\<rparr>"
  let ?fn = "complete_fn (recorded_Complete (br_Complete br)) ?req"
  have ok: "memory_ok c (wk_mem s)" "pc_ok (bc_addrs c) pc"
    and done': "msg = '''' \<Longrightarrow> Served t \<in> set (wk_log s) \<and>
      (\<exists>ck. unmarshal (tk_Payload t) = Inr ck \<and> look (wk_index s) (ChunkIDToUUID (ck_ChunkID ck)) \<noteq> None)"
    using inv main by (simp_all add: worker_inv_def)
  show ?thesis
  proof (cases "call_stage (br_dial br) ?fn pc v (wk_mem s)")
    case (Inl x)
    then show ?thesis using inv by (simp add: worker_complete_def)
  next
    case (Inr y)
    obtain pc' v' m where y: "y = (pc', v', m)" by (cases y)
    note st = Inr [unfolded y]
    have "memory_ok c m" "pc_ok (bc_addrs c) pc'" using call_stage_ok(2) [OF ok st] by simp_all
    moreover have log: "set (wk_log s) \<subseteq> set (snd (me_world m))" "set (snd (me_world m)) \<subseteq> insert (Reported ?req) (set (wk_log s))"
      using call_stage_world [OF st] by (auto simp: complete_fn_recorded)
    moreover have "backed unmarshal (snd (me_world m)) (look (wk_index s))"
      using inv done' by (intro backed_report [OF _ log]) (auto simp: worker_inv_def)
    ultimately show ?thesis using inv done' by (auto simp: worker_complete_def st worker_inv_def)
  qed
qed

lemma worker_beatE:
  assumes "worker_beat br wid k g s = Some t"
  obtains (fin) "g < length (wk_beats s)" "t = set_beat g Waiting s"
    | (crash) pc v fn x where "g < length (wk_beats s)" "hb_pc (wk_beats s ! g) = Beating pc v"
        "call_stage (br_dial br) fn pc v (wk_mem s) = Inl x" "t = s\<lparr>wk_crash := Some x\<rparr>"
    | (move) pc v pc' v' m where "g < length (wk_beats s)" "hb_pc (wk_beats s ! g) = Beating pc v"
        "call_stage (br_dial br) (cut_fn k (heartbeat_fn (br_Heartbeat br)
          \<lparr>hq_WorkerId = wid, hq_TaskId = tk_Id (hb_task (wk_beats s ! g))\<rparr>)) pc v (wk_mem s) = Inr (pc', v', m)"
        "t = set_beat g (Beating pc' v') (s\<lparr>wk_mem := m\<rparr>)"
proof -
  have g: "g < length (wk_beats s)" using assms by (auto simp: worker_beat_def split: if_splits)
  obtain pc v where pc: "hb_pc (wk_beats s ! g) = Beating pc v"
    using assms g by (auto simp: worker_beat_def Let_def split: beat_pc.splits)
  let ?fn = "cut_fn k (heartbeat_fn (br_Heartbeat br) \<lparr>hq_WorkerId = wid, hq_TaskId = tk_Id (hb_task (wk_beats s ! g))\<rparr>)"
  show thesis
  proof (cases "\<exists>r. pc = Returned r")
    case True
    then show thesis using fin assms g pc by (auto simp: worker_beat_def Let_def)
  next
    case False
    then have step: "(case call_stage (br_dial br) ?fn pc v (wk_mem s) of Inl c \<Rightarrow> Some (s\<lparr>wk_crash := Some c\<rparr>)
        | Inr (pc', v', m) \<Rightarrow> Some (set_beat g (Beating pc' v') (s\<lparr>wk_mem := m\<rparr>))) = Some t"
      using assms g pc by (cases pc) (auto simp: worker_beat_def Let_def simp del: call_stage.simps split: if_splits)
    show thesis
    proof (cases "call_stage (br_dial br) ?fn pc v (wk_mem s)")
      case (Inl x)
      then show thesis using crash [OF g pc Inl] step by simp
    next
      case (Inr y)
      obtain pc' v' m where y: "y = (pc', v', m)" by (cases y)
      show thesis using move [OF g pc Inr [unfolded y]] step by (simp add: Inr y)
    qed
  qed
qed

lemma beat_inv:
  assumes inv: "worker_inv unmarshal look c s" and step: "worker_beat (recording br) wid k g s = Some t"
  shows "worker_inv unmarshal look c t"
proof -
  have beats: "beats_ok (bc_addrs c) (wk_beats s)" using inv by (simp add: worker_inv_def)
  from step show ?thesis
  proof (cases rule: worker_beatE)
    case fin
    then show ?thesis using inv beats_ok_set_beat [OF beats, of Waiting g] by (simp add: worker_inv_def)
  next
    case crash
    then show ?thesis using inv by simp
  next
    case (move pc v pc' v' m)
    have "beat_ok (bc_addrs c) (hb_pc (wk_beats s ! g))" using beats move(1) by (simp add: beats_ok_def)
    then have ok: "memory_ok c (wk_mem s)" "pc_ok (bc_addrs c) pc" using inv move(2) by (simp_all add: worker_inv_def)
    have "memory_ok c m" "pc_ok (bc_addrs c) pc'" using call_stage_ok(2) [OF ok move(3)] by simp_all
    moreover have "snd (me_world m) = wk_log s" using call_stage_world [OF move(3)] by (auto simp: heartbeat_fn_recorded)
    ultimately show ?thesis
      using inv beats_ok_set_beat [of "bc_addrs c" "s\<lparr>wk_mem := m\<rparr>" "Beating pc' v'" g]
      by (simp add: move(4) worker_inv_def)
  qed
qed

section \<open>All interleavings\<close>

lemma worker_step_inv:
  assumes "point_store client look" and "errors_have_text unmarshal emb client" and "worker_inv unmarshal look c s"
    and "worker_step unmarshal (recording br) emb client wid (wk_main s) s = Some t"
  shows "worker_inv unmarshal look c t"
proof (cases "wk_main s")
  case (Polling pc v task ok)
  then show ?thesis using assms(3,4) polled_inv [OF assms(3)] poll_inv [OF assms(3) Polling, of br wid] by (cases pc) auto
next
  case (Decoding t)
  then show ?thesis using assms(4) decode_inv [OF assms(3,2)] by auto
next
  case (Embedding t ck)
  then show ?thesis using assms(4) embed_inv [OF assms(3,2)] by auto
next
  case (Upserting t ck v)
  then show ?thesis using assms(4) upsert_inv [OF assms(1-3)] by auto
next
  case (Completing t msg after pc v)
  have "worker_inv unmarshal look c (worker_completed after s)"
    using next_inv [OF assms(3)] assms(3) by (cases after) (simp_all add: worker_completed_def worker_inv_def)
  then show ?thesis using Completing assms(4) complete_inv [OF assms(3) Completing, of br wid] by (cases pc) auto
next
  case (Exited e)
  then show ?thesis using assms(4) by simp
qed

lemma worker_exec_inv:
  assumes "point_store client look" and "errors_have_text unmarshal emb client" and inv: "worker_inv unmarshal look c s"
    and step: "worker_exec unmarshal (recording br) emb client (\<lambda>k. apfst (meanwhile k)) wid ev s = Some t"
  shows "worker_inv unmarshal look c t"
proof (cases ev)
  case WMain
  then show ?thesis using worker_step_inv [OF assms(1-3)] step by simp
next
  case (WTick g)
  have "beat_ok (bc_addrs c) (Beating (fst (call_entry (me_client (wk_mem s)))) v)" for v by (simp add: call_entry_ok)
  then show ?thesis
    using WTick step inv beats_ok_set_beat [of "bc_addrs c" s]
    by (cases "call_entry (me_client (wk_mem s))") (auto simp: worker_tick_def worker_inv_def split: if_splits)
next
  case (WDone g)
  then show ?thesis using step inv beats_ok_set_beat [of "bc_addrs c" s Ended g]
    by (auto simp: worker_done_def worker_inv_def split: if_splits)
next
  case (WBeat k g)
  then show ?thesis using beat_inv [OF inv] step by simp
next
  case (WCluster k)
  then show ?thesis using step inv by (auto simp: worker_inv_def)
next
  case (WIndexed ck v)
  then show ?thesis using step written_inv [OF assms(1) inv, of ck v] by (auto simp: prod_eq_iff)
qed

lemma worker_loop_inv:
  assumes "point_store client look" and "errors_have_text unmarshal emb client" and "worker_inv unmarshal look c s"
    and "worker_loop unmarshal (recording br) emb client (\<lambda>k. apfst (meanwhile k)) wid evs s = Some t"
  shows "worker_inv unmarshal look c t"
  using assms(3,4)
proof (induction evs arbitrary: s)
  case (Cons ev evs)
  then obtain u where "worker_exec unmarshal (recording br) emb client (\<lambda>k. apfst (meanwhile k)) wid ev s = Some u"
    "worker_loop unmarshal (recording br) emb client (\<lambda>k. apfst (meanwhile k)) wid evs u = Some t"
    by (auto split: if_splits option.splits)
  then show ?case using worker_exec_inv [OF assms(1,2) Cons.prems(1)] Cons.IH by blast
qed simp

section \<open>Fatal errors\<close>

text \<open>A node that says it has a task sends one.\<close>

definition sends_tasks :: "'w broker_rpcs \<Rightarrow> bool" where
  "sends_tasks br \<longleftrightarrow> (\<forall>a req w w' resp. br_Poll br a req w = (w', Inr resp) \<longrightarrow> pr_HasTask resp \<longrightarrow> pr_Task resp \<noteq> None)"

text \<open>
  Then nothing panics. And while there has been no task, the main goroutine is alone with
  the client, so that nothing is fatal at all.
\<close>

fun knows_task :: "'f main_pc \<Rightarrow> bool" where
  "knows_task (Polling pc v task ok) \<longleftrightarrow> (ok \<longrightarrow> task \<noteq> None)"
| "knows_task pc \<longleftrightarrow> True"

fun polls_alone :: "bool \<Rightarrow> 'f main_pc \<Rightarrow> bool" where
  "polls_alone writing (Polling pc v task ok) \<longleftrightarrow> (writing \<longrightarrow> (\<exists>a. pc = AtStored a))"
| "polls_alone writing pc \<longleftrightarrow> False"

definition calm :: "('w, 'p, 'q, 'f) worker \<Rightarrow> bool" where
  "calm s \<longleftrightarrow> knows_task (wk_main s) \<and> (\<forall>p. wk_crash s \<noteq> Some (Panicked p)) \<and>
     (wk_beats s = [] \<longrightarrow> wk_crash s = None \<and> polls_alone (me_writing (wk_mem s)) (wk_main s))"

lemma poll_fn_task:
  assumes "sends_tasks br" and "poll_fn (recorded_Poll (br_Poll br)) wid a (wl, task, ok) = ((wl', task', ok'), r)"
    and "ok \<longrightarrow> task \<noteq> None"
  shows "ok' \<longrightarrow> task' \<noteq> None"
  using assms by (fastforce simp: poll_fn_def recorded_Poll_def sends_tasks_def split: prod.splits sum.splits if_splits)

lemma call_stage_alone:
  assumes "call_stage dial fn pc v m = Inr (pc', v', m')" and "me_writing m \<longrightarrow> (\<exists>a. pc = AtStored a)"
  shows "me_writing m' \<longrightarrow> (\<exists>a. pc' = AtStored a)"
  using assms by (cases "(dial, fn, pc, v, m)" rule: call_stage.cases)
    (auto simp: Let_def split: nat.splits sum.splits option.splits prod.splits if_splits)

lemma call_stage_alone_runs:
  assumes "call_stage dial fn pc v m = Inl x" and "me_writing m \<longrightarrow> (\<exists>a. pc = AtStored a)"
  shows "\<exists>p. x = Panicked p"
  using assms by (cases "(dial, fn, pc, v, m)" rule: call_stage.cases)
    (auto simp: Let_def split: nat.splits sum.splits option.splits prod.splits if_splits)

lemma poll_calm:
  assumes "sends_tasks br" and inv: "worker_inv unmarshal look c s" and calm: "calm s" and main: "wk_main s = Polling pc v task ok"
  shows "calm (worker_poll (recording br) wid pc v task ok s)"
proof -
  let ?m = "in_world (me_world (wk_mem s), task, ok) (wk_mem s)" and ?fn = "poll_fn (recorded_Poll (br_Poll br)) wid"
  have ok: "memory_ok c ?m" "pc_ok (bc_addrs c) pc" using inv main by (simp_all add: worker_inv_def)
  have alone: "me_writing ?m \<longrightarrow> (\<exists>a. pc = AtStored a)" if "wk_beats s = []" using calm main that by (simp add: calm_def)
  show ?thesis
  proof (cases "call_stage (br_dial br) ?fn pc v ?m")
    case (Inl x)
    moreover from this have "\<nexists>p. x = Panicked p" using call_stage_ok(1) [OF ok, of "br_dial br" ?fn v] Inl by auto
    moreover from this have "wk_beats s \<noteq> []" using call_stage_alone_runs [OF Inl] alone by blast
    ultimately show ?thesis using calm by (auto simp: worker_poll_def calm_def)
  next
    case (Inr y)
    obtain pc' v' m where y: "y = (pc', v', m)" by (cases y)
    obtain wl task' ok' where w: "me_world m = (wl, task', ok')" by (cases "me_world m")
    note st = Inr [unfolded y]
    from call_stage_world [OF st] consider "(wl, task', ok') = (me_world (wk_mem s), task, ok)"
      | a r where "?fn a (me_world (wk_mem s), task, ok) = ((wl, task', ok'), r)"
      by (metis in_world_simps(3) prod.collapse w)
    then have "ok' \<longrightarrow> task' \<noteq> None"
    proof cases
      case 1
      then show ?thesis using calm main by (simp add: calm_def)
    next
      case 2
      have "ok \<longrightarrow> task \<noteq> None" using calm main by (simp add: calm_def)
      then show ?thesis by (rule poll_fn_task [OF assms(1) 2])
    qed
    moreover have "wk_beats s = [] \<Longrightarrow> me_writing m \<longrightarrow> (\<exists>a. pc' = AtStored a)" using call_stage_alone [OF st] alone by blast
    ultimately show ?thesis using calm by (auto simp: worker_poll_def st w calm_def)
  qed
qed

lemma next_calm: "calm s \<Longrightarrow> wk_beats s = [] \<longrightarrow> \<not> me_writing (wk_mem s) \<Longrightarrow> calm (worker_next s)"
  by (cases "call_entry (me_client (wk_mem s))") (auto simp: calm_def worker_next_def)

lemma report_calm: "calm s \<Longrightarrow> wk_beats s \<noteq> [] \<Longrightarrow> calm (worker_report t msg after s)"
  by (cases "call_entry (me_client (wk_mem s))") (auto simp: calm_def worker_report_def cancelHB_def)

lemma worker_step_calm:
  assumes "sends_tasks br" and inv: "worker_inv unmarshal look c s" and calm: "calm s"
    and step: "worker_step unmarshal (recording br) emb client wid (wk_main s) s = Some t"
  shows "calm t"
proof -
  have beats: "wk_beats s \<noteq> []" if "\<not> polls_alone (me_writing (wk_mem s)) (wk_main s)" using calm that by (auto simp: calm_def)
  note report = report_calm [of "s\<lparr>wk_emb := p\<rparr>" for p] report_calm [of "s\<lparr>wk_index := q\<rparr>" for q] report_calm [OF calm]
  show ?thesis
  proof (cases "wk_main s")
    case (Polling pc v task ok)
    show ?thesis
    proof (cases "\<exists>r. pc = Returned r")
      case True
      then obtain r where r: "pc = Returned r" by blast
      then have t: "t = worker_polled r task ok s" using step Polling by simp
      have quiet: "wk_beats s = [] \<longrightarrow> \<not> me_writing (wk_mem s)" using calm Polling r by (auto simp: calm_def)
      have "ok \<longrightarrow> task \<noteq> None" using calm Polling by (simp add: calm_def)
      then show ?thesis using next_calm [OF calm quiet] calm
        by (cases task) (auto simp: t worker_polled_def calm_def)
    next
      case False
      then have "t = worker_poll (recording br) wid pc v task ok s" using step Polling by (cases pc) auto
      then show ?thesis using poll_calm [OF assms(1) inv calm Polling] by simp
    qed
  next
    case (Decoding tk)
    then show ?thesis using step beats calm report(3)
      by (auto simp: worker_decode_def calm_def split: sum.splits)
  next
    case (Embedding tk ck)
    have "calm (s\<lparr>wk_emb := p\<rparr>)" for p using calm by (simp add: calm_def)
    then show ?thesis using step beats report(1) Embedding
      by (auto simp: worker_embed_def calm_def split: prod.splits sum.splits)
  next
    case (Upserting tk ck v)
    have "calm (s\<lparr>wk_index := q\<rparr>)" for q using calm by (simp add: calm_def)
    then show ?thesis using step beats report(2) Upserting
      by (auto simp: worker_upsert_def split: prod.splits option.splits)
  next
    case (Completing tk msg after pc v)
    have b: "wk_beats s \<noteq> []" using beats Completing by simp
    have ok: "memory_ok c (wk_mem s)" "pc_ok (bc_addrs c) pc" using inv Completing by (simp_all add: worker_inv_def)
    show ?thesis
    proof (cases "\<exists>r. pc = Returned r")
      case True
      then show ?thesis using step Completing next_calm [OF calm] b calm
        by (cases after) (auto simp: worker_completed_def calm_def)
    next
      case False
      then have "t = worker_complete (recording br) wid tk msg after pc v s" using step Completing by (cases pc) auto
      then show ?thesis using b calm call_stage_ok(1) [OF ok, of _ _ v]
        by (auto simp: worker_complete_def calm_def split: sum.splits prod.splits)
    qed
  next
    case (Exited e)
    then show ?thesis using step by simp
  qed
qed

lemma beat_calm:
  assumes inv: "worker_inv unmarshal look c s" and calm: "calm s" and step: "worker_beat br wid k g s = Some t"
  shows "calm t"
  using step
proof (cases rule: worker_beatE)
  case fin
  then show ?thesis using calm by (auto simp: calm_def)
next
  case (crash pc v fn x)
  then have "wk_beats s ! g \<in> set (wk_beats s)" by simp
  then have "beat_ok (bc_addrs c) (hb_pc (wk_beats s ! g))" using inv unfolding worker_inv_def beats_ok_def by blast
  then have "pc_ok (bc_addrs c) pc" using crash(2) by simp
  moreover have "memory_ok c (wk_mem s)" using inv by (simp add: worker_inv_def)
  ultimately have "memory_ok c (wk_mem s)" "pc_ok (bc_addrs c) pc" by simp_all
  from call_stage_ok(1) [OF this, of "br_dial br" fn v] have "\<forall>p. x \<noteq> Panicked p" using crash(3) by auto
  then show ?thesis using calm crash(1,4) by (auto simp: calm_def)
next
  case move
  then show ?thesis using calm by (auto simp: calm_def)
qed

lemma worker_exec_calm:
  assumes "sends_tasks br" and inv: "worker_inv unmarshal look c s" and calm: "calm s"
    and step: "worker_exec unmarshal (recording br) emb client others wid ev s = Some t"
  shows "calm t"
proof (cases ev)
  case WMain
  then show ?thesis using worker_step_calm [OF assms(1-3)] step by simp
next
  case (WTick g)
  then show ?thesis using step calm
    by (cases "call_entry (me_client (wk_mem s))") (auto simp: worker_tick_def calm_def split: if_splits)
next
  case (WBeat k g)
  then show ?thesis using beat_calm [OF inv calm] step by simp
qed (use step calm in \<open>auto simp: worker_done_def calm_def split: if_splits\<close>)

lemma worker_loop_calm:
  assumes "point_store client look" and "errors_have_text unmarshal emb client" and "sends_tasks br"
    and "worker_inv unmarshal look c s" and "calm s"
    and "worker_loop unmarshal (recording br) emb client (\<lambda>k. apfst (meanwhile k)) wid evs s = Some t"
  shows "calm t"
  using assms(4-6)
proof (induction evs arbitrary: s)
  case (Cons ev evs)
  then obtain u where u: "worker_exec unmarshal (recording br) emb client (\<lambda>k. apfst (meanwhile k)) wid ev s = Some u"
    "worker_loop unmarshal (recording br) emb client (\<lambda>k. apfst (meanwhile k)) wid evs u = Some t"
    by (auto split: if_splits option.splits)
  then show ?case
    using worker_exec_inv [OF assms(1,2) Cons.prems(1)] worker_exec_calm [OF assms(3) Cons.prems(1,2)] Cons.IH by blast
qed simp

section \<open>Iterations end\<close>

text \<open>The steps that the main goroutine has left in this iteration.\<close>

fun main_left :: "nat \<Rightarrow> 'f main_pc \<Rightarrow> nat" where
  "main_left hops (Polling pc v task ok) = call_work pc v + 10 * hops + 6"
| "main_left hops (Decoding t) = 10 * hops + 5"
| "main_left hops (Embedding t c) = 10 * hops + 4"
| "main_left hops (Upserting t c v) = 10 * hops + 3"
| "main_left hops (Completing t msg after pc v) = call_work pc v + 1"
| "main_left hops (Exited e) = 0"

lemma report_left: "main_left hops (wk_main (worker_report t msg after s)) \<le> 10 * maxHops (me_client (wk_mem s)) + 2"
  by (simp add: worker_report_def call_entry_def)

lemma next_main:
  "wk_main (worker_next s) = Polling (fst (call_entry (me_client (wk_mem s)))) (snd (call_entry (me_client (wk_mem s)))) None False"
  by (simp add: worker_next_def split: prod.split)

lemma iteration_goes_on:
  assumes "\<forall>e. wk_main s \<noteq> Exited e"
  shows "\<exists>t. worker_step unmarshal br emb client wid (wk_main s) s = Some t \<and>
    (wk_crash t \<noteq> None \<or> wk_main t = wk_main (worker_next s) \<or>
     main_left (maxHops (me_client (wk_mem s))) (wk_main t) < main_left (maxHops (me_client (wk_mem s))) (wk_main s))"
proof (cases "wk_main s")
  case (Polling pc v task ok)
  show ?thesis
  proof (cases "\<exists>r. pc = Returned r")
    case True
    then obtain r where r: "pc = Returned r" by blast
    then show ?thesis using Polling by (auto simp: worker_polled_def split: option.split)
  next
    case False
    then have "worker_step unmarshal br emb client wid (wk_main s) s = Some (worker_poll br wid pc v task ok s)"
      using Polling by (cases pc) auto
    moreover have "wk_crash (worker_poll br wid pc v task ok s) \<noteq> None \<or>
        (\<exists>pc' v' task' ok'. wk_main (worker_poll br wid pc v task ok s) = Polling pc' v' task' ok' \<and> call_work pc' v' < call_work pc v)"
      using call_stage_work [of "br_dial br" "poll_fn (br_Poll br) wid" pc v] False
      by (auto simp: worker_poll_def split: sum.split prod.split)
    ultimately show ?thesis using Polling by auto
  qed
next
  case (Completing t msg after pc v)
  show ?thesis
  proof (cases "\<exists>r. pc = Returned r")
    case True
    then show ?thesis using Completing by (cases after) (auto simp: worker_completed_def)
  next
    case False
    then have "worker_step unmarshal br emb client wid (wk_main s) s = Some (worker_complete br wid t msg after pc v s)"
      using Completing by (cases pc) auto
    moreover have "wk_crash (worker_complete br wid t msg after pc v s) \<noteq> None \<or>
        (\<exists>pc' v'. wk_main (worker_complete br wid t msg after pc v s) = Completing t msg after pc' v' \<and> call_work pc' v' < call_work pc v)"
      using call_stage_work [of "br_dial br" _ pc v "wk_mem s"] False
      by (auto simp: worker_complete_def split: sum.split prod.split)
    ultimately show ?thesis using Completing by auto
  qed
next
  case (Decoding t)
  have "main_left (maxHops (me_client (wk_mem s))) (wk_main (worker_report t e a s)) < 10 * maxHops (me_client (wk_mem s)) + 5"
    for e a by (rule le_less_trans [OF report_left]) simp
  then show ?thesis using Decoding by (auto simp: worker_decode_def split: sum.split)
next
  case (Embedding t ck)
  have "main_left (maxHops (me_client (wk_mem s))) (wk_main (worker_report t e a (s\<lparr>wk_emb := p\<rparr>))) <
      10 * maxHops (me_client (wk_mem s)) + 4" for e a p
    by (rule le_less_trans [OF report_left]) simp
  then show ?thesis using Embedding by (auto simp: worker_embed_def split: prod.split sum.split)
next
  case (Upserting t ck v)
  have "main_left (maxHops (me_client (wk_mem s))) (wk_main (worker_report t e a (s\<lparr>wk_index := q\<rparr>))) <
      10 * maxHops (me_client (wk_mem s)) + 3" for e a q
    by (rule le_less_trans [OF report_left]) simp
  then show ?thesis using Upserting by (auto simp: worker_upsert_def split: prod.split option.split)
next
  case (Exited e)
  then show ?thesis using assms by simp
qed

lemma others_leave_main:
  "worker_exec unmarshal br emb client others wid ev s = Some t \<Longrightarrow> ev \<noteq> WMain \<Longrightarrow> wk_main t = wk_main s"
  by (cases ev) (auto simp: worker_tick_def worker_done_def
      split: if_splits prod.splits elim: worker_beatE)

end
