(* ===== verification/Pipeline_Theorems.thy ===== *)
theory Pipeline_Theorems
  imports Producer Worker_Runs Index_Theorems Broker_Theorems
begin

text \<open>
  The theorems about the worker and the producer, against any broker cluster.
\<close>

section \<open>The worker\<close>

lemma worker_started:
  assumes "worker_main ox dial collClient pid brokerAddrs qdrantAddr embedderCmd (w, []) q = Inr (workerID, s)"
  shows "worker_inv unmarshal look (me_client (wk_mem s)) s" and "calm s"
proof -
  have "client_ok (client_New (Split brokerAddrs CHR '',''))" by (rule client_ok_New [OF Split_ne])
  then show "worker_inv unmarshal look (me_client (wk_mem s)) s" "calm s"
    using assms call_entry_ok [of "bc_addrs (client_New (Split brokerAddrs CHR '',''))" "client_New (Split brokerAddrs CHR '','')"]
    by (auto simp: worker_main_def worker_start_def Let_def worker_inv_def memory_ok_def beats_ok_def backed_def calm_def
        split: if_splits option.splits prod.splits sum.splits)
qed

text \<open>C32 A worker never reports a task done before the index has acknowledged its chunk, however
  its goroutines interleave: started by its command, with the poll loop and the heartbeat
  goroutines of all its tasks taking their steps on the shared client in any order, while
  the cluster moves on and others write to the index, every completion without an error
  text that it has sent is for a task that the cluster served to it and whose payload
  decodes to a chunk with a point in the index. The process can end with one of the two
  fatal errors on the client's connection map, but only after it has had a task, and it
  never panics. And the poll loop goes on: unless \<open>run\<close> has returned or the process has
  ended, the main goroutine can take its next step, which begins a new iteration or
  brings it nearer to the end of this one (an iteration takes at most \<open>20 * maxHops + 7\<close>
  steps), and no other goroutine changes where it is.\<close>

theorem worker_reports_written:
  assumes "point_store client look" and "errors_have_text unmarshal emb client" and "sends_tasks br"
    and "worker_main ox dial collClient pid brokerAddrs qdrantAddr embedderCmd (w, []) q = Inr (workerID, s)"
    and "worker_loop unmarshal (recording br) emb client (\<lambda>k. apfst (meanwhile k)) workerID evs s = Some t"
  shows "(\<forall>req. Reported req \<in> set (wk_log t) \<longrightarrow> cq_Error req = '''' \<longrightarrow>
      (\<exists>task c. Served task \<in> set (wk_log t) \<and> tk_Id task = cq_TaskId req \<and>
        unmarshal (tk_Payload task) = Inr c \<and> look (wk_index t) (ChunkIDToUUID (ck_ChunkID c)) \<noteq> None)) \<and>
    (wk_crash t = None \<or> wk_beats t \<noteq> [] \<and> wk_crash t \<in> {Some ConcurrentReadWrite, Some ConcurrentWrites}) \<and>
    (wk_crash t = None \<and> (\<forall>e. wk_main t \<noteq> Exited e) \<longrightarrow>
      (\<exists>u. worker_exec unmarshal (recording br) emb client (\<lambda>k. apfst (meanwhile k)) workerID WMain t = Some u \<and>
        (wk_crash u \<noteq> None \<or> wk_main u = wk_main (worker_next t) \<or>
         main_left (maxHops (me_client (wk_mem t))) (wk_main u) < main_left (maxHops (me_client (wk_mem t))) (wk_main t)))) \<and>
    (\<forall>ev u. worker_exec unmarshal (recording br) emb client (\<lambda>k. apfst (meanwhile k)) workerID ev t = Some u \<longrightarrow>
      ev \<noteq> WMain \<longrightarrow> wk_main u = wk_main t)"
proof -
  note start = worker_started [OF assms(4)]
  have "backed unmarshal (wk_log t) (look (wk_index t))"
    using worker_loop_inv [OF assms(1,2) start(1) assms(5)] by (simp add: worker_inv_def)
  moreover have "calm t" by (rule worker_loop_calm [OF assms(1-3) start assms(5)])
  then have "wk_crash t = None \<or> wk_beats t \<noteq> [] \<and> wk_crash t \<in> {Some ConcurrentReadWrite, Some ConcurrentWrites}"
    unfolding calm_def by (metis crash.exhaust insertI1 insertI2 option.exhaust)
  ultimately show ?thesis
    using iteration_goes_on [of t unmarshal "recording br" emb client workerID] others_leave_main
    unfolding backed_def by (intro conjI) (simp, simp, simp, blast)
qed

lemmas call_unfold = call_def client_New_def maxHops_def numeral_eq_Suc slice_get_def clientFor_def

text \<open>A cluster of one node with one task, and a worker that handles the task.\<close>

definition demo_cluster :: "string \<Rightarrow> nat broker_rpcs" where
  "demo_cluster d = \<lparr>br_dial = (\<lambda>_. None),
     br_Submit = (\<lambda>a req n. (n + 1, Inr \<lparr>sr_TaskId = ''t1'', sr_Ok = True, sr_RedirectAddr = ''''\<rparr>)),
     br_Poll = (\<lambda>a req n. (n + 1, Inr \<lparr>pr_Task = Some \<lparr>tk_Id = ''t1'', tk_Payload = d\<rparr>, pr_HasTask = True, pr_RedirectAddr = ''''\<rparr>)),
     br_Complete = (\<lambda>a req n. (n + 1, Inr \<lparr>cr_Ok = True, cr_RedirectAddr = ''''\<rparr>)),
     br_Heartbeat = (\<lambda>a req n. (n + 1, Inr \<lparr>hr_Ok = True, hr_RedirectAddr = ''''\<rparr>)),
     br_GetResult = (\<lambda>a req n. (n + 1, Inr \<lparr>gr_Done = (gq_TaskId req = ''t1'' \<and> 3 < n), gr_Error = ''''\<rparr>))\<rparr>"

abbreviation demo_rpcs :: "nat broker_rpcs" where
  "demo_rpcs \<equiv> demo_cluster ''p''"

definition demo_exec :: "nat os_exec" where
  "demo_exec = \<lparr>ox_StdinPipe = (\<lambda>_ _. None), ox_StdoutPipe = (\<lambda>_ _. None), ox_Start = (\<lambda>_ _. Inr 0), ox_Kill = (\<lambda>p. (p, None))\<rparr>"

definition demo_collections :: "(64 word \<rightharpoonup> char PointStruct) collections_client" where
  "demo_collections = \<lparr>co_Get = (\<lambda>_ q. (q, None)), co_Create = (\<lambda>_ q. (q, None))\<rparr>"

definition demo_unmarshal :: "string \<Rightarrow> string + Chunk" where
  "demo_unmarshal x = Inr \<lparr>ck_DocID = ''d'', ck_ChunkID = ''d-0'', ck_Title = ''t'', ck_Text = x\<rparr>"

definition demo_worker :: "(nat \<times> broker_call list, nat, 64 word \<rightharpoonup> char PointStruct, char) worker" where
  "demo_worker = \<lparr>wk_mem = quiet_memory (client_New [''A'', ''B'']) (0, []), wk_emb = 0, wk_index = (\<lambda>_. None),
     wk_main = Polling AtHead (4, None) None False, wk_beats = [], wk_crash = None\<rparr>"

lemma demo_worker_main:
  "worker_main demo_exec (\<lambda>_. None) demo_collections 7 ''A,B'' ''Q'' ''emb'' (0, []) (\<lambda>_. None) = Inr (''worker-7'', demo_worker)"
proof -
  have "Fields ''emb'' = [''emb'']" "Split ''A,B'' CHR '','' = [''A'', ''B'']" "Itoa 7 = ''7''" by code_simp+
  then show ?thesis
    by (simp add: demo_worker_def worker_main_def worker_start_def EnsureCollection_def embedder_Start_def demo_exec_def
        demo_collections_def call_entry_def maxHops_def client_New_def)
qed

text \<open>The heartbeat is called while the main goroutine embeds and upserts, and returns in the middle of \<open>Complete\<close>.\<close>

definition demo_schedule :: "char worker_event list" where
  "demo_schedule = replicate 9 WMain @ [WTick 0, WBeat Whole 0, WMain, WBeat Whole 0, WMain, WMain, WBeat Whole 0, WMain,
     WBeat Whole 0, WMain, WMain]"

lemma demo_worker_loop:
  assumes "unmarshal d = Inr c"
  shows "\<exists>t. worker_loop unmarshal (recording (demo_cluster d)) text_embedder map_upsert (\<lambda>k. apfst id) ''worker-7'' demo_schedule
      demo_worker = Some t \<and>
    wk_log t = [Served \<lparr>tk_Id = ''t1'', tk_Payload = d\<rparr>,
      Reported \<lparr>cq_TaskId = ''t1'', cq_WorkerId = ''worker-7'', cq_Error = ''''\<rparr>] \<and> fst (me_world (wk_mem t)) = 3"
  using assms
  by (simp add: demo_schedule_def demo_worker_def numeral_eq_Suc client_New_def maxHops_def slice_get_def worker_poll_def
      poll_fn_def recorded_Poll_def demo_cluster_def worker_polled_def in_world_def worker_decode_def worker_embed_def
      text_embedder_def worker_tick_def call_entry_def set_beat_def worker_beat_def heartbeat_fn_def unrecorded_def
      worker_upsert_def UpsertChunk_def map_upsert_def worker_report_def cancelHB_def worker_complete_def complete_fn_def
      recorded_Complete_def Let_def)

theorem worker_reports_written_witness:
  "\<exists>t. worker_main demo_exec (\<lambda>_. None) demo_collections 7 ''A,B'' ''Q'' ''emb'' (0, []) (\<lambda>_. None) = Inr (''worker-7'', demo_worker) \<and>
     worker_loop demo_unmarshal (recording demo_rpcs) text_embedder map_upsert (\<lambda>k. apfst id) ''worker-7'' demo_schedule demo_worker = Some t \<and>
     Reported \<lparr>cq_TaskId = ''t1'', cq_WorkerId = ''worker-7'', cq_Error = ''''\<rparr> \<in> set (wk_log t) \<and>
     wk_index t (ChunkIDToUUID ''d-0'') \<noteq> None"
proof -
  have errs: "errors_have_text demo_unmarshal text_embedder map_upsert"
    by (simp add: errors_have_text_def demo_unmarshal_def text_embedder_def map_upsert_def)
  have sends: "sends_tasks demo_rpcs" by (simp add: sends_tasks_def demo_cluster_def)
  obtain t where run: "worker_loop demo_unmarshal (recording demo_rpcs) text_embedder map_upsert (\<lambda>k. apfst id) ''worker-7''
        demo_schedule demo_worker = Some t"
      and log: "wk_log t = [Served \<lparr>tk_Id = ''t1'', tk_Payload = ''p''\<rparr>,
        Reported \<lparr>cq_TaskId = ''t1'', cq_WorkerId = ''worker-7'', cq_Error = ''''\<rparr>]"
    using demo_worker_loop [of demo_unmarshal "''p''"] by (auto simp: demo_unmarshal_def)
  from worker_reports_written [OF demo_store errs sends demo_worker_main run] log
  have "wk_index t (ChunkIDToUUID ''d-0'') \<noteq> None" by (auto simp: demo_unmarshal_def)
  then show ?thesis using run log demo_worker_main by (intro exI [of _ t]) simp
qed

text \<open>
  The fatal errors do happen: the first node answers \<open>Poll\<close> and then fails the heartbeat,
  which goes to connect to the second node; when \<open>Complete\<close> looks that node up at the same
  time, the process ends, and the task is not reported.
\<close>

definition failing_heartbeats :: "nat broker_rpcs" where
  "failing_heartbeats = demo_rpcs\<lparr>br_Heartbeat := (\<lambda>a req n. (n, Inl ''unavailable''))\<rparr>"

definition race_schedule :: "char worker_event list" where
  "race_schedule = replicate 9 WMain @ [WTick 0] @ replicate 11 (WBeat Whole 0) @ replicate 5 WMain"

lemma worker_race:
  "\<exists>t. worker_loop demo_unmarshal (recording failing_heartbeats) text_embedder map_upsert (\<lambda>k. apfst id) ''worker-7'' race_schedule
      demo_worker = Some t \<and> wk_crash t = Some ConcurrentReadWrite \<and> (\<forall>req. Reported req \<notin> set (wk_log t))"
  by (simp add: race_schedule_def failing_heartbeats_def demo_worker_def numeral_eq_Suc client_New_def maxHops_def slice_get_def
      worker_poll_def poll_fn_def recorded_Poll_def demo_cluster_def worker_polled_def in_world_def worker_decode_def
      demo_unmarshal_def worker_embed_def text_embedder_def worker_tick_def call_entry_def set_beat_def worker_beat_def
      heartbeat_fn_def unrecorded_def worker_upsert_def UpsertChunk_def map_upsert_def worker_report_def cancelHB_def
      worker_complete_def Let_def)


section \<open>The producer\<close>

lemma producer_outcome:
  assumes "producer_main marshal (watching br) order (\<lambda>k. apfst (meanwhile k)) openErr gzipErr articles brokerAddrs chunkSize (w, []) =
    Some (Inr (s', Inr out))"
  shows "\<exists>payloads. map marshal (corpus_chunks chunkSize articles) = map Inr payloads \<and>
    list_all2 (\<lambda>tid payload. (tid = '''' \<or> Accepted payload tid \<in> set (snd (pd_cluster s'))) \<and>
      Finished tid \<in> set (snd (pd_cluster s'))) (pd_taskIDs s') payloads \<and>
    pd_chunkCount s' = int (length payloads) \<and> pd_articleCount s' = int (length articles) \<and>
    out = ''indexed '' @ Itoa (pd_chunkCount s') @ '' chunks from '' @ Itoa (pd_articleCount s') @ '' articles''"
proof -
  let ?addrs = "Split brokerAddrs CHR '',''"
  note run = assms [unfolded producer_main_def producer_run_def Let_def]
  have e: "openErr = None" "gzipErr = None" using run by (auto split: option.splits)
  obtain s1 where sub: "submit_articles marshal (watching br) chunkSize articles (producer_New ?addrs (w, [])) = Inr (s1, None)"
    using run e by (auto split: sum.splits prod.splits option.splits)
  then obtain r where wait: "wait_loop (watching br) order (\<lambda>k. apfst (meanwhile k)) 0 (remdups (pd_taskIDs s1)) s1 = Some r"
      "go_bind r (\<lambda>s2. Inr (s2, Inr (''indexed '' @ Itoa (pd_chunkCount s2) @ '' chunks from '' @ Itoa (pd_articleCount s2) @ '' articles''))) =
       Inr (s', Inr out :: string + string)"
    using run e by auto
  have "submitted [] (producer_New ?addrs (w, []))"
    by (simp add: submitted_def producer_New_def client_ok_New Split_ne)
  from submit_articles_recorded [OF this sub] obtain pls where
      pls: "map marshal (corpus_chunks chunkSize articles) = map Inr pls" "submitted pls s1" "pd_articleCount s1 = int (length articles)"
    by (auto simp: producer_New_def)
  have s': "r = Inr s'" and out: "out = ''indexed '' @ Itoa (pd_chunkCount s') @ '' chunks from '' @ Itoa (pd_articleCount s') @ '' articles''"
    using wait(2) by (auto elim: go_bind_InrE)
  have "same_job s1 s'" "set (snd (pd_cluster s1)) \<subseteq> set (snd (pd_cluster s'))"
      "\<forall>t \<in> set (pd_taskIDs s1). Finished t \<in> set (snd (pd_cluster s'))"
    using wait_loop_recorded [OF wait(1)] pls(2) s' by (auto simp: submitted_def)
  moreover from this(2,3) have "list_all2 (\<lambda>tid payload. (tid = '''' \<or> Accepted payload tid \<in> set (snd (pd_cluster s'))) \<and>
      Finished tid \<in> set (snd (pd_cluster s'))) (pd_taskIDs s1) pls"
    using pls(2) by (auto simp: submitted_def list_all2_conv_all_nth)
  ultimately show ?thesis using pls out by (intro exI [of _ pls]) (simp add: same_job_def submitted_def)
qed


definition demo_corpus :: "article list" where
  "demo_corpus = [\<lparr>ar_ID = ''a'', ar_Title = ''T'', ar_Text = ''x y''\<rparr>]"

lemma demo_text_chunks: "ChunkText ''x y'' 200 = Inr [''x y'']"
proof -
  have "Fields ''x y'' = [''x'', ''y'']" by code_simp
  then show ?thesis by (simp add: ChunkText_eq)
qed

lemma demo_corpus_chunks:
  "corpus_chunks 200 demo_corpus = [\<lparr>ck_DocID = ''a'', ck_ChunkID = ''a-'' @ Itoa 0, ck_Title = ''T'', ck_Text = ''x y''\<rparr>]"
  by (simp add: corpus_chunks_def demo_corpus_def article_chunks_def demo_text_chunks article_chunk_def)

lemma demo_producer_run:
  "\<exists>s' out. producer_main (\<lambda>c. Inr (ck_Text c)) (watching demo_rpcs) (\<lambda>k xs. xs) (\<lambda>k. apfst (\<lambda>n. n + 4)) None None demo_corpus ''A'' 200 (0, []) =
     Some (Inr (s', Inr out)) \<and> pd_taskIDs s' = [''t1''] \<and> set (pd_log s') = {Accepted ''x y'' ''t1'', Finished ''t1''}"
proof -
  have addr: "Split ''A'' CHR '','' = [''A'']" by code_simp
  show ?thesis
    by (simp add: producer_main_def producer_run_def producer_New_def demo_corpus_def demo_text_chunks addr wait_loop.simps call_unfold
        client_Submit_def submit_fn_def recorded_Submit_def client_GetResult_def result_fn_def recorded_GetResult_def demo_cluster_def
        Let_def article_chunk_def)
qed


text \<open>C34 The wait ends exactly when the work does: if the cluster reaches, at the latest while the
  producer sleeps after some round, a state in which it answers done for every task and
  stays there, the wait returns, in whatever order the rounds visit the tasks; if some
  task is never reported done, such as the empty identifier of a lost submission, the wait
  never returns.\<close>

theorem producer_wait_exact:
  assumes "client_ok (pd_client s)" and "\<And>k xs. set (order k xs) = set xs"
  shows "(settles br meanwhile settled K waiting \<longrightarrow> (\<exists>s'. wait_loop br order meanwhile 0 waiting s = Some (Inr s'))) \<and>
    (tid \<in> set waiting \<and> never_done br tid \<longrightarrow> wait_loop br order meanwhile 0 waiting s = None)"
proof (intro conjI impI)
  assume "settles br meanwhile settled K waiting"
  from wait_returns [where order = order, OF this assms(2) _ assms(1)]
  show "\<exists>s'. wait_loop br order meanwhile 0 waiting s = Some (Inr s')" by blast
next
  assume "tid \<in> set waiting \<and> never_done br tid"
  then show "wait_loop br order meanwhile 0 waiting s = None" using wait_never_ends [OF assms(1)] by blast
qed

theorem producer_wait_exact_witness:
  "(\<exists>s'. wait_loop demo_rpcs (\<lambda>k xs. xs) (\<lambda>k n. n + 4) 0 [''t1''] (producer_New [''A''] 0) = Some (Inr s')) \<and>
   wait_loop demo_rpcs (\<lambda>k xs. rev xs) (\<lambda>k n. n + 4) 0 [''t1'', ''''] (producer_New [''A''] 0) = None"
proof -
  have ok: "client_ok (pd_client (producer_New [''A''] (0 :: nat)))" by (simp add: producer_New_def client_ok_New)
  have "settles demo_rpcs (\<lambda>k n. n + 4) (\<lambda>n. 3 < n) 0 [''t1'']" by (auto simp: settles_def demo_cluster_def)
  moreover have "never_done demo_rpcs ''''" by (auto simp: never_done_def demo_cluster_def)
  ultimately show ?thesis
    using producer_wait_exact [OF ok, of "\<lambda>k xs. xs" demo_rpcs "\<lambda>k n. n + 4" "\<lambda>n. 3 < n" 0 "[''t1'']" "''''"]
      producer_wait_exact [OF ok, of "\<lambda>k xs. rev xs" demo_rpcs "\<lambda>k n. n + 4" "\<lambda>n. 3 < n" 0 "[''t1'', '''']" "''''"] by simp
qed

end
