(* ===== verification/End_To_End.thy ===== *)
theory End_To_End
  imports System_Theorems Pipeline_Theorems
begin

text \<open>
  The pipeline from the corpus to the index: a producer and any number of workers, each
  run by its own program against whatever cluster it sees, and the broker service
  between them. The programs and the service meet in what crosses the wire: a call that a
  client has recorded is one that the service has recorded.
\<close>

section \<open>Runs of the programs\<close>

text \<open>
  A state that some worker process has reached in an interleaving of its goroutines, with
  the record of its calls.
\<close>

definition worker_ran ::
  "(string \<Rightarrow> string + Chunk) \<Rightarrow> (Request \<Rightarrow> 'p \<Rightarrow> 'p \<times> (string + 'f Response)) \<Rightarrow> ('f, 'q) upsert
     \<Rightarrow> ('w \<times> broker_call list, 'p, 'q, 'f) worker \<Rightarrow> bool" where
  "worker_ran unmarshal emb client t \<longleftrightarrow> (\<exists>ox dial coll pid addrs qdrant cmd w q wid s br meanwhile evs.
     worker_main ox dial coll pid addrs qdrant cmd (w, []) q = Inr (wid, s) \<and>
     worker_loop unmarshal (recording br) emb client (\<lambda>k. apfst (meanwhile k)) wid evs s = Some t)"

lemma worker_ran_backed:
  assumes "worker_ran unmarshal emb client t" and "point_store client look" and "errors_have_text unmarshal emb client"
  shows "backed unmarshal (wk_log t) (look (wk_index t))"
proof -
  from assms(1) obtain ox dial coll pid addrs qdrant cmd w q wid s br meanwhile evs where
    start: "worker_main ox dial coll pid addrs qdrant cmd (w, []) q = Inr (wid, s)"
    and run: "worker_loop unmarshal (recording br) emb client (\<lambda>k. apfst (meanwhile k)) wid evs s = Some t"
    unfolding worker_ran_def by (elim exE conjE) (rule that)
  from worker_loop_inv [OF assms(2,3) worker_started(1) [OF start] run] show ?thesis by (simp add: worker_inv_def)
qed

section \<open>What crosses the wire\<close>

text \<open>
  What a worker was served, the service has served; what a leader accepted as a completion
  without an error, some worker has sent.
\<close>

definition workers_wired :: "('w \<times> broker_call list, 'p, 'q, 'f) worker set \<Rightarrow> System \<Rightarrow> bool" where
  "workers_wired ws s \<longleftrightarrow>
     (\<forall>w \<in> ws. \<forall>t. Served t \<in> set (wk_log w) \<longrightarrow> t \<in> set (sy_served s)) \<and>
     (\<forall>x. CComplete x '''' \<in> set (sy_started s) \<longrightarrow>
        (\<exists>w \<in> ws. \<exists>req. Reported req \<in> set (wk_log w) \<and> cq_TaskId req = x \<and> cq_Error req = ''''))"

text \<open>What the producer saw accepted, a leader accepted; what it saw done, the service reported.\<close>

definition producer_wired :: "('w \<times> producer_call list) producer \<Rightarrow> System \<Rightarrow> bool" where
  "producer_wired pd s \<longleftrightarrow>
     (\<forall>payload x. Accepted payload x \<in> set (pd_log pd) \<longrightarrow> CSubmit x payload \<in> set (sy_started s)) \<and>
     (\<forall>x. Finished x \<in> set (pd_log pd) \<longrightarrow> x \<in> fst ` set (sy_results s))"

text \<open>UUIDs are not empty and not used twice.\<close>

definition fresh_ids :: "System \<Rightarrow> bool" where
  "fresh_ids s \<longleftrightarrow> (\<forall>x d. CSubmit x d \<in> set (sy_started s) \<longrightarrow>
     x \<noteq> '''' \<and> (\<forall>d'. CSubmit x d' \<in> set (sy_started s) \<longrightarrow> d' = d))"

section \<open>The whole pipeline\<close>

text \<open>A task that a worker completed without an error has its chunk in the index.\<close>

lemma completed_indexed:
  assumes reach: "system_reach cfg s" and store: "point_store client look" and errs: "errors_have_text unmarshal emb client"
    and ws: "\<forall>w \<in> ws. worker_ran unmarshal emb client w \<and> (\<forall>k. look (wk_index w) k \<noteq> None \<longrightarrow> look index k \<noteq> None)"
    and wired: "workers_wired ws s" and cmp: "CComplete x '''' \<in> set (sy_started s)"
  shows "\<exists>d c. CSubmit x d \<in> set (sy_started s) \<and> unmarshal d = Inr c \<and> look index (ChunkIDToUUID (ck_ChunkID c)) \<noteq> None"
proof -
  obtain w req where w: "w \<in> ws" "Reported req \<in> set (wk_log w)" "cq_TaskId req = x" "cq_Error req = ''''"
    using wired cmp unfolding workers_wired_def by blast
  then have "backed unmarshal (wk_log w) (look (wk_index w))" using ws by (blast intro: worker_ran_backed [OF _ store errs])
  with w obtain t c where t: "Served t \<in> set (wk_log w)" "tk_Id t = x" "unmarshal (tk_Payload t) = Inr c"
      "look (wk_index w) (ChunkIDToUUID (ck_ChunkID c)) \<noteq> None"
    unfolding backed_def by metis
  have "t \<in> set (sy_served s)" using wired w(1) t(1) by (auto simp: workers_wired_def)
  then have "CSubmit x (tk_Payload t) \<in> set (sy_started s)" using system_invs(5) [OF reach] t(2) by (auto simp: history_inv_def)
  then show ?thesis using t(3,4) w(1) ws by blast
qed

text \<open>C1 The corpus ends up in the index: when the producer prints its summary, every chunk of every
  article has its point in the index, unless the completion of its task carried an error
  text. The index is the one in which every operation acknowledged so far has been
  applied, as \<open>point_store\<close> states. The producer has run against the broker service in some
  reachable state, together with any set of workers, each in any interleaving of its
  goroutines; each worker's points are still in the index; the marshalled chunks unmarshal
  to themselves; and no UUID was empty or used twice.\<close>

theorem corpus_indexed:
  assumes "system_reach cfg s" and "point_store client look" and "errors_have_text unmarshal emb client"
    and "producer_main marshal (watching br) order (\<lambda>k. apfst (meanwhile k)) None None articles brokerAddrs chunkSize (w, []) =
      Some (Inr (pd, Inr out))"
    and "\<forall>w \<in> ws. worker_ran unmarshal emb client w \<and> (\<forall>k. look (wk_index w) k \<noteq> None \<longrightarrow> look index k \<noteq> None)"
    and "workers_wired ws s" and "producer_wired pd s" and "fresh_ids s"
    and "\<forall>c \<in> set (corpus_chunks chunkSize articles). \<forall>d. marshal c = Inr d \<longrightarrow> unmarshal d = Inr c"
  shows "list_all2 (\<lambda>x c. look index (ChunkIDToUUID (ck_ChunkID c)) \<noteq> None \<or>
      (\<exists>e. e \<noteq> '''' \<and> (x, e) \<in> set (sy_results s) \<and> CComplete x e \<in> set (sy_started s)))
    (pd_taskIDs pd) (corpus_chunks chunkSize articles)"
proof -
  let ?cs = "corpus_chunks chunkSize articles"
  from producer_outcome [OF assms(4)] obtain payloads where
    pls: "map marshal ?cs = map Inr payloads" and
    rec: "list_all2 (\<lambda>x d. (x = '''' \<or> Accepted d x \<in> set (pd_log pd)) \<and> Finished x \<in> set (pd_log pd)) (pd_taskIDs pd) payloads"
    by blast
  have len: "length (pd_taskIDs pd) = length ?cs" "length payloads = length ?cs"
    using pls list_all2_lengthD [OF rec] by (metis length_map)+
  show ?thesis
  proof (rule list_all2_all_nthI [OF len(1)])
    fix k
    assume "k < length (pd_taskIDs pd)"
    then have k: "k < length ?cs" using len by simp
    let ?x = "pd_taskIDs pd ! k" and ?c = "?cs ! k" and ?d = "payloads ! k"
    have m: "marshal ?c = Inr ?d" using pls k len by (metis nth_map)
    have call: "?x = '''' \<or> Accepted ?d ?x \<in> set (pd_log pd)" "Finished ?x \<in> set (pd_log pd)"
      using rec k len by (auto simp: list_all2_conv_all_nth)
    obtain e where e: "(?x, e) \<in> set (sy_results s)" using assms(7) call(2) by (force simp: producer_wired_def)
    then have cmp: "CComplete ?x e \<in> set (sy_started s)" using system_invs(5) [OF assms(1)] by (auto simp: history_inv_def)
    show "look index (ChunkIDToUUID (ck_ChunkID ?c)) \<noteq> None \<or>
        (\<exists>e. e \<noteq> '''' \<and> (?x, e) \<in> set (sy_results s) \<and> CComplete ?x e \<in> set (sy_started s))"
    proof (cases "e = ''''")
      case True
      with completed_indexed [OF assms(1-3,5,6)] cmp obtain d c where
        d: "CSubmit ?x d \<in> set (sy_started s)" "unmarshal d = Inr c" "look index (ChunkIDToUUID (ck_ChunkID c)) \<noteq> None" by blast
      then have "?x \<noteq> ''''" using assms(8) by (auto simp: fresh_ids_def)
      then have "CSubmit ?x ?d \<in> set (sy_started s)" using call(1) assms(7) by (auto simp: producer_wired_def)
      then have "d = ?d" using assms(8) d(1) by (auto simp: fresh_ids_def)
      moreover have "unmarshal ?d = Inr ?c" using assms(9) m k by simp
      ultimately show ?thesis using d(2,3) by simp
    qed (use e cmp in blast)
  qed
qed

definition demo_decode :: "string \<Rightarrow> string + Chunk" where
  "demo_decode x = Inr \<lparr>ck_DocID = ''a'', ck_ChunkID = ''a-'' @ Itoa 0, ck_Title = ''T'', ck_Text = x\<rparr>"

theorem corpus_indexed_witness:
  "\<exists>pd out. \<exists>w :: (nat \<times> broker_call list, nat, 64 word \<rightharpoonup> char PointStruct, char) worker. producer_main (\<lambda>c. Inr (ck_Text c)) (watching demo_rpcs) (\<lambda>k xs. xs) (\<lambda>k. apfst (\<lambda>n. n + 4)) None None demo_corpus
      ''A'' 200 (0, []) = Some (Inr (pd, Inr out)) \<and> worker_ran demo_decode text_embedder map_upsert w \<and>
    workers_wired {w} (demo_system ''x y'') \<and> producer_wired pd (demo_system ''x y'') \<and>
    wk_index w (ChunkIDToUUID (''a-'' @ Itoa 0)) \<noteq> None"
proof -
  let ?s = "demo_system ''x y''"
  obtain pd out where prod: "producer_main (\<lambda>c. Inr (ck_Text c)) (watching demo_rpcs) (\<lambda>k xs. xs) (\<lambda>k. apfst (\<lambda>n. n + 4)) None None
      demo_corpus ''A'' 200 (0, []) = Some (Inr (pd, Inr out))" "pd_taskIDs pd = [''t1'']"
      "set (pd_log pd) = {Accepted ''x y'' ''t1'', Finished ''t1''}" using demo_producer_run by blast
  obtain w where work: "worker_loop demo_decode (recording (demo_cluster ''x y'')) text_embedder map_upsert (\<lambda>k. apfst id)
      ''worker-7'' demo_schedule demo_worker = Some w" and log: "wk_log w = [Served \<lparr>tk_Id = ''t1'', tk_Payload = ''x y''\<rparr>,
        Reported \<lparr>cq_TaskId = ''t1'', cq_WorkerId = ''worker-7'', cq_Error = ''''\<rparr>]"
    using demo_worker_loop [of demo_decode "''x y''"] by (auto simp: demo_decode_def)
  have ran: "worker_ran demo_decode text_embedder map_upsert w"
    unfolding worker_ran_def by (intro exI conjI, rule demo_worker_main, rule work)
  have errs: "errors_have_text demo_decode text_embedder map_upsert"
    by (simp add: errors_have_text_def demo_decode_def text_embedder_def map_upsert_def)
  have wired: "workers_wired {w} ?s" "producer_wired pd ?s" "fresh_ids ?s"
    using log prod(3) by (auto simp: workers_wired_def producer_wired_def fresh_ids_def demo_system_facts)
  have "\<forall>c \<in> set (corpus_chunks 200 demo_corpus). \<forall>d. Inr (ck_Text c) = Inr d \<longrightarrow> demo_decode d = Inr c"
    by (simp add: demo_corpus_chunks demo_decode_def)
  from corpus_indexed [OF demo_system_reach demo_store errs prod(1) _ wired this, of "wk_index w"] ran
  have "wk_index w (ChunkIDToUUID (''a-'' @ Itoa 0)) \<noteq> None"
    by (auto simp: prod(2) demo_corpus_chunks demo_system_facts)
  then show ?thesis using prod(1) ran wired(1,2) by blast
qed

end
