(* ===== verification/System_Progress.thy ===== *)
theory System_Progress
  imports System_Theorems Broker_Theorems
begin

text \<open>
  The service stays available. Whatever has happened, any majority of the brokers that has
  not been killed can, by steps of its own, take one more command from a client to its
  acknowledgement, and every server of it then shows the command on its board.
\<close>

section \<open>Steps of a set of brokers\<close>

fun sys_node :: "System \<Rightarrow> sys_event \<Rightarrow> int option" where
  "sys_node s (SysRaft e) = event_node (sy_cluster s) e"
| "sys_node s (SysLeader k) =
     (case net_get (sy_cluster s) k of Some (MAppendReply l p args reply) \<Rightarrow> Some p | _ \<Rightarrow> None)"
| "sys_node s (SysStart i c) = Some i"
| "sys_node s (SysRegister n) = Some (pp_node (sy_waiting s ! n))"
| "sys_node s (SysAnswer n timedOut) = Some (pp_node (sy_waiting s ! n))"
| "sys_node s (SysApply i) = Some i"
| "sys_node s (SysGetState i) = Some i"
| "sys_node s (SysRefresh i b) = Some i"
| "sys_node s (SysPoll i now req) = Some i"
| "sys_node s (SysBeat i now req) = Some i"
| "sys_node s (SysScan i now) = Some i"
| "sys_node s (SysResult i req) = Some i"

definition served_by :: "ClusterConfig \<Rightarrow> int set \<Rightarrow> System \<Rightarrow> System \<Rightarrow> bool" where
  "served_by cfg A s t \<longleftrightarrow> (\<exists>ev i. system_exec cfg ev s = Some t \<and> sys_node s ev = Some i \<and> i \<in> A)"

lemma served_byI: "system_exec cfg ev s = Some t \<Longrightarrow> sys_node s ev = Some i \<Longrightarrow> i \<in> A \<Longrightarrow> served_by cfg A s t"
  by (auto simp: served_by_def)

lemma served_by_reach: "(served_by cfg A)\<^sup>*\<^sup>* s t \<Longrightarrow> system_reach cfg s \<Longrightarrow> system_reach cfg t"
  by (induction rule: rtranclp_induct) (auto simp: served_by_def intro: reach.reach_step system_exec_step)

text \<open>The steps of the Raft nodes are steps of the service.\<close>

lemma served_by_among:
  assumes "among cfg A (sy_cluster s) c"
  shows "served_by cfg A s (s\<lparr>sy_cluster := c\<rparr>)"
proof -
  obtain e i where e: "cluster_exec cfg e (sy_cluster s) = Some c" "event_node (sy_cluster s) e = Some i" "i \<in> A"
    using assms by (auto simp: among_def)
  moreover have "\<not> is_client_event e" using e(2) by (cases e) auto
  ultimately show ?thesis by (intro served_byI [of _ "SysRaft e"]) auto
qed

lemma served_by_among_star:
  assumes "(among cfg A)\<^sup>*\<^sup>* (sy_cluster s) c"
  shows "(served_by cfg A)\<^sup>*\<^sup>* s (s\<lparr>sy_cluster := c\<rparr>)"
  using assms
proof (induction rule: rtranclp_induct)
  case (step c d)
  from served_by_among [of cfg A "s\<lparr>sy_cluster := c\<rparr>" d] step.hyps(2) show ?case
    using step.IH by (simp add: rtranclp.rtrancl_into_rtrancl)
qed simp

section \<open>Applying what has been delivered\<close>

text \<open>A server takes everything that is on its commit channel.\<close>

definition caught_up_server :: "System \<Rightarrow> int \<Rightarrow> System \<Rightarrow> bool" where
  "caught_up_server s i t \<longleftrightarrow> sy_taken t i = length (channel s i) \<and>
     sy_servers t i = broker_run (map BApply (drop (sy_taken s i) (channel s i))) (sy_servers s i)"

definition only_applied :: "System \<Rightarrow> System \<Rightarrow> bool" where
  "only_applied s t \<longleftrightarrow> sy_cluster t = sy_cluster s \<and> sy_waiting t = sy_waiting s \<and> sy_acked t = sy_acked s"

lemma apply_channel:
  assumes "i \<in> A" and "i \<in> node_ids cfg" and "sy_taken s i \<le> length (channel s i)"
  shows "\<exists>t. (served_by cfg A)\<^sup>*\<^sup>* s t \<and> caught_up_server s i t \<and> only_applied s t \<and>
    (\<forall>j. j \<noteq> i \<longrightarrow> sy_servers t j = sy_servers s j \<and> sy_taken t j = sy_taken s j)"
  using assms(3)
proof (induction "length (channel s i) - sy_taken s i" arbitrary: s)
  case 0
  then show ?case by (intro exI [of _ s]) (simp add: caught_up_server_def only_applied_def)
next
  case (Suc n)
  let ?k = "sy_taken s i"
  let ?t = "(put_server i (apply_message (channel s i ! ?k) (sy_servers s i)) s)\<lparr>sy_taken := (sy_taken s)(i := ?k + 1)\<rparr>"
  have k: "?k < length (channel s i)" using Suc.hyps(2) by simp
  have st: "served_by cfg A s ?t" by (rule served_byI [of _ "SysApply i"]) (use assms k in simp_all)
  have n: "n = length (channel ?t i) - sy_taken ?t i" and le: "sy_taken ?t i \<le> length (channel ?t i)"
    using Suc.hyps(2) k by simp_all
  obtain u where u: "(served_by cfg A)\<^sup>*\<^sup>* ?t u" "caught_up_server ?t i u" "only_applied ?t u"
      "\<forall>j. j \<noteq> i \<longrightarrow> sy_servers u j = sy_servers ?t j \<and> sy_taken u j = sy_taken ?t j"
    using Suc.hyps(1) [OF n le] by blast
  then have "caught_up_server s i u" using k by (simp add: caught_up_server_def Cons_nth_drop_Suc [symmetric])
  then show ?case
    using converse_rtranclp_into_rtranclp [of "served_by cfg A", OF st u(1)] u(3,4)
    by (intro exI [of _ u]) (auto simp: only_applied_def)
qed

lemma apply_channels:
  assumes "distinct js" and "set js \<subseteq> A" and "A \<subseteq> node_ids cfg" and "\<And>i. sy_taken s i \<le> length (channel s i)"
  shows "\<exists>t. (served_by cfg A)\<^sup>*\<^sup>* s t \<and> only_applied s t \<and> (\<forall>i \<in> set js. caught_up_server s i t) \<and>
    (\<forall>j. j \<notin> set js \<longrightarrow> sy_servers t j = sy_servers s j \<and> sy_taken t j = sy_taken s j)"
  using assms
proof (induction js arbitrary: s)
  case Nil
  then show ?case by (intro exI [of _ s]) (simp add: only_applied_def)
next
  case (Cons i js)
  have i: "i \<in> A" "i \<in> node_ids cfg" "i \<notin> set js" using Cons.prems by auto
  obtain t where t: "(served_by cfg A)\<^sup>*\<^sup>* s t" "caught_up_server s i t" "only_applied s t"
      "\<forall>j. j \<noteq> i \<longrightarrow> sy_servers t j = sy_servers s j \<and> sy_taken t j = sy_taken s j"
    using apply_channel [OF i(1,2) Cons.prems(4)] by blast
  have "sy_taken t j \<le> length (channel t j)" for j
    using t(2-4) Cons.prems(4) [of j] by (cases "j = i") (auto simp: caught_up_server_def only_applied_def)
  then obtain u where u: "(served_by cfg A)\<^sup>*\<^sup>* t u" "only_applied t u" "\<forall>j \<in> set js. caught_up_server t j u"
      "\<forall>j. j \<notin> set js \<longrightarrow> sy_servers u j = sy_servers t j \<and> sy_taken u j = sy_taken t j"
    using Cons.IH [of t] Cons.prems by auto
  have same: "sy_cluster t = sy_cluster s" using t(3) by (simp add: only_applied_def)
  have all: "caught_up_server s j u" if "j \<in> set (i # js)" for j
  proof (cases "j = i")
    case True
    then show ?thesis using t(2) u(4) [rule_format, OF i(3)] unfolding caught_up_server_def by metis
  next
    case False
    then have "caught_up_server t j u" using that u(3) by simp
    then show ?thesis using t(4) [rule_format, OF False] same unfolding caught_up_server_def by metis
  qed
  have "only_applied s u" using t(3) u(2) by (simp add: only_applied_def)
  moreover have "\<forall>j. j \<notin> set (i # js) \<longrightarrow> sy_servers u j = sy_servers s j \<and> sy_taken u j = sy_taken s j"
    using t(4) u(4) by simp
  ultimately show ?case using rtranclp_trans [OF t(1) u(1)] all by blast
qed

text \<open>A waiter is woken by the one message of its index.\<close>

lemma slot_answer_found:
  assumes "m \<in> set ms" and "am_Index m = index" and "\<And>m'. m' \<in> set ms \<Longrightarrow> am_Index m' = index \<Longrightarrow> am_Term m' = am_Term m"
  shows "slot_answer index (map BApply ms) = Some (am_Term m)"
  using assms
proof (induction ms)
  case (Cons a ms)
  show ?case
  proof (cases "am_Index a = index")
    case True
    then show ?thesis using Cons.prems(3) [of a] by simp
  next
    case False
    then have "m \<in> set ms" using Cons.prems(1,2) by auto
    from Cons.IH [OF this Cons.prems(2) Cons.prems(3) [OF list.set_intros(2)]] show ?thesis using False by simp
  qed
qed simp

section \<open>Serving a command\<close>

text \<open>What a majority does with the entry that its leader has just written.\<close>

lemma entry_delivered:
  assumes s: "cluster_reach cfg s" and A: "majority cfg A" "2 \<le> card (node_ids cfg)" and i: "i \<in> A"
    and alive: "\<And>j. j \<in> A \<Longrightarrow> \<not> rf_dead (cl_nodes s j)"
    and lead: "node_state s i = Leader" "\<And>j. j \<in> A \<Longrightarrow> node_term s j \<le> node_term s i"
    and own: "node_log s i \<noteq> []" "le_Term (last (node_log s i)) = node_term s i"
  obtains t where "(among cfg A)\<^sup>*\<^sup>* s t"
    "\<forall>j \<in> A. length (node_log s i) \<le> length (rf_commitCh (cl_nodes t j))"
    "rf_commitCh (cl_nodes t i) ! (length (node_log s i) - 1) = apply_msg (last (node_log s i))"
    "node_state t i = Leader"
proof -
  let ?n = "length (node_log s i)"
  note mem = majority_members [OF A(1)]
  obtain t where t: "(among cfg A)\<^sup>*\<^sup>* s t" "still_leads A i s t"
      "\<And>j. j \<in> A \<Longrightarrow> int ?n \<le> node_commit t j"
    using majority_commits [OF s A i lead own] by blast
  have rt: "cluster_reach cfg t" by (rule among_reach [OF t(1) s])
  obtain js where js: "set js = A" using finite_list mem by blast
  have dead: "\<not> rf_dead (cl_nodes t j)" if "j \<in> A" for j
    using among_dead [OF t(1), of j] alive [OF that] by simp
  from drain_all [OF rt, of js A, OF _ conjunct1 [OF mem] dead] js obtain u where
    u: "(among cfg A)\<^sup>*\<^sup>* t u" "\<forall>j \<in> A. drained (cl_nodes u j)"
      "\<forall>j. node_log u j = node_log t j \<and> node_commit u j = node_commit t j \<and> node_state u j = node_state t j" by auto
  have ru: "cluster_reach cfg u" by (rule among_reach [OF u(1) rt])
  have long: "?n \<le> length (rf_commitCh (cl_nodes u j))" if j: "j \<in> A" for j
  proof -
    have "j \<in> node_ids cfg" using j mem by blast
    from nodes_committedD(2) [OF reach_invs(7) [OF rt] this] show ?thesis
      using u(2,3) j t(3) [OF j] by (simp add: drained_def)
  qed
  have log: "node_log u i = node_log s i" using u(3) t(2) by (simp add: still_leads_def)
  have "?n - 1 < length (rf_commitCh (cl_nodes u i))" using long [OF i] own(1) by (cases "node_log s i") simp_all
  then have "rf_commitCh (cl_nodes u i) ! (?n - 1) = apply_msg (node_log s i ! (?n - 1))"
    using u(2) i log by (auto simp: drained_def)
  then have "rf_commitCh (cl_nodes u i) ! (?n - 1) = apply_msg (last (node_log s i))"
    using own(1) by (simp add: last_conv_nth)
  moreover have "node_state u i = Leader" using u(3) t(2) by (simp add: still_leads_def)
  ultimately show thesis using that [OF rtranclp_trans [OF t(1) u(1)]] long by blast
qed

text \<open>A leader takes a command and registers the handler that waits for it.\<close>

lemma take_command:
  assumes s: "system_reach cfg s" and i: "i \<in> A" "i \<in> node_ids cfg" and lead: "node_state (sy_cluster s) i = Leader"
  obtains t p a where "(served_by cfg A)\<^sup>*\<^sup>* s t" "sy_waiting t = sy_waiting s @ [p]" "sy_acked t = sy_acked s"
    "pp_node p = i" "pp_cmd p = c" "pp_index p = int (length (node_log (sy_cluster t) i))"
    "pp_term p = node_term (sy_cluster t) i" "pp_op p = Some a"
    "bs_pendingOps (sy_servers t i) (pp_index p) = Some a" "sy_taken t = sy_taken s"
    "node_log (sy_cluster t) i \<noteq> []" "last (node_log (sy_cluster t) i) =
       \<lparr>le_Index = pp_index p, le_Term = node_term (sy_cluster t) i, le_Command = encode_command c\<rparr>"
    "length (node_log (sy_cluster s) i) < length (node_log (sy_cluster t) i)"
    "\<forall>j. node_state (sy_cluster t) j = node_state (sy_cluster s) j \<and> node_term (sy_cluster t) j = node_term (sy_cluster s) j \<and>
       rf_dead (cl_nodes (sy_cluster t) j) = rf_dead (cl_nodes (sy_cluster s) j)"
proof -
  let ?C = "sy_cluster s" and ?c = "encode_command c" and ?b = "sy_servers s i" and ?w = "length (sy_waiting s)"
  let ?n = "int (length (node_log ?C i)) + 1"
  have rc: "cluster_reach cfg ?C" using system_invs(1) [OF s] .
  obtain l where st: "Start ?c (cl_nodes ?C i) =
        Inr ((cl_nodes ?C i)\<lparr>rf_log := l\<rparr>, (?n, node_term ?C i, True), other_peers (cl_nodes ?C i))"
      "log_list l = node_log ?C i @ [\<lparr>le_Index = ?n, le_Term = node_term ?C i, le_Command = ?c\<rparr>]"
    using Start_effect [OF reach_node(2) [OF rc i(2)], of ?c] lead by auto
  let ?rf = "(cl_nodes ?C i)\<lparr>rf_log := l\<rparr>"
  let ?q = "\<lparr>pp_node = i, pp_cmd = c, pp_index = ?n, pp_term = node_term ?C i, pp_op = None\<rparr>"
  let ?s1 = "s\<lparr>sy_cluster := note_leader True i (set_node i ?rf ?C), sy_waiting := sy_waiting s @ [?q],
      sy_started := sy_started s @ [c]\<rparr>"
  let ?p = "?q\<lparr>pp_op := Some (length (bs_ops ?b))\<rparr>"
  let ?s2 = "(put_server i (register_op ?n (node_term ?C i) ?b) ?s1)\<lparr>sy_waiting := sy_waiting s @ [?p]\<rparr>"
  have "served_by cfg A s ?s1" by (rule served_byI [of _ "SysStart i c"]) (use i st(1) in \<open>simp_all add: Let_def\<close>)
  moreover have "served_by cfg A ?s1 ?s2"
    by (rule served_byI [of _ "SysRegister ?w"]) (use i in \<open>simp_all add: Let_def\<close>)
  ultimately have run: "(served_by cfg A)\<^sup>*\<^sup>* s ?s2" by (meson r_into_rtranclp rtranclp.rtrancl_into_rtrancl)
  show thesis
    by (rule that [of ?s2 ?p, OF run]) (use st(2) in \<open>simp_all add: register_op_def\<close>)
qed

text \<open>Once the leader's server has applied its channel, the handler is answered with success.\<close>

lemma waiter_answered:
  assumes s: "system_reach cfg s" and i: "pp_node p \<in> A" "pp_node p \<in> node_ids cfg"
    and reg: "bs_pendingOps (sy_servers s (pp_node p)) (pp_index p) = Some a" "pp_op p = Some a"
    and up: "caught_up_server s (pp_node p) t" "only_applied s t" "sy_waiting s = ws @ [p]"
    and n: "pp_index p = int (Suc n)" "sy_taken s (pp_node p) \<le> n" "n < length (channel s (pp_node p))"
      "am_Term (channel s (pp_node p) ! n) = pp_term p"
  shows "\<exists>u. served_by cfg A t u \<and> sy_acked u = sy_acked s @ [p] \<and> sy_taken u = sy_taken t"
proof -
  let ?i = "pp_node p" and ?b = "sy_servers t (pp_node p)"
  let ?ch = "channel s ?i" and ?ms = "drop (sy_taken s (pp_node p)) (channel s (pp_node p))"
  note inv = system_invs [OF s]
  have idx: "am_Index (?ch ! k) = int k + 1" if "k < length ?ch" for k by (rule channel_index [OF inv(1) i(2) that])
  have mem: "?ch ! n \<in> set ?ms"
    using n(2,3) by (auto simp: in_set_conv_nth intro!: exI [of _ "n - sy_taken s ?i"])
  have "am_Term m = am_Term (?ch ! n)" if m: "m \<in> set ?ms" "am_Index m = pp_index p" for m
  proof -
    have "m \<in> set ?ch" by (rule in_set_dropD [OF m(1)])
    then obtain k where k: "k < length ?ch" "?ch ! k = m" unfolding in_set_conv_nth by blast
    have "int k + 1 = int (Suc n)" using idx [OF k(1)] unfolding k(2) m(2) n(1) by (rule sym)
    then have "k = n" by simp
    then show ?thesis using k(2) by simp
  qed
  moreover have "am_Index (?ch ! n) = pp_index p" using idx [OF n(3)] n(1) by simp
  ultimately have "slot_answer (pp_index p) (map BApply ?ms) = Some (pp_term p)"
    using slot_answer_found [OF mem] n(4) by simp
  moreover have "ops_ok (sy_servers s ?i)" using inv(3) by (auto simp: servers_inv_def server_ok_def broker_ok_def)
  moreover have "?b = broker_run (map BApply ?ms) (sy_servers s ?i)" using up(1) by (simp add: caught_up_server_def)
  ultimately have closed: "po_closed (bs_ops ?b ! a)" "po_term (bs_ops ?b ! a) = pp_term p"
    using slot_outcome [OF _ reg(1), of "map BApply ?ms"] by simp_all
  have w: "sy_waiting t = ws @ [p]" "sy_acked t = sy_acked s" using up(2,3) by (simp_all add: only_applied_def)
  let ?u = "(put_server ?i ?b t)\<lparr>sy_waiting := drop_nth (length ws) (sy_waiting t), sy_acked := sy_acked t @ [p]\<rparr>"
  have "system_exec cfg (SysAnswer (length ws) False) t = Some ?u"
    using w closed reg(2) by (simp add: await_result_def Let_def)
  moreover have "sys_node t (SysAnswer (length ws) False) = Some ?i" using w(1) by simp
  ultimately have "served_by cfg A t ?u" using i(1) by (rule served_byI)
  then show ?thesis using w(2) by (intro exI [of _ ?u]) simp
qed

text \<open>A majority that is alive elects a leader, which takes the command through.\<close>

lemma command_served:
  assumes s: "system_reach cfg s" and A: "majority cfg A" and two: "2 \<le> length (cc_Nodes cfg)"
    and alive: "\<And>i. i \<in> A \<Longrightarrow> \<not> rf_dead (cl_nodes (sy_cluster s) i)"
    and c: "CHR '':'' \<notin> set (command_id c)"
  shows "\<exists>t p. (served_by cfg A)\<^sup>*\<^sup>* s t \<and> sy_acked t = sy_acked s @ [p] \<and> pp_cmd p = c \<and> pp_node p \<in> A \<and>
    (\<forall>j \<in> A. on_board c (board_at t j))"
proof -
  have rc: "cluster_reach cfg (sy_cluster s)" using system_invs(1) [OF s] .
  note mem = majority_members [OF A]
  have two': "2 \<le> card (node_ids cfg)"
    using two reach_invs(1) [OF rc] by (simp add: type_inv_def card_node_ids)
  obtain C i where C: "(among cfg A)\<^sup>*\<^sup>* (sy_cluster s) C" "i \<in> A" "node_state C i = Leader"
      "\<And>j. j \<in> A \<Longrightarrow> node_term C j \<le> node_term C i"
    using elect [OF rc A two' alive] by blast
  then have i: "i \<in> node_ids cfg" using mem by blast
  let ?s1 = "s\<lparr>sy_cluster := C\<rparr>"
  have s1: "(served_by cfg A)\<^sup>*\<^sup>* s ?s1" by (rule served_by_among_star [OF C(1)])
  have r1: "system_reach cfg ?s1" by (rule served_by_reach [OF s1 s])
  have "node_state (sy_cluster ?s1) i = Leader" using C(3) by simp
  from take_command [OF r1 C(2) i this, of c] obtain s2 p a where
    s2: "(served_by cfg A)\<^sup>*\<^sup>* ?s1 s2" and p: "sy_waiting s2 = sy_waiting s @ [p]" "sy_acked s2 = sy_acked s"
      "pp_node p = i" "pp_cmd p = c" "pp_index p = int (length (node_log (sy_cluster s2) i))"
      "pp_term p = node_term (sy_cluster s2) i" "pp_op p = Some a"
      "bs_pendingOps (sy_servers s2 i) (pp_index p) = Some a"
    and tk: "sy_taken s2 = sy_taken s"
    and own: "node_log (sy_cluster s2) i \<noteq> []" "last (node_log (sy_cluster s2) i) =
       \<lparr>le_Index = pp_index p, le_Term = node_term (sy_cluster s2) i, le_Command = encode_command c\<rparr>"
      "length (node_log C i) < length (node_log (sy_cluster s2) i)"
    and same: "\<forall>j. node_state (sy_cluster s2) j = node_state C j \<and> node_term (sy_cluster s2) j = node_term C j \<and>
       rf_dead (cl_nodes (sy_cluster s2) j) = rf_dead (cl_nodes C j)"
    by auto
  let ?n = "length (node_log (sy_cluster s2) i)"
  have r2: "system_reach cfg s2" by (rule served_by_reach [OF s2 r1])
  have rc2: "cluster_reach cfg (sy_cluster s2)" using system_invs(1) [OF r2] .
  have dead2: "\<not> rf_dead (cl_nodes (sy_cluster s2) j)" if "j \<in> A" for j
    using same among_dead [OF C(1), of j] alive [OF that] by simp
  have lead2: "node_state (sy_cluster s2) i = Leader"
      "\<And>j. j \<in> A \<Longrightarrow> node_term (sy_cluster s2) j \<le> node_term (sy_cluster s2) i"
    using same C(3,4) by simp_all
  have own2: "le_Term (last (node_log (sy_cluster s2) i)) = node_term (sy_cluster s2) i" using own(2) by simp
  obtain D where D: "(among cfg A)\<^sup>*\<^sup>* (sy_cluster s2) D"
      "\<forall>j \<in> A. ?n \<le> length (rf_commitCh (cl_nodes D j))"
      "rf_commitCh (cl_nodes D i) ! (?n - 1) = apply_msg (last (node_log (sy_cluster s2) i))"
    by (rule entry_delivered [OF rc2 A two' C(2) dead2 lead2 own(1) own2]) blast
  let ?s3 = "s2\<lparr>sy_cluster := D\<rparr>"
  have s3: "(served_by cfg A)\<^sup>*\<^sup>* s2 ?s3" by (rule served_by_among_star [OF D(1)])
  have r3: "system_reach cfg ?s3" by (rule served_by_reach [OF s3 r2])
  have taken3: "sy_taken ?s3 j \<le> length (channel ?s3 j)" for j
    using system_invs(3) [OF r3] by (simp add: servers_inv_def)
  obtain js where js: "set js = A" "distinct js" using finite_distinct_list mem by blast
  obtain s4 where s4: "(served_by cfg A)\<^sup>*\<^sup>* ?s3 s4" "only_applied ?s3 s4" "\<forall>j \<in> A. caught_up_server ?s3 j s4"
    using apply_channels [OF js(2) eq_refl [OF js(1)] conjunct1 [OF mem] taken3] js(1) by auto
  have r4: "system_reach cfg s4" by (rule served_by_reach [OF s4(1) r3])
  have low: "sy_taken s i \<le> length (node_log C i)"
  proof -
    have ok: "apply_ok (cl_nodes C i)" using reach_node(4) [OF system_invs(1) [OF r1] i] by simp
    have "sy_taken s i \<le> length (rf_commitCh (cl_nodes C i))"
      using system_invs(3) [OF r1] by (simp add: servers_inv_def)
    then show ?thesis using length_commitCh [OF ok] delivered_le [OF ok] ok by (simp add: apply_ok_def)
  qed
  have pn: "pp_index p = int (Suc (?n - 1))" using p(5) own(1) by (cases "node_log (sy_cluster s2) i") simp_all
  have low': "sy_taken s i \<le> ?n - 1" "?n - 1 < length (rf_commitCh (cl_nodes D i))"
    using low own(1,3) D(2) C(2) by (auto intro: order_less_le_trans simp: diff_less)
  obtain t where t: "served_by cfg A s4 t" "sy_acked t = sy_acked ?s3 @ [p]" "sy_taken t = sy_taken s4"
    using waiter_answered [OF r3, of p A a s4 "sy_waiting s" "?n - 1"] p own D(2,3) C(2) i s4(2,3) tk low' pn
    by (auto simp: apply_msg_def)
  have "(served_by cfg A)\<^sup>*\<^sup>* s4 t" using t(1) by blast
  then have r5: "system_reach cfg t" by (rule served_by_reach [OF _ r4])
  have run: "(served_by cfg A)\<^sup>*\<^sup>* s t"
    using s1 s2 s3 s4(1) t(1) by (meson rtranclp.rtrancl_into_rtrancl rtranclp_trans)
  have "on_board c (board_at t j)" if j: "j \<in> A" for j
  proof -
    have "nat (pp_index p) \<le> sy_taken t j"
      using s4(3) D(2) j p(5) t(3) by (auto simp: caught_up_server_def)
    moreover have "p \<in> set (sy_acked t)" using t(2) by simp
    ultimately show ?thesis using acked_on_board [OF r5, of p j] p(4) c j mem by auto
  qed
  then show ?thesis using run t(2) p(2-4) C(2) by (intro exI [of _ t] exI [of _ p]) auto
qed

text \<open>C3 The service stays available: in every reachable state of a cluster of at least two
  brokers (one alone never elects itself), whatever failures, elections and lost messages
  led there, any majority of brokers that has not been killed can take any further command
  whose identifier has no colon to its acknowledgement by its own steps alone: there is a run in which only these brokers act, after which one of them has answered the
  command with success, no other answer has been given, and every broker of the majority
  shows the command on its board.\<close>

theorem majority_serves:
  assumes s: "system_reach cfg s" and A: "majority cfg A" and two: "2 \<le> length (cc_Nodes cfg)"
    and alive: "\<And>i. i \<in> A \<Longrightarrow> \<not> rf_dead (cl_nodes (sy_cluster s) i)"
    and c: "CHR '':'' \<notin> set (command_id c)"
  shows "\<exists>t p. (served_by cfg A)\<^sup>*\<^sup>* s t \<and> sy_acked t = sy_acked s @ [p] \<and> pp_cmd p = c \<and> pp_node p \<in> A \<and>
    (\<forall>j \<in> A. on_board c (board_at t j))"
  by (rule command_served [OF assms])

theorem majority_serves_witness:
  "\<exists>s t p. system_reach demo_cfg s \<and> rf_dead (cl_nodes (sy_cluster s) 2) \<and>
     (served_by demo_cfg {0, 1})\<^sup>*\<^sup>* s t \<and> sy_acked t = [p] \<and> pp_cmd p = CSubmit ''t9'' ''y'' \<and>
     on_board (CSubmit ''t9'' ''y'') (board_at t 0) \<and> on_board (CSubmit ''t9'' ''y'') (board_at t 1)"
proof -
  let ?C = "sy_cluster demo_boot"
  let ?s = "demo_boot\<lparr>sy_cluster := set_node 2 (Kill (cl_nodes ?C 2)) ?C\<rparr>"
  have wf: "wf_cfg demo_cfg" using demo_boot_start by (simp add: system_start_def)
  have "system_exec demo_cfg (SysRaft (EvKill 2)) demo_boot = Some ?s" by (simp add: demo_ids)
  moreover have "system_reach demo_cfg demo_boot" using demo_boot_start by (rule reach.reach_start)
  ultimately have s: "system_reach demo_cfg ?s" by (meson reach.reach_step system_exec_step)
  have A: "majority demo_cfg {0, 1}" by (simp add: majority_def demo_ids)
  have two: "2 \<le> length (cc_Nodes demo_cfg)" using card_node_ids [OF wf] by (simp add: demo_ids)
  have alive: "\<not> rf_dead (cl_nodes (sy_cluster ?s) j)" if "j \<in> {0, 1}" for j
    using that by (auto simp: init_system_def init_cluster_def)
  have "rf_dead (cl_nodes (sy_cluster ?s) 2)" and acked: "sy_acked ?s = []" by (simp_all add: Kill_def init_system_def)
  moreover obtain t p where "(served_by demo_cfg {0, 1})\<^sup>*\<^sup>* ?s t" "sy_acked t = sy_acked ?s @ [p]"
      "pp_cmd p = CSubmit ''t9'' ''y''" "\<forall>j \<in> {0, 1}. on_board (CSubmit ''t9'' ''y'') (board_at t j)"
    using majority_serves [OF s A two alive, of "CSubmit ''t9'' ''y''"] by (auto simp del: server_at_ok)
  ultimately show ?thesis using s unfolding acked by (metis append_Nil insertI1 insertI2)
qed

end
