(* ===== verification/System_Liveness.thy ===== *)
theory System_Liveness
  imports System_Progress
begin

text \<open>
  No task is stranded. A task that any server shows is in the log of every leader that a
  live majority elects; that leader applies its log, forgets the workers that have fallen
  silent and hands the task out again, and its completion reaches every server of the
  majority.
\<close>

section \<open>What a leader has\<close>

text \<open>A new leader writes an entry of its own term at once, so its log ends with one.\<close>

lemma tlog_ends:
  assumes "cluster_reach cfg s"
  shows "h_leader s tm \<noteq> None \<Longrightarrow> h_tlog s tm \<noteq> [] \<and> le_Term (last (h_tlog s tm)) = tm"
  using assms
proof (induction arbitrary: tm rule: reach.induct)
  case (reach_start s)
  then show ?case by (auto simp: cluster_start_def init_cluster_def)
next
  case (reach_step s t)
  from reach_step.hyps(2) reach_invs(1) [OF reach_step.hyps(1)] show ?case
    by (cases rule: cluster_step_cases) (use reach_step.IH [of tm] reach_step.prems in \<open>auto split: if_splits\<close>)
qed

lemma leader_log_ends:
  assumes s: "cluster_reach cfg s" and i: "i \<in> node_ids cfg" and lead: "node_state s i = Leader"
  shows "node_log s i \<noteq> []" and "le_Term (last (node_log s i)) = node_term s i"
proof -
  note inv = reach_invs [OF s]
  show "node_log s i \<noteq> []" "le_Term (last (node_log s i)) = node_term s i"
    using tlog_ends [OF s, of "node_term s i"] leader_invL [OF inv(3) i lead] match_invD(6) [OF inv(4) i lead] by auto
qed

text \<open>
  It has what any node has committed, when a majority has terms no higher than its own:
  one of them acknowledged the entry, so its term is not below that of the entry.
\<close>

lemma leader_covers:
  assumes s: "cluster_reach cfg s" and A: "majority cfg A" and i: "i \<in> node_ids cfg" "node_state s i = Leader"
    and top: "\<And>j. j \<in> A \<Longrightarrow> node_term s j \<le> node_term s i" and k: "k \<in> node_ids cfg"
  shows "take (nat (node_commit s k)) (node_log s i) = take (nat (node_commit s k)) (node_log s k)"
proof (cases "node_commit s k = 0")
  case False
  note inv = reach_invs [OF s]
  let ?n = "nat (node_commit s k)"
  have "committed cfg s (node_term s k) ?n (node_log s k)"
    using nodes_committedD(3) [OF inv(7) k] False by simp
  then obtain tm m where m: "own s tm m" "chosen cfg s tm m" "?n \<le> m"
      "take ?n (node_log s k) = take ?n (h_tlog s tm)"
    by (auto simp: committed_def)
  from m(2) obtain Q where Q: "majority cfg Q" "\<forall>v \<in> Q. acked s tm v m" by (auto simp: chosen_def)
  from maj.quorum_meet [OF Q(1) A] obtain v where v: "v \<in> Q" "v \<in> A" by blast
  have "tm \<le> node_term s v" using acked_bounds(2) [OF inv(5)] Q(2) v(1) by blast
  then have "tm \<le> node_term s i" using top [OF v(2)] by simp
  then have "committed cfg s (node_term s i) ?n (node_log s k)" using m unfolding committed_def by blast
  from committed_leader [OF inv(6) this order_refl] show ?thesis
    using leader_invL [OF inv(3) i] match_invD(6) [OF inv(4) i] by simp
qed simp

section \<open>The leader catches up\<close>

text \<open>Along a run the servers only apply more, and \<open>Poll\<close> only hands out more.\<close>

lemma applied_grows:
  assumes "(served_by cfg A)\<^sup>*\<^sup>* s t" and "system_reach cfg s"
  shows "\<exists>ms. applied t k = applied s k @ ms"
  using assms(1)
proof (induction rule: rtranclp_induct)
  case (step t u)
  obtain ev where ev: "system_exec cfg ev t = Some u" using step.hyps(2) by (auto simp: served_by_def)
  have "\<forall>i. sy_taken t i \<le> length (channel t i)"
    using system_invs(3) [OF served_by_reach [OF step.hyps(1) assms(2)]] by (simp add: servers_inv_def)
  from sys_server_move [OF ev this, of k] step.IH show ?case by auto
qed simp

lemma exec_serves_more: "system_exec cfg ev s = Some t \<Longrightarrow> \<exists>ts. sy_served t = sy_served s @ ts"
  by (cases ev) (auto simp: Let_def split: if_splits sum.splits option.splits prod.splits msg.splits)

lemma serves_more: "(served_by cfg A)\<^sup>*\<^sup>* s t \<Longrightarrow> \<exists>ts. sy_served t = sy_served s @ ts"
proof (induction rule: rtranclp_induct)
  case (step t u)
  then obtain ev ts where "system_exec cfg ev t = Some u" "sy_served t = sy_served s @ ts" by (auto simp: served_by_def)
  then show ?case using exec_serves_more by fastforce
qed simp

text \<open>Nobody is killed by steps of brokers.\<close>

lemma served_by_dead_step:
  assumes "served_by cfg A s t"
  shows "rf_dead (cl_nodes (sy_cluster t) j) = rf_dead (cl_nodes (sy_cluster s) j)"
proof -
  obtain ev i where ev: "system_exec cfg ev s = Some t" "sys_node s ev = Some i" "i \<in> A"
    using assms by (auto simp: served_by_def)
  show ?thesis
  proof (cases ev)
    case (SysRaft e)
    with ev have "among cfg A (sy_cluster s) (sy_cluster t)" by (auto simp: among_def split: if_splits)
    then show ?thesis by (rule among_dead_step)
  next
    case (SysStart k c)
    with ev show ?thesis
      by (auto simp: Let_def Start_def go_bind_Inr_iff split: if_splits sum.splits prod.splits)
  qed (use ev in \<open>auto simp: Let_def split: if_splits option.splits prod.splits msg.splits\<close>)
qed

lemma served_by_dead:
  "(served_by cfg A)\<^sup>*\<^sup>* s t \<Longrightarrow> rf_dead (cl_nodes (sy_cluster t) j) = rf_dead (cl_nodes (sy_cluster s) j)"
  by (induction rule: rtranclp_induct) (simp_all add: served_by_dead_step)

lemma leader_catches_up:
  assumes s: "system_reach cfg s" and A: "majority cfg A" and two: "2 \<le> length (cc_Nodes cfg)"
    and alive: "\<And>i. i \<in> A \<Longrightarrow> \<not> rf_dead (cl_nodes (sy_cluster s) i)"
  obtains t i where "(served_by cfg A)\<^sup>*\<^sup>* s t" "i \<in> A" "i \<in> node_ids cfg" "node_state (sy_cluster t) i = Leader"
    "\<And>k. k \<in> node_ids cfg \<Longrightarrow> board_extends (board_at s k) (board_at t i)"
proof -
  have rc: "cluster_reach cfg (sy_cluster s)" using system_invs(1) [OF s] .
  note mem = majority_members [OF A]
  have two': "2 \<le> card (node_ids cfg)"
    using two reach_invs(1) [OF rc] by (simp add: type_inv_def card_node_ids)
  obtain C i where C: "(among cfg A)\<^sup>*\<^sup>* (sy_cluster s) C" "i \<in> A" "node_state C i = Leader"
      "\<And>j. j \<in> A \<Longrightarrow> node_term C j \<le> node_term C i"
    using elect [OF rc A two' alive] by blast
  then have i: "i \<in> node_ids cfg" using mem by blast
  have r1: "cluster_reach cfg C" by (rule among_reach [OF C(1) rc])
  have dead: "\<not> rf_dead (cl_nodes C j)" if "j \<in> A" for j using among_dead [OF C(1), of j] alive [OF that] by simp
  obtain D where D: "(among cfg A)\<^sup>*\<^sup>* C D" "\<forall>j \<in> A. length (node_log C i) \<le> length (rf_commitCh (cl_nodes D j))"
      "node_state D i = Leader"
    by (rule entry_delivered [OF r1 A two' C(2) dead C(3,4) leader_log_ends [OF r1 i C(3)]]) blast
  let ?s3 = "s\<lparr>sy_cluster := D\<rparr>"
  have s3: "(served_by cfg A)\<^sup>*\<^sup>* s ?s3" by (rule served_by_among_star [OF rtranclp_trans [OF C(1) D(1)]])
  have taken3: "sy_taken ?s3 j \<le> length (channel ?s3 j)" for j
    using system_invs(3) [OF served_by_reach [OF s3 s]] by (simp add: servers_inv_def)
  obtain t where t: "(served_by cfg A)\<^sup>*\<^sup>* ?s3 t" "only_applied ?s3 t" "caught_up_server ?s3 i t"
    using apply_channel [OF C(2) i taken3] by blast
  have run: "(served_by cfg A)\<^sup>*\<^sup>* s t" by (rule rtranclp_trans [OF s3 t(1)])
  have rt: "system_reach cfg t" by (rule served_by_reach [OF run s])
  note inv = system_invs [OF rt]
  have "board_extends (board_at s k) (board_at t i)" if k: "k \<in> node_ids cfg" for k
  proof -
    let ?n = "sy_taken s k"
    obtain ms where ms: "applied t k = applied s k @ ms" using applied_grows [OF run s] by blast
    have len: "length (applied s k) = ?n" using system_invs(3) [OF s] by (simp add: servers_inv_def)
    have nk: "?n \<le> sy_taken t k"
      using arg_cong [OF ms, of length] len by simp
    have "system_reach cfg (s\<lparr>sy_cluster := C\<rparr>)" by (rule served_by_reach [OF served_by_among_star [OF C(1)] s])
    then have "?n \<le> length (rf_commitCh (cl_nodes C k))" using system_invs(3) by (fastforce simp: servers_inv_def)
    also have "\<dots> \<le> nat (node_commit C k)"
      using length_commitCh [OF reach_node(4) [OF r1 k]] delivered_le [OF reach_node(4) [OF r1 k]] by linarith
    also have "\<dots> \<le> length (node_log C i)"
    proof -
      have "nat (node_commit C k) \<le> length (node_log C k)" using reach_node(4) [OF r1 k] by (auto simp: apply_ok_def)
      then show ?thesis
        using arg_cong [OF leader_covers [OF r1 A i C(3,4) k], of length] by simp
    qed
    also have "\<dots> \<le> sy_taken t i" using D(2) C(2) t(3) by (auto simp: caught_up_server_def)
    finally have "take ?n (applied t k) = take ?n (applied t i)" by (intro applied_prefix [OF inv(1,3) k i nk])
    then have "applied t i = applied s k @ drop ?n (applied t i)"
      using ms len by (metis append_eq_conv_conj append_take_drop_id)
    then show ?thesis
      unfolding board_of_applied [OF inv(3)] board_of_applied [OF system_invs(3) [OF s]]
      using board_run_extends by metis
  qed
  moreover have "node_state (sy_cluster t) i = Leader" using t(2) D(3) by (simp add: only_applied_def)
  ultimately show thesis using that [OF run C(2) i] by blast
qed

section \<open>The leader hands the task out\<close>

text \<open>A goroutine of a leader gets past \<open>refreshLeaderState\<close>.\<close>

lemma enter_leader:
  assumes i: "i \<in> A" "i \<in> node_ids cfg" and lead: "node_state (sy_cluster s) i = Leader"
  obtains t where "(served_by cfg A)\<^sup>*\<^sup>* s t" "sy_cluster t = sy_cluster s" "i \<in> set (sy_entered t)"
    "sy_servers t i = note_leadership True (server_at s i)" "sy_served t = sy_served s"
proof -
  let ?s1 = "s\<lparr>sy_seen := sy_seen s @ [(i, True)]\<rparr>"
  let ?t = "(put_server i (note_leadership True (server_at s i)) ?s1)
      \<lparr>sy_seen := remove1 (i, True) (sy_seen ?s1), sy_entered := sy_entered s @ [i]\<rparr>"
  have "served_by cfg A s ?s1"
    by (rule served_byI [of _ "SysGetState i"]) (use i lead in \<open>simp_all add: GetState_def\<close>)
  moreover have "served_by cfg A ?s1 ?t"
    by (rule served_byI [of _ "SysRefresh i True"]) (use i in \<open>simp_all add: server_at_def\<close>)
  ultimately have "(served_by cfg A)\<^sup>*\<^sup>* s ?t" by (meson r_into_rtranclp rtranclp.rtrancl_into_rtrancl)
  then show thesis by (rule that) simp_all
qed

lemma note_leadership_again: "bs_wasLeader s \<Longrightarrow> pending (note_leadership True s) = pending s"
  by (simp add: note_leadership_def pending_def is_done_def)

text \<open>Polled again and again, it serves every pending task.\<close>

lemma hand_out:
  assumes "system_reach cfg s" and i: "i \<in> A" "i \<in> node_ids cfg" and "node_state (sy_cluster s) i = Leader"
    and "bs_wasLeader (sy_servers s i)" and "x \<in> set (pending (sy_servers s i))"
    and "map_string (bs_submitted (sy_servers s i)) x = d"
  shows "\<exists>t ts. (served_by cfg A)\<^sup>*\<^sup>* s t \<and> sy_served t = sy_served s @ ts \<and> \<lparr>tk_Id = x, tk_Payload = d\<rparr> \<in> set ts"
  using assms(1,4-7)
proof (induction "pending (sy_servers s i)" arbitrary: s)
  case (Cons y ys)
  let ?b = "sy_servers s i"
  obtain s1 where s1: "(served_by cfg A)\<^sup>*\<^sup>* s s1" "sy_cluster s1 = sy_cluster s" "i \<in> set (sy_entered s1)"
      "sy_servers s1 i = note_leadership True (server_at s i)" "sy_served s1 = sy_served s"
    by (rule enter_leader [OF i Cons.prems(2)])
  have r1: "system_reach cfg s1" by (rule served_by_reach [OF s1(1) Cons.prems(1)])
  let ?b1 = "server_at s1 i" and ?req = "\<lparr>pq_WorkerId = ''w''\<rparr>"
  have "bs_wasLeader (server_at s i)" using Cons.prems(3) by (simp add: server_at_def)
  from note_leadership_again [OF this] have pend: "pending ?b1 = y # ys" using s1(4) Cons.hyps(2) by simp
  let ?r = "Poll_locked 0 ?req ?b1" and ?u = "\<lparr>tk_Id = y, tk_Payload = map_string (bs_submitted ?b) y\<rparr>"
  have sub: "bs_submitted ?b1 = bs_submitted ?b" using s1(4) by (simp add: server_at_def)
  have "poll_scan ?b1 (bs_submittedOrder ?b1) = Some y" using pend by (simp add: poll_scan_pending pending_def)
  then have task: "pr_Task (snd ?r) = Some ?u" by (simp add: Poll_locked_def Let_def sub)
  have "distinct (bs_submittedOrder ?b1)"
    using system_invs(3) [OF r1] by (simp add: servers_inv_def server_ok_def broker_ok_def board_ok_def server_at_def)
  from pending_poll [OF this] have rest: "pending (fst ?r) = ys" using pend by simp
  define s2 where "s2 = (put_server i (fst ?r) s1)\<lparr>sy_entered := remove1 i (sy_entered s1), sy_served := sy_served s1 @ [?u]\<rparr>"
  have "served_by cfg A s1 s2"
    unfolding s2_def by (rule served_byI [of _ "SysPoll i 0 ?req"]) (use i s1(3) task in \<open>simp_all add: case_prod_unfold\<close>)
  then have run: "(served_by cfg A)\<^sup>*\<^sup>* s s2" using s1(1) by simp
  have srv: "sy_served s2 = sy_served s @ [?u]" by (simp add: s2_def s1(5))
  show ?case
  proof (cases "x = y")
    case True
    then show ?thesis using run srv Cons.prems(5) by auto
  next
    case False
    have "ys = pending (sy_servers s2 i)" using rest by (simp add: s2_def)
    moreover have "system_reach cfg s2" by (rule served_by_reach [OF run Cons.prems(1)])
    moreover have "node_state (sy_cluster s2) i = Leader" using Cons.prems(2) s1(2) by (simp add: s2_def)
    moreover have "bs_wasLeader (sy_servers s2 i)"
      using s1(4) by (simp add: s2_def Poll_locked_def Let_def note_leadership_def server_at_def split: option.splits)
    moreover have "x \<in> set ys" using Cons.prems(4) False unfolding Cons.hyps(2) [symmetric] by simp
    then have "x \<in> set (pending (sy_servers s2 i))" using rest by (simp add: s2_def)
    moreover have "map_string (bs_submitted (sy_servers s2 i)) x = d" using Cons.prems(5) sub by (simp add: s2_def)
    ultimately obtain t ts where "(served_by cfg A)\<^sup>*\<^sup>* s2 t" "sy_served t = sy_served s2 @ ts" "\<lparr>tk_Id = x, tk_Payload = d\<rparr> \<in> set ts"
      using Cons.hyps(1) by blast
    then show ?thesis using rtranclp_trans [OF run] srv by (intro exI [of _ t] exI [of _ "?u # ts"]) auto
  qed
qed simp

text \<open>Once \<open>TaskTimeout\<close> has passed without a heartbeat, a scan frees every task in flight.\<close>

lemma late_clock:
  assumes "broker_ok b"
  shows "\<exists>now. bs_inflight (drop_stalled (\<lambda>_. now) b) = Map.empty"
proof -
  let ?last = "\<lambda>i. case bs_inflight b i of Some e \<Rightarrow> ife_lastHeartbeat e | None \<Rightarrow> 0"
  let ?S = "?last ` set (bs_submittedOrder b)"
  let ?now = "Max (insert 0 ?S) + TaskTimeout + 1"
  have "TaskTimeout < ?now - ife_lastHeartbeat e" if e: "bs_inflight b i = Some e" for i e
  proof -
    have "i \<in> set (bs_submittedOrder b)" using assms e by (auto simp: broker_ok_def flights_ok_def)
    then have "?last i \<in> insert 0 ?S" by simp
    then have "?last i \<le> Max (insert 0 ?S)" by (intro Max_ge) auto
    then show ?thesis using e by simp
  qed
  then show ?thesis by (intro exI [of _ ?now]) (auto simp: drop_stalled_def fun_eq_iff split: option.splits)
qed

lemma free_tasks:
  assumes s: "system_reach cfg s" and i: "i \<in> A" "i \<in> node_ids cfg" and lead: "node_state (sy_cluster s) i = Leader"
  obtains t where "(served_by cfg A)\<^sup>*\<^sup>* s t" "sy_cluster t = sy_cluster s" "sy_served t = sy_served s"
    "bs_wasLeader (sy_servers t i)" "bs_inflight (sy_servers t i) = Map.empty"
    "board_of (sy_servers t i) = board_of (sy_servers s i)"
proof -
  obtain s1 where s1: "(served_by cfg A)\<^sup>*\<^sup>* s s1" "sy_cluster s1 = sy_cluster s" "i \<in> set (sy_entered s1)"
      "sy_servers s1 i = note_leadership True (server_at s i)" "sy_served s1 = sy_served s"
    by (rule enter_leader [OF i lead])
  have "broker_ok (server_at s1 i)"
    using system_invs(3) [OF served_by_reach [OF s1(1) s]] by (simp add: servers_inv_def server_ok_def)
  from late_clock [OF this] obtain now where now: "bs_inflight (drop_stalled (\<lambda>_. now) (server_at s1 i)) = Map.empty" ..
  let ?t = "(put_server i (drop_stalled (\<lambda>_. now) (server_at s1 i)) s1)\<lparr>sy_entered := remove1 i (sy_entered s1)\<rparr>"
  have "served_by cfg A s1 ?t"
    by (rule served_byI [of _ "SysScan i (\<lambda>_. now)"]) (use i s1(3) in simp_all)
  then have "(served_by cfg A)\<^sup>*\<^sup>* s ?t" using s1(1) by simp
  then show thesis
  proof (rule that)
    show "bs_inflight (sy_servers ?t i) = Map.empty" using now by simp
  qed (simp_all add: s1 drop_stalled_def server_at_def note_leadership_def Let_def board_of_def is_done_def fun_eq_iff)
qed

section \<open>Every task can be finished\<close>

text \<open>C4 No task is stranded: whatever has happened, if any server, dead or alive, shows a task, then
  any majority of brokers that has not been killed (in a cluster of at least two) can see
  it through by steps of its own: there is a run in which only these brokers act and after
  which one of them shows a result for the task or the task has been handed out again by
  \<open>Poll\<close>, with its payload; and from there a run in which a further completion of it is
  acknowledged and \<open>GetResult\<close> at every broker of the majority reports the task as done.\<close>

theorem task_can_finish:
  assumes s: "system_reach cfg s" and A: "majority cfg A" and two: "2 \<le> length (cc_Nodes cfg)"
    and alive: "\<And>i. i \<in> A \<Longrightarrow> \<not> rf_dead (cl_nodes (sy_cluster s) i)"
    and k: "k \<in> node_ids cfg" and x: "(x, d) \<in> set (tb_tasks (board_at s k))" "CHR '':'' \<notin> set x"
  shows "\<exists>t u p. (served_by cfg A)\<^sup>*\<^sup>* s t \<and> (served_by cfg A)\<^sup>*\<^sup>* t u \<and>
    ((\<exists>j \<in> A. tb_results (board_at t j) x \<noteq> None) \<or>
     (\<exists>ts. sy_served t = sy_served s @ ts \<and> \<lparr>tk_Id = x, tk_Payload = d\<rparr> \<in> set ts)) \<and>
    sy_acked u = sy_acked t @ [p] \<and> pp_cmd p = CComplete x e \<and> pp_node p \<in> A \<and>
    (\<forall>j \<in> A. gr_Done (GetResult \<lparr>gq_TaskId = x\<rparr> (server_at u j)))"
proof -
  obtain s1 i where s1: "(served_by cfg A)\<^sup>*\<^sup>* s s1" and i: "i \<in> A" "i \<in> node_ids cfg"
      and lead: "node_state (sy_cluster s1) i = Leader"
      and grown: "\<And>k. k \<in> node_ids cfg \<Longrightarrow> board_extends (board_at s k) (board_at s1 i)"
    using leader_catches_up [OF s A two alive] by metis
  have r1: "system_reach cfg s1" by (rule served_by_reach [OF s1 s])
  have task: "(x, d) \<in> set (tb_tasks (board_at s1 i))" using grown [OF k] x(1) by (auto simp: board_extends_def)
  obtain t where t: "(served_by cfg A)\<^sup>*\<^sup>* s t" "(\<exists>j \<in> A. tb_results (board_at t j) x \<noteq> None) \<or>
      (\<exists>ts. sy_served t = sy_served s @ ts \<and> \<lparr>tk_Id = x, tk_Payload = d\<rparr> \<in> set ts)"
  proof (cases "tb_results (board_at s1 i) x")
    case (Some e)
    then show thesis using that [OF s1] i(1) by auto
  next
    case None
    obtain s2 where s2: "(served_by cfg A)\<^sup>*\<^sup>* s1 s2" "sy_cluster s2 = sy_cluster s1" "sy_served s2 = sy_served s1"
        "bs_wasLeader (sy_servers s2 i)" "bs_inflight (sy_servers s2 i) = Map.empty"
        "board_of (sy_servers s2 i) = board_of (sy_servers s1 i)"
      by (rule free_tasks [OF r1 i lead])
    have "tb_results (board_of (sy_servers s2 i)) x = None" using None s2(6) by simp
    then have "\<not> is_done (sy_servers s2 i) x" by (auto simp: board_of_def split: if_splits)
    moreover have "(x, d) \<in> set (tb_tasks (board_of (sy_servers s2 i)))" using task s2(6) by simp
    then have "x \<in> set (bs_submittedOrder (sy_servers s2 i))" and d: "map_string (bs_submitted (sy_servers s2 i)) x = d"
      by (auto simp: board_of_def)
    ultimately have pend: "x \<in> set (pending (sy_servers s2 i))" using s2(5) by (simp add: pending_def)
    have r2: "system_reach cfg s2" by (rule served_by_reach [OF s2(1) r1])
    have "node_state (sy_cluster s2) i = Leader" using lead s2(2) by simp
    from hand_out [OF r2 i this s2(4) pend d] obtain t ts where
      t: "(served_by cfg A)\<^sup>*\<^sup>* s2 t" "sy_served t = sy_served s2 @ ts" "\<lparr>tk_Id = x, tk_Payload = d\<rparr> \<in> set ts" by blast
    obtain ts' where "sy_served s1 = sy_served s @ ts'" using serves_more [OF s1] by blast
    then show thesis
      using that [OF rtranclp_trans [OF s1 rtranclp_trans [OF s2(1) t(1)]]] t(2,3) s2(3) by auto
  qed
  have rt: "system_reach cfg t" by (rule served_by_reach [OF t(1) s])
  have "\<not> rf_dead (cl_nodes (sy_cluster t) j)" if "j \<in> A" for j
    using served_by_dead [OF t(1)] alive [OF that] by simp
  then obtain u p where u: "(served_by cfg A)\<^sup>*\<^sup>* t u" "sy_acked u = sy_acked t @ [p]" "pp_cmd p = CComplete x e"
      "pp_node p \<in> A" "\<forall>j \<in> A. on_board (CComplete x e) (board_at u j)"
    using command_served [OF rt A two, of "CComplete x e"] x(2) by auto
  have "gr_Done (GetResult \<lparr>gq_TaskId = x\<rparr> (server_at u j))" if "j \<in> A" for j
    using u(5) that by (auto simp: on_board_def GetResult_def board_of_def split: if_splits)
  then show ?thesis using t u by blast
qed

text \<open>In the witness the leader has handed the task to a worker, and then it is killed.\<close>

theorem task_can_finish_witness:
  "\<exists>s t u. system_reach demo_cfg s \<and> rf_dead (cl_nodes (sy_cluster s) 0) \<and>
     sy_served s = [\<lparr>tk_Id = ''t1'', tk_Payload = ''x''\<rparr>] \<and> sy_taken s 1 = 0 \<and>
     (served_by demo_cfg {1, 2})\<^sup>*\<^sup>* s t \<and> (served_by demo_cfg {1, 2})\<^sup>*\<^sup>* t u \<and>
     ((\<exists>j \<in> {1, 2}. tb_results (board_at t j) ''t1'' \<noteq> None) \<or>
      (\<exists>ts. sy_served t = \<lparr>tk_Id = ''t1'', tk_Payload = ''x''\<rparr> # ts \<and> \<lparr>tk_Id = ''t1'', tk_Payload = ''x''\<rparr> \<in> set ts)) \<and>
     gr_Done (GetResult \<lparr>gq_TaskId = ''t1''\<rparr> (server_at u 1)) \<and> gr_Done (GetResult \<lparr>gq_TaskId = ''t1''\<rparr> (server_at u 2))"
proof -
  let ?x = "''x''" and ?p = "\<lparr>pp_node = 0, pp_cmd = CSubmit ''t1'' ''x'', pp_index = 2, pp_term = 1, pp_op = Some 0\<rparr>"
  let ?task = "\<lparr>tk_Id = ''t1'', tk_Payload = ''x''\<rparr>"
  obtain s where run: "run_system demo_cfg (demo_submit_events ?x) demo_boot = Some s"
      and cl: "sy_cluster s = agreed (encodeSubmit ''t1'' ?x)" and tk: "sy_taken s 0 = 2" "sy_taken s 1 = 0"
      and st: "sy_started s = [CSubmit ''t1'' ?x]" and ack: "sy_acked s = [?p]" and srv: "sy_served s = [?task]"
    using demo_served_task [of ?x] by auto
  have s: "system_reach demo_cfg s"
    using run_system_reach [OF reach.reach_start [where start = "system_start demo_cfg", OF demo_boot_start] run] .
  let ?t = "s\<lparr>sy_cluster := set_node 0 (Kill (cl_nodes (sy_cluster s) 0)) (sy_cluster s)\<rparr>"
  have "system_exec demo_cfg (SysRaft (EvKill 0)) s = Some ?t" by (simp add: demo_ids)
  then have t: "system_reach demo_cfg ?t" using s by (meson reach.reach_step system_exec_step)
  have "on_board (CSubmit ''t1'' ?x) (board_at ?t 0)"
    using acked_on_board [OF t, of ?p 0] ack tk by (simp add: demo_ids del: server_at_ok)
  then obtain d where d: "(''t1'', d) \<in> set (tb_tasks (board_at ?t 0))" by (auto simp: on_board_def simp del: server_at_ok)
  from board_sources(1) [OF system_invs(2) [OF t] _ this] st have "d = ?x" by (simp add: demo_ids)
  then have board: "(''t1'', ?x) \<in> set (tb_tasks (board_at ?t 0))" using d by simp
  have A: "majority demo_cfg {1, 2}" by (simp add: majority_def demo_ids)
  have wf: "wf_cfg demo_cfg" using demo_boot_start by (simp add: system_start_def)
  have two: "2 \<le> length (cc_Nodes demo_cfg)" using card_node_ids [OF wf] by (simp add: demo_ids)
  have "\<not> rf_dead (cl_nodes (agreed x) 1) \<and> \<not> rf_dead (cl_nodes (agreed x) 2)" for x by code_simp
  then have alive: "\<not> rf_dead (cl_nodes (sy_cluster ?t) j)" if "j \<in> {1, 2}" for j using that cl by auto
  have k: "0 \<in> node_ids demo_cfg" and id: "CHR '':'' \<notin> set ''t1''" by (simp_all add: demo_ids)
  have facts: "rf_dead (cl_nodes (sy_cluster ?t) 0)" "sy_served ?t = [?task]" "sy_taken ?t 1 = 0"
    using srv tk by (simp_all add: Kill_def)
  obtain u v where "(served_by demo_cfg {1, 2})\<^sup>*\<^sup>* ?t u" "(served_by demo_cfg {1, 2})\<^sup>*\<^sup>* u v"
      "(\<exists>j \<in> {1, 2}. tb_results (board_at u j) ''t1'' \<noteq> None) \<or> (\<exists>ts. sy_served u = sy_served ?t @ ts \<and> ?task \<in> set ts)"
      "\<forall>j \<in> {1, 2}. gr_Done (GetResult \<lparr>gq_TaskId = ''t1''\<rparr> (server_at v j))"
    by (insert task_can_finish [OF t A two alive k board id, of Nil], drule meta_mp, assumption)
      (elim exE conjE, erule (3) that)
  then show ?thesis using t facts
    by (intro exI [of _ ?t] exI [of _ u] exI [of _ v]) (simp del: server_at_ok)
qed

end
