(* ===== verification/Python_Embedder.thy ===== *)
theory Python_Embedder
  imports Mock_Embedder
begin

text \<open>
  The production embedding subprocess, \<^verbatim>\<open>src/tools/embedder/embedder.py\<close>, and its exchange with
  \<open>Embed\<close>. A Python string is a list of code points. The sentence-transformers model, the
  \<open>json\<close> module and the encoding of the standard streams are parameters; the type \<open>'n\<close> is
  that of the numbers in a JSON document.
\<close>

section \<open>Model\<close>

type_synonym py_str = "int list"

definition py_text :: "string \<Rightarrow> py_str" where
  "py_text s = map (\<lambda>c. int (of_char c)) s"

text \<open>What \<open>json.loads\<close> returns; \<open>req.get\<close> exists on objects only, where the last binding counts.\<close>

datatype 'n json =
    JNull
  | JBool bool
  | JNumber 'n
  | JString py_str
  | JArray "'n json list"
  | JObject "(py_str \<times> 'n json) list"

fun py_get :: "'n json \<Rightarrow> py_str \<Rightarrow> 'n json \<Rightarrow> string + 'n json" where
  "py_get (JObject kvs) k dflt = Inr (case map_of (rev kvs) k of Some v \<Rightarrow> v | None \<Rightarrow> dflt)"
| "py_get _ k dflt = Inl ''AttributeError''"

text \<open>White space as \<open>str.strip\<close> has it.\<close>

definition py_isspace :: "int \<Rightarrow> bool" where
  "py_isspace c \<longleftrightarrow> 9 \<le> c \<and> c \<le> 13 \<or> 28 \<le> c \<and> c \<le> 32 \<or> c = 133 \<or> c = 160 \<or> c = 5760 \<or>
     8192 \<le> c \<and> c \<le> 8202 \<or> c = 8232 \<or> c = 8233 \<or> c = 8239 \<or> c = 8287 \<or> c = 12288"

definition py_strip :: "py_str \<Rightarrow> py_str" where
  "py_strip s = rev (dropWhile py_isspace (rev (dropWhile py_isspace s)))"

text \<open>\<open>json.loads\<close> decodes, raises the error that the loop catches, or raises another one.\<close>

datatype 'n loaded = Decoded "'n json" | JSONDecodeError | Raised string

record 'n python =
  py_loads :: "py_str \<Rightarrow> 'n loaded"
  py_dumps :: "'n json \<Rightarrow> py_str"
  py_encode :: "'n json \<Rightarrow> string + 'n list"

text \<open>The body of the loop after the \<open>try\<close>: the line it prints, or an exception that ends the process.\<close>

definition py_respond :: "'n python \<Rightarrow> 'n json \<Rightarrow> string + py_str" where
  "py_respond py req =
     (case py_get req (py_text ''chunk_id'') (JString []) of
        Inl exc \<Rightarrow> Inl exc
      | Inr chunk \<Rightarrow>
          (case py_get req (py_text ''text'') (JString []) of
             Inl exc \<Rightarrow> Inl exc
           | Inr text' \<Rightarrow>
               (case py_encode py text' of
                  Inl exc \<Rightarrow> Inl exc
                | Inr vector \<Rightarrow>
                    (let resp = JObject [(py_text ''chunk_id'', chunk), (py_text ''vector'', JArray (map JNumber vector))]
                     in Inr (py_dumps py resp @ [10])))))"

text \<open>The loop over the lines of the standard input: what it prints, and the exception it dies of.\<close>

fun python_main :: "'n python \<Rightarrow> py_str list \<Rightarrow> py_str list \<times> string option" where
  "python_main py [] = ([], None)"
| "python_main py (raw_line # rest) =
     (let line = py_strip raw_line
      in if line = [] then python_main py rest
         else (case py_loads py line of
             JSONDecodeError \<Rightarrow> python_main py rest
           | Raised exc \<Rightarrow> ([], Some exc)
           | Decoded req \<Rightarrow>
               (case py_respond py req of
                  Inl exc \<Rightarrow> ([], Some exc)
                | Inr out \<Rightarrow> (case python_main py rest of (outs, exc) \<Rightarrow> (out # outs, exc)))))"

text \<open>\<open>main\<close>, which loads the model once.\<close>

definition MODEL_NAME :: string where "MODEL_NAME = ''all-MiniLM-L6-v2''"

definition python_run ::
  "(string \<Rightarrow> string + ('n json \<Rightarrow> string + 'n list)) \<Rightarrow> 'n python \<Rightarrow> py_str list \<Rightarrow> py_str list \<times> string option" where
  "python_run SentenceTransformer py lines =
     (case SentenceTransformer MODEL_NAME of
        Inl exc \<Rightarrow> ([], Some exc)
      | Inr encode \<Rightarrow> python_main (py\<lparr>py_encode := encode\<rparr>) lines)"

section \<open>What the loop does with its input\<close>

lemma python_main_append:
  "python_main py (xs @ ys) =
     (case python_main py xs of
        (outs, Some exc) \<Rightarrow> (outs, Some exc)
      | (outs, None) \<Rightarrow> (case python_main py ys of (outs', exc) \<Rightarrow> (outs @ outs', exc)))"
  by (induction xs) (auto simp: Let_def split: loaded.splits sum.splits prod.splits option.splits)

text \<open>A request is a line that holds an object with a text that the model can encode; it has one answer.\<close>

definition answers :: "'n python \<Rightarrow> py_str \<Rightarrow> py_str \<Rightarrow> bool" where
  "answers py raw_line out \<longleftrightarrow> py_strip raw_line \<noteq> [] \<and>
     (\<exists>req. py_loads py (py_strip raw_line) = Decoded req \<and> py_respond py req = Inr out)"

text \<open>Requests are answered one for one and in order, whatever blank or malformed lines lie between them.\<close>

definition skipped :: "'n python \<Rightarrow> py_str \<Rightarrow> bool" where
  "skipped py raw_line \<longleftrightarrow> py_strip raw_line = [] \<or> py_loads py (py_strip raw_line) = JSONDecodeError"

lemma python_main_answers:
  assumes "list_all2 (answers py) (filter (\<lambda>l. \<not> skipped py l) lines) outs"
  shows "python_main py lines = (outs, None)"
  using assms
proof (induction lines arbitrary: outs)
  case (Cons l lines)
  show ?case
  proof (cases "skipped py l")
    case True
    then show ?thesis using Cons by (auto simp: skipped_def Let_def)
  next
    case False
    then obtain out outs' where "outs = out # outs'" "answers py l out"
        "list_all2 (answers py) (filter (\<lambda>l. \<not> skipped py l) lines) outs'"
      using Cons.prems by (auto simp: list_all2_Cons1)
    moreover from this have "python_main py lines = (outs', None)" by (intro Cons.IH)
    ultimately show ?thesis by (auto simp: answers_def Let_def)
  qed
qed simp

text \<open>A document that is no object ends the process, and whatever follows is not answered.\<close>

lemma python_main_no_object:
  assumes "py_strip l \<noteq> []" and "py_loads py (py_strip l) = Decoded req" and "\<forall>kvs. req \<noteq> JObject kvs"
  shows "python_main py (l # rest) = ([], Some ''AttributeError'')"
  using assms by (cases req) (auto simp: Let_def py_respond_def)

section \<open>The exchange with \<open>Embed\<close>\<close>

text \<open>
  The subprocess behind its pipes: what \<open>Embed\<close> has buffered, the output lines that it has
  not read, and the exception the process has died of. Text mode ends a line at a line
  feed, a carriage return or both; a line that is not ended stays in the reader.
\<close>

fun py_lines :: "py_str \<Rightarrow> py_str \<Rightarrow> py_str list" where
  "py_lines cur [] = []"
| "py_lines cur (c # cs) =
     (if c = 10 \<or> c = 13 \<and> (cs = [] \<or> hd cs \<noteq> 10) then (cur @ [10]) # py_lines [] cs
      else if c = 13 then py_lines cur cs
      else py_lines (cur @ [c]) cs)"

record python_process =
  pp_buffer :: string
  pp_output :: "py_str list"
  pp_exc :: "string option"

definition python_pipes :: "(string \<Rightarrow> py_str) \<Rightarrow> (py_str \<Rightarrow> string) \<Rightarrow> 'n python \<Rightarrow> python_process pipes" where
  "python_pipes stdin_decode stdout_encode py = \<lparr>
     ps_Write = (\<lambda>s p. (p\<lparr>pp_buffer := pp_buffer p @ s\<rparr>, None)),
     ps_Flush = (\<lambda>p. if pp_exc p \<noteq> None then (p, Some ''broken pipe'')
        else (case python_main py (py_lines [] (stdin_decode (pp_buffer p))) of
            (outs, exc) \<Rightarrow> (p\<lparr>pp_buffer := [], pp_output := pp_output p @ outs, pp_exc := exc\<rparr>, None))),
     ps_Scan = (\<lambda>p. case pp_output p of
          [] \<Rightarrow> (p, None)
        | l # ls \<Rightarrow> (p\<lparr>pp_output := ls\<rparr>, Some (stdout_encode (butlast l)))),
     ps_Err = (\<lambda>p. None)\<rparr>"

lemma py_lines_one:
  "10 \<notin> set line \<Longrightarrow> 13 \<notin> set line \<Longrightarrow> py_lines cur (line @ [10]) = [cur @ line @ [10]]"
  by (induction line arbitrary: cur) auto

lemma py_strip_line:
  assumes "line \<noteq> []" and "\<not> py_isspace (hd line)" and "\<not> py_isspace (last line)"
  shows "py_strip (line @ [10]) = line"
proof -
  have "dropWhile py_isspace (line @ [10]) = line @ [10]" using assms(1,2) by (cases line) auto
  moreover have "py_isspace 10" by (simp add: py_isspace_def)
  then have "dropWhile py_isspace (rev (line @ [10])) = rev line"
    using assms(1,3) by (cases line rule: rev_cases) auto
  ultimately show ?thesis by (simp add: py_strip_def)
qed

text \<open>
  What the exchange needs of the two JSON libraries for a request: Go writes an object on
  one line, Python reads back the two fields, and Go reads back what Python writes.
\<close>

definition json_bridge ::
  "'f embed_json \<Rightarrow> (string \<Rightarrow> py_str) \<Rightarrow> (py_str \<Rightarrow> string) \<Rightarrow> 'f python \<Rightarrow> Request \<Rightarrow> 'f list \<Rightarrow> bool" where
  "json_bridge js stdin_decode stdout_encode py req vec \<longleftrightarrow>
     (\<exists>bytes line kvs cid txt'. js_MarshalRequest js req = Inr bytes \<and> stdin_decode (bytes @ [newline]) = line @ [10] \<and>
        line \<noteq> [] \<and> \<not> py_isspace (hd line) \<and> \<not> py_isspace (last line) \<and> 10 \<notin> set line \<and> 13 \<notin> set line \<and>
        py_loads py line = Decoded (JObject kvs) \<and>
        map_of (rev kvs) (py_text ''chunk_id'') = Some (JString cid) \<and> map_of (rev kvs) (py_text ''text'') = Some (JString txt') \<and>
        py_encode py (JString txt') = Inr vec \<and>
        js_UnmarshalResponse js (stdout_encode (py_dumps py
            (JObject [(py_text ''chunk_id'', JString cid), (py_text ''vector'', JArray (map JNumber vec))]))) =
          Inr \<lparr>rs_ChunkID = rq_ChunkID req, rs_Vector = vec\<rparr>)"

text \<open>The two libraries can be bridged: a request is its identifier and its text, a response its vector.\<close>

lemma json_bridge_example:
  "json_bridge
     \<lparr>js_MarshalRequest = (\<lambda>r. Inr (rq_ChunkID r @ CHR '':'' # rq_Text r)), js_UnmarshalRequest = (\<lambda>s. Inl s),
      js_MarshalResponse = (\<lambda>r. Inl []), js_UnmarshalResponse = (\<lambda>s. Inr \<lparr>rs_ChunkID = take 1 s, rs_Vector = [length s]\<rparr>)\<rparr>
     py_text (map (\<lambda>c. char_of (nat c)))
     \<lparr>py_loads = (\<lambda>l. Decoded (JObject [(py_text ''chunk_id'', JString (take 1 l)), (py_text ''text'', JString (drop 2 l))])),
      py_dumps = (\<lambda>v. case v of JObject [(_, JString cid), (_, JArray ns)] \<Rightarrow> cid @ [58, 55] | _ \<Rightarrow> []),
      py_encode = (\<lambda>v. Inr [3])\<rparr>
     \<lparr>rq_ChunkID = ''c'', rq_Text = ''hi''\<rparr> [3]"
  unfolding json_bridge_def
  by (rule exI [of _ "''c:hi''"], rule exI [of _ "py_text ''c:hi''"], rule exI
      [of _ "[(py_text ''chunk_id'', JString (take 1 (py_text ''c:hi''))), (py_text ''text'', JString (drop 2 (py_text ''c:hi'')))]"],
      rule exI [of _ "py_text ''c''"], rule exI [of _ "py_text ''hi''"])
    (simp add: py_text_def newline_def py_isspace_def, code_simp)

text \<open>Then every request gets its own answer with the model's vector, and the process is ready for the next.\<close>

lemma python_answers:
  assumes bridge: "json_bridge js dec enc py req vec"
    and p: "pp_buffer p = []" "pp_output p = []" "pp_exc p = None"
  shows "Embed js (python_pipes dec enc py) req p = (p, Inr \<lparr>rs_ChunkID = rq_ChunkID req, rs_Vector = vec\<rparr>)"
proof -
  obtain bytes line kvs cid txt' where b: "js_MarshalRequest js req = Inr bytes" "dec (bytes @ [newline]) = line @ [10]"
      and l: "line \<noteq> []" "\<not> py_isspace (hd line)" "\<not> py_isspace (last line)" "10 \<notin> set line" "13 \<notin> set line"
      and r: "py_loads py line = Decoded (JObject kvs)" "map_of (rev kvs) (py_text ''chunk_id'') = Some (JString cid)"
        "map_of (rev kvs) (py_text ''text'') = Some (JString txt')" "py_encode py (JString txt') = Inr vec"
      and u: "js_UnmarshalResponse js (enc (py_dumps py
          (JObject [(py_text ''chunk_id'', JString cid), (py_text ''vector'', JArray (map JNumber vec))]))) =
        Inr \<lparr>rs_ChunkID = rq_ChunkID req, rs_Vector = vec\<rparr>"
    using bridge unfolding json_bridge_def by blast
  let ?out = "py_dumps py (JObject [(py_text ''chunk_id'', JString cid), (py_text ''vector'', JArray (map JNumber vec))]) @ [10]"
  have "py_respond py (JObject kvs) = Inr ?out" using r by (simp add: py_respond_def)
  then have "python_main py [line @ [10]] = ([?out], None)"
    using py_strip_line [OF l(1-3)] l(1) r(1) by (simp add: Let_def)
  then have main: "python_main py (py_lines [] (dec (bytes @ [newline]))) = ([?out], None)"
    using b(2) py_lines_one [OF l(4,5), of "[]"] by simp
  show ?thesis using b(1) main u p by (simp add: Embed_def python_pipes_def)
qed

end
