(* ===== verification/Spec2Isabelle.thy ===== *)
theory Spec2Isabelle
  imports Raft_Theorems Broker_Theorems Client_Theorems Client_Concurrency Index_Theorems Embedder_Concurrency Mock_Embedder End_To_End
    System_Liveness Python_Embedder
begin

text \<open>
  A verification of the embedding pipeline under \<^verbatim>\<open>src/\<close>: a corpus is cut into chunks, the
  chunks are handed out as tasks by a broker that is replicated with Raft, workers embed
  them and write them into a Qdrant index, and a query server searches and extends the
  index. Every theory models one part in the order of its source, or proves about it.

  \<^bold>\<open>Shared material.\<close> \<^verbatim>\<open>Prelude\<close>: panics and divergence as values of a sum (\<open>'a go\<close>), reachability
  with the locale \<open>invariant_of\<close>, the locales \<open>quorum_system\<close> and \<open>codec\<close>, slices with signed
  indices. \<^verbatim>\<open>Go_Strings\<close>: \<open>SplitN\<close> and base64 with its round trip. \<^verbatim>\<open>Go_Text\<close>: runes of byte
  strings that need not be valid UTF-8, \<open>FieldsFunc\<close>, \<open>Join\<close>, \<open>Itoa\<close>; its locale \<open>separator\<close>,
  interpreted on \<open>unicode.IsSpace\<close>, shows that words stay words when they are joined.

  \<^bold>\<open>Raft.\<close> \<^verbatim>\<open>Raft_Log\<close> is \<^verbatim>\<open>internal/log/log.go\<close>, \<^verbatim>\<open>Config\<close> is \<^verbatim>\<open>config/config.go\<close>, \<^verbatim>\<open>Raft\<close> is
  \<^verbatim>\<open>raft/raft.go\<close>: the struct is a record, each method a function on it, each goroutine cut
  at its remote calls and channel operations. Timers are their arming (with the random
  number as an argument) and their firing. \<^verbatim>\<open>Raft_Node\<close> gives the effect of each handler;
  \<^verbatim>\<open>Raft_Cluster\<close> composes nodes with a network that loses, delays, duplicates and reorders
  messages into a step relation in which nodes may also stop. \<^verbatim>\<open>Raft_Steps\<close> to \<^verbatim>\<open>Raft_Apply\<close>
  build the invariants on one another (elections, log matching, completeness, commits,
  application), each an interpretation of \<open>invariant_of\<close>. \<^verbatim>\<open>Raft_Trace\<close> is an executable
  scheduler for concrete runs; \<^verbatim>\<open>Raft_Replication\<close> shows that the retry loop of
  \<open>sendAppendEntries\<close> ends (its fuel is enough from one more than \<open>replication_work\<close> on);
  \<^verbatim>\<open>Raft_Electability\<close> and \<^verbatim>\<open>Raft_Progress\<close> that a majority that has not been killed can always
  elect a leader, commit and deliver by its own steps; \<^verbatim>\<open>Raft_Commands\<close> that a log holds nothing but \<open>noop\<close> and what was given to \<open>Start\<close>.
  \<^verbatim>\<open>Raft_Theorems\<close> states what follows of reachable clusters.

  \<^bold>\<open>Broker.\<close> \<^verbatim>\<open>Broker\<close> is \<^verbatim>\<open>broker/main.go\<close>: commands, apply loop, handlers, stalled-task scan and
  start-up; what other goroutines do while a proposal waits, or between the Raft node's
  reply to \<open>AppendEntries\<close> and the note of the leader, is an argument. \<^verbatim>\<open>Broker_Proofs\<close>
  has the interleavings of a server as events, its invariant, the abstract task board it
  refines and the locale \<open>work_queue\<close>, interpreted on \<open>Poll\<close>; \<^verbatim>\<open>Broker_Theorems\<close> states the
  results, among them what a proposal answers, exactly, and which leader a follower
  redirects to. This theory joins one waiting handler with the cluster: the command of an
  accepted submission or completion is committed and durable.

  \<^bold>\<open>The service.\<close> \<^verbatim>\<open>System\<close> puts a broker server on every node of the cluster: the commit channels
  connect them, the handlers that wait in \<open>proposeAndWait\<close> are part of the state, as are those inside
  \<open>refreshLeaderState\<close> with what \<open>GetState\<close> told them and those that have passed it, and a step
  is one critical section of anybody, without any assumption on their order.
  \<^verbatim>\<open>System_Proofs\<close> has its invariants, in layers that interpret \<open>invariant_of\<close>; \<^verbatim>\<open>System_Demo\<close>
  is a run of it from election to result; \<^verbatim>\<open>System_Theorems\<close> shows that servers agree, that
  acknowledged commands are never lost and that no work is invented;
  \<^verbatim>\<open>System_Progress\<close> that the service has no dead end: any majority of brokers that has not been
  killed can take a further command to its acknowledgement; \<^verbatim>\<open>System_Liveness\<close> that no task is
  stranded: what any server shows is in the log of every leader such a majority elects,
  which frees the tasks of silent workers, hands them out again and has them completed.

  \<^bold>\<open>Clients of the broker.\<close> \<^verbatim>\<open>Broker_Client\<close> is \<^verbatim>\<open>internal/brokerclient/client.go\<close>: the cluster
  is any state that remote calls change, a call takes at most \<open>maxHops\<close> attempts, which is
  enough to find a leader among the addresses. \<^verbatim>\<open>Client_Concurrency\<close> cuts \<open>call\<close> at every access
  to a field, as the worker's goroutines share one client without a lock: what stays
  safe, and how the connection map can end the process. \<^verbatim>\<open>Worker\<close> is \<^verbatim>\<open>worker/main.go\<close>: the main
  goroutine and one heartbeat goroutine per task take their steps on this client in any
  order (\<open>worker_loop\<close> runs a schedule of them), so a heartbeat can be in flight during
  \<open>Complete\<close>; \<^verbatim>\<open>Worker_Runs\<close> has what every schedule keeps, which fatal errors can end the
  process, and that iterations end. \<^verbatim>\<open>Producer\<close> is
  \<^verbatim>\<open>producer/main.go\<close>, whose wait is a partial function with \<open>None\<close> for never returning.
  \<^verbatim>\<open>Client_Theorems\<close> and \<^verbatim>\<open>Pipeline_Theorems\<close> state what they promise against any cluster;
  \<^verbatim>\<open>End_To_End\<close> runs them against the service: when the producer prints its summary, every
  chunk of the corpus is in the index or its task has an error text. What it assumes of
  the transport, that calls recorded at one end are recorded at the other, is in
  \<open>workers_wired\<close> and \<open>producer_wired\<close>, what it assumes of UUIDs in \<open>fresh_ids\<close>.

  \<^bold>\<open>Index.\<close> \<^verbatim>\<open>Embedder\<close>, \<^verbatim>\<open>Indexer\<close>, \<^verbatim>\<open>Retrieval\<close> and \<^verbatim>\<open>Query_Server\<close> are \<^verbatim>\<open>internal/embedder\<close>,
  \<^verbatim>\<open>internal/indexer\<close>, \<^verbatim>\<open>internal/retrieval\<close> with \<^verbatim>\<open>query/main.go\<close>, and \<^verbatim>\<open>queryserver/main.go\<close>;
  \<^verbatim>\<open>Mock_Embedder\<close> is \<^verbatim>\<open>tools/mock_embedder\<close> and its exchange with \<open>Embed\<close>, \<^verbatim>\<open>Python_Embedder\<close> the same
  for \<^verbatim>\<open>tools/embedder/embedder.py\<close>: both answer each request with its own identifier;
  \<^verbatim>\<open>Embedder_Concurrency\<close> cuts \<open>Embed\<close> at its statements and shows that goroutines that
  share an \<open>Embedder\<close> cannot be told from callers that take turns. Errors are their
  messages. \<^verbatim>\<open>Index_Theorems\<close> shows that chunking loses no word, that the point
  identifiers are FNV-1a hashes, what each HTTP status says about the index, that
  re-ingestion overwrites and that the query server survives every sequence of requests,
  which go through \<open>http.ServeMux\<close> with its cleaning of paths (\<open>mux\<close>). An upsert does not wait
  to be applied, so the theorems look at the index with every acknowledged operation
  applied, which is what \<open>point_store\<close> says of \<open>look\<close>; \<open>lagging_store\<close> is an index that lags behind
  and satisfies it.

  \<^bold>\<open>Parameters.\<close> Qdrant, the operating system's pipes, JSON, gRPC dialling, random numbers,
  floating-point arithmetic and UUIDs are arguments of the definitions; what a theorem
  needs of them is a named hypothesis (\<open>point_store\<close>, \<open>only_reads\<close>, \<open>embeds_by\<close>,
  \<open>errors_have_text\<close>, \<open>sends_tasks\<close>, \<open>json_lines\<close>) that a witness instantiates.

  \<^bold>\<open>Not modelled.\<close> The gRPC and HTTP transports and the generated stubs beyond their message
  types, the parsing of command-line flags, log output, wall-clock time (deadlines show
  as errors, sleeps as points where others may act), data races beyond the interleaving
  of single accesses and the flag of Go's maps, the sentence-transformers model, and the test helper that builds
  the mock embedder. Raft keeps nothing on disk, so there is no restart to model.
\<close>

section \<open>Broker servers on a Raft cluster\<close>

text \<open>All replicas show the same board: take any two nodes of a reachable cluster, and let
  their brokers have applied the first messages of their commit channels. The board of
  the broker that is behind is extended by the other's board: its tasks are a prefix of
  the other's, in the same order and with the same payloads, and every result it has, the
  other has; brokers that are equally far show equal boards.\<close>

lemma brokers_agree:
  assumes "cluster_reach cfg s" and "i \<in> node_ids cfg" and "j \<in> node_ids cfg"
    and "n \<le> m" and "m \<le> length (rf_commitCh (cl_nodes s i))" and "m \<le> length (rf_commitCh (cl_nodes s j))"
    and "newBrokerServer r dial i cfg = Some b" and "newBrokerServer r' dial' j cfg = Some b'"
    and "applied_by es = take n (rf_commitCh (cl_nodes s i))"
    and "applied_by es' = take m (rf_commitCh (cl_nodes s j))"
  shows "board_extends (board_of (broker_run es b)) (board_of (broker_run es' b')) \<and>
    (n = m \<longrightarrow> board_of (broker_run es b) = board_of (broker_run es' b'))"
proof -
  let ?c = "rf_commitCh (cl_nodes s i)" and ?d = "rf_commitCh (cl_nodes s j)"
  have boards: "board_of (broker_run es b) = board_run (take n ?c)" "board_of (broker_run es' b') = board_run (take m ?d)"
    using broker_ok_new [OF assms(7)] broker_ok_new [OF assms(8)] board_of_new [OF assms(7)] board_of_new [OF assms(8)]
    by (simp_all add: board_of_run broker_ok_def board_run_def assms(9,10))
  have same: "take m ?c = take m ?d"
  proof (cases "length ?c \<le> length ?d")
    case True
    from take_of_prefix [OF channels_agree(1) [OF assms(1-3) True] assms(5)] show ?thesis .
  next
    case False
    then have "length ?d \<le> length ?c" by simp
    from take_of_prefix [OF channels_agree(2) [OF assms(1-3) this] assms(6)] show ?thesis by (rule sym)
  qed
  have "take m ?d = take n ?d @ drop n (take m ?d)"
    using append_take_drop_id [of n "take m ?d"] assms(4) by (simp add: min_absorb1)
  moreover have "take n ?c = take n ?d" using same by (rule take_eq_mono) (rule assms(4))
  ultimately show ?thesis using board_run_extends boards same by metis
qed


text \<open>
  The environment of a handler that proposes a command at node \<open>i\<close> in state \<open>s\<close>: every
  message that its broker applies while it waits comes from the node's commit channel, at
  some point after \<open>Start\<close> has appended the command.
\<close>

definition served_by_cluster ::
  "ClusterConfig \<Rightarrow> Cluster \<Rightarrow> int \<Rightarrow> string \<Rightarrow> broker_event list \<Rightarrow> bool" where
  "served_by_cluster cfg s i cmd es \<longleftrightarrow> (\<forall>rf' index tm ps. Start cmd (cl_nodes s i) = Inr (rf', (index, tm, True), ps) \<longrightarrow>
     (\<forall>m. BApply m \<in> set es \<longrightarrow>
        (\<exists>u. cluster_steps cfg (note_leader True i (set_node i rf' s)) u \<and> m \<in> set (rf_commitCh (cl_nodes u i)))))"

text \<open>
  The cluster has committed the command that \<open>Start\<close> appended at node \<open>i\<close> in state \<open>s\<close>, and
  the node has delivered it as the message \<open>m\<close>: in a state that the cluster can reach from
  there, the entry at the index that \<open>Start\<close> returned is below the commit index, is the
  command with the term that \<open>Start\<close> returned, and \<open>m\<close> is this entry on the commit channel.
\<close>

definition delivers_own :: "ClusterConfig \<Rightarrow> Cluster \<Rightarrow> int \<Rightarrow> string \<Rightarrow> ApplyMsg \<Rightarrow> bool" where
  "delivers_own cfg s i cmd m \<longleftrightarrow> (\<exists>rf' index tm ps u. Start cmd (cl_nodes s i) = Inr (rf', (index, tm, True), ps) \<and>
     cluster_steps cfg (note_leader True i (set_node i rf' s)) u \<and> m \<in> set (rf_commitCh (cl_nodes u i)) \<and>
     1 \<le> index \<and> index \<le> node_commit u i \<and>
     node_log u i ! (nat index - 1) = \<lparr>le_Index = index, le_Term = tm, le_Command = cmd\<rparr> \<and>
     m = \<lparr>am_Index = index, am_Term = tm, am_Command = cmd\<rparr>)"

lemma delivered_is_committed:
  assumes u: "cluster_reach cfg u" and i: "i \<in> node_ids cfg" and m: "m \<in> set (rf_commitCh (cl_nodes u i))"
  shows "1 \<le> am_Index m \<and> am_Index m \<le> node_commit u i \<and> node_log u i ! (nat (am_Index m) - 1) =
    \<lparr>le_Index = am_Index m, le_Term = am_Term m, le_Command = am_Command m\<rparr>"
proof -
  note ok = reach_node [OF u i]
  from m ok(4) obtain k where k: "k < length (node_log u i)" "k < delivered (cl_nodes u i)" "m = apply_msg (node_log u i ! k)"
    by (auto simp: apply_ok_def in_set_conv_nth)
  have "le_Index (node_log u i ! k) = int k + 1" using lg.index_els [OF ok(2)] k(1) by simp
  moreover have "int (delivered (cl_nodes u i)) \<le> node_commit u i" using delivered_le [OF ok(4)] .
  moreover have "nat (int k + 1) - 1 = k" by simp
  ultimately show ?thesis using k by (simp add: apply_msg_def)
qed

lemma applied_by_append: "applied_by (es @ fs) = applied_by es @ applied_by fs"
  by (induction es rule: applied_by.induct) simp_all

text \<open>A proposal that succeeds has had its own command committed, and applied at this broker.\<close>

lemma proposal_applied:
  assumes s: "cluster_reach cfg s" and i: "i \<in> node_ids cfg" and b: "bs_rf b = cl_nodes s i" "broker_ok b"
    and served: "served_by_cluster cfg s i cmd es2"
    and p: "proposeAndWait (broker_run es1) (broker_run es2) timedOut cmd b = Inr (b', True)"
  obtains m where "BApply m \<in> set es2" "delivers_own cfg s i cmd m" "broker_ok b'"
    "board_of b' = fold (\<lambda>m. board_step (decodeCommand (am_Command m))) (applied_by es1 @ applied_by es2) (board_of b)"
proof -
  have "ops_ok b" using b(2) by (simp add: broker_ok_def)
  from propose_success [OF p this] obtain rf' index tm peers m where
    start: "Start cmd (bs_rf b) = Inr (rf', (index, tm, True), peers)"
    and b': "b' = broker_run (es1 @ BRegister index tm # es2) (b\<lparr>bs_rf := rf'\<rparr>)"
    and m: "BApply m \<in> set es2" "am_Index m = index" "am_Term m = tm" .
  note start' = start [unfolded b(1)]
  obtain u where u: "cluster_steps cfg (note_leader True i (set_node i rf' s)) u" "m \<in> set (rf_commitCh (cl_nodes u i))"
    using served start' m(1) unfolding served_by_cluster_def by blast
  have cmd: "am_Command m = cmd" by (rule started_command [OF s i start' u(1) i u(2) m(2,3)])
  have "cluster_reach cfg (note_leader True i (set_node i rf' s))"
    using cluster_step.client [OF i start'] by (rule reach.reach_step [OF s])
  from delivered_is_committed [OF cluster_steps_reach [OF u(1) this] i u(2)] start' u m cmd
  have "delivers_own cfg s i cmd m" unfolding delivers_own_def
    by (intro exI [of _ rf'] exI [of _ index] exI [of _ tm] exI [of _ peers] exI [of _ u]) auto
  moreover have ok: "broker_ok (b\<lparr>bs_rf := rf'\<rparr>)" using broker_ok_exec [OF b(2), of "BRaft rf'"] by simp
  moreover have "board_of (b\<lparr>bs_rf := rf'\<rparr>) = board_of b" by (simp add: board_of_def is_done_def fun_eq_iff)
  moreover have "broker_ok b'" unfolding b' by (rule broker_ok_run [OF ok])
  moreover have "applied_by (es1 @ BRegister index tm # es2) = applied_by es1 @ applied_by es2"
    by (simp add: applied_by_append)
  ultimately show thesis
    using that m(1) b' board_of_run [of "b\<lparr>bs_rf := rf'\<rparr>" "es1 @ BRegister index tm # es2"]
    by (simp add: broker_ok_def)
qed

text \<open>A task has the payload of its first submission.\<close>

lemma first_payload:
  assumes "\<And>m x. m \<in> set ms \<Longrightarrow> decodeCommand (am_Command m) = (''submit'', i, x) \<Longrightarrow> x = d"
    and "\<And>x. (i, x) \<in> set (tb_tasks b) \<Longrightarrow> x = d"
    and "(i, x) \<in> set (tb_tasks (fold (\<lambda>m. board_step (decodeCommand (am_Command m))) ms b))"
  shows "x = d"
  using assms
proof (induction ms arbitrary: b)
  case (Cons m ms)
  obtain op j y where dec: "decodeCommand (am_Command m) = (op, j, y)" by (cases "decodeCommand (am_Command m)")
  have "x' = d" if "(i, x') \<in> set (tb_tasks (board_step (op, j, y) b))" for x'
    using that Cons.prems(1) [of m] Cons.prems(2) dec by (auto split: if_splits)
  then show ?case using Cons.prems by (intro Cons.IH [of "board_step (op, j, y) b"]) (auto simp: dec simp del: board_step.simps)
qed simp

text \<open>A server at node 0 of the example cluster that proposes a command, and the cluster that serves it.\<close>

definition demo_node_server :: brokerServer where
  "demo_node_server = demo_server\<lparr>bs_rf := cl_nodes demo_state 0\<rparr>"

definition demo_answer :: "string \<Rightarrow> ApplyMsg" where
  "demo_answer c = \<lparr>am_Index = 3, am_Term = 1, am_Command = c\<rparr>"

lemma demo_node_ok: "broker_ok demo_node_server" "bs_rf demo_node_server = cl_nodes demo_state 0"
  using broker_ok_exec [OF demo_ok, of "BRaft (cl_nodes demo_state 0)"] by (simp_all add: demo_node_server_def)

lemma run_events_steps: "run_events cfg es s = Some t \<Longrightarrow> cluster_steps cfg s t"
  unfolding cluster_steps_def
  by (induction es arbitrary: s)
    (auto split: option.splits dest: cluster_exec_sound intro: converse_rtranclp_into_rtranclp)

lemma demo_start:
  obtains rf' ps where "Start c (cl_nodes demo_state 0) = Inr (rf', (3, 1, True), ps)"
    "note_leader True 0 (set_node 0 rf' demo_state) = proposed_state c"
proof -
  have "length (node_log demo_state 0) = 2" "node_term demo_state 0 = 1" by code_simp+
  then obtain rf' ps where st: "Start c (cl_nodes demo_state 0) = Inr (rf', (3, 1, True), ps)"
    using Start_effect [OF reach_node(2) [OF demo_reach], of 0 c] demo_leader by (auto simp: demo_ids)
  then have "proposed_state c = note_leader True 0 (set_node 0 rf' demo_state)"
    by (simp add: proposed_state_def demo_ids)
  then show thesis using that [OF st] by simp
qed

lemma demo_served: "served_by_cluster demo_cfg demo_state 0 c [BApply (demo_answer c)]"
  unfolding served_by_cluster_def
proof (intro allI impI)
  fix rf' index tm ps m
  assume start: "Start c (cl_nodes demo_state 0) = Inr (rf', (index, tm, True), ps)"
    and "BApply m \<in> set [BApply (demo_answer c)]"
  then have m: "m = demo_answer c" by simp
  obtain rf'' ps' where "Start c (cl_nodes demo_state 0) = Inr (rf'', (3, 1, True), ps')"
    "note_leader True 0 (set_node 0 rf'' demo_state) = proposed_state c" by (rule demo_start)
  then have "note_leader True 0 (set_node 0 rf' demo_state) = proposed_state c" using start by simp
  moreover have "cluster_steps demo_cfg (proposed_state c) (served_state c)"
    using run_events_steps [of demo_cfg served_events "proposed_state c"]
    by (auto simp: served_state_def cluster_steps_def split: option.splits)
  ultimately show "\<exists>u. cluster_steps demo_cfg (note_leader True 0 (set_node 0 rf' demo_state)) u \<and>
      m \<in> set (rf_commitCh (cl_nodes u 0))"
    using served_facts [of c] unfolding m demo_answer_def by metis
qed

lemma demo_proposal:
  "\<exists>b'. proposeAndWait (broker_run []) (broker_run [BApply (demo_answer c)]) False c demo_node_server = Inr (b', True)"
proof -
  obtain rf' ps where "Start c (cl_nodes demo_state 0) = Inr (rf', (3, 1, True), ps)" by (rule demo_start)
  then show ?thesis
    by (simp add: proposeAndWait_def demo_node_ok(2) Let_def demo_answer_def apply_message_def wake_waiter_def
        register_op_def)
qed

text \<open>C8 An acknowledged submission is durable: when \<open>Submit\<close> answers \<open>ok\<close>, it answers with the
  fresh identifier, and the submission itself (not some other command that took its place
  in the log) has been committed: the cluster reaches a state in which the entry at the
  index and term that \<open>Start\<close> returned is this very command, below the commit index of the
  node, and this broker has applied that entry while it waited. The task is on the broker's
  board from then on, whatever happens later, with the submitted payload unless the
  identifier was on the board before or another submission applied in the meantime used it.
  The identifier, a UUID, has no colon.\<close>

theorem submit_durable:
  assumes "cluster_reach cfg s" and "i \<in> node_ids cfg" and "bs_rf b = cl_nodes s i" and "broker_ok b"
    and "served_by_cluster cfg s i (encodeSubmit uuid (sq_Payload req)) es2" and "CHR '':'' \<notin> set uuid"
    and "Submit (broker_run es1) (broker_run es2) timedOut uuid req b = Inr (b', resp)" and "sr_Ok resp"
  shows "sr_TaskId resp = uuid \<and>
    (\<exists>m. BApply m \<in> set es2 \<and> delivers_own cfg s i (encodeSubmit uuid (sq_Payload req)) m) \<and>
    uuid \<in> set (bs_submittedOrder (broker_run es b')) \<and>
    (uuid \<notin> set (bs_submittedOrder b) \<and>
       (\<forall>m \<in> set (applied_by es1 @ applied_by es2). \<forall>x. decodeCommand (am_Command m) = (''submit'', uuid, x) \<longrightarrow> x = sq_Payload req) \<longrightarrow>
     (uuid, sq_Payload req) \<in> set (tb_tasks (board_of (broker_run es b'))))"
proof -
  let ?c = "CSubmit uuid (sq_Payload req)" and ?B = "\<lambda>b. tb_tasks (board_of b)"
  from assms(7,8) have p: "proposeAndWait (broker_run es1) (broker_run es2) timedOut
      (encodeSubmit uuid (sq_Payload req)) b = Inr (b', True)" and id: "sr_TaskId resp = uuid"
    by (auto simp: Submit_def go_bind_Inr_iff split: if_splits)
  obtain m where m: "BApply m \<in> set es2" "delivers_own cfg s i (encodeSubmit uuid (sq_Payload req)) m" and ok: "broker_ok b'"
    and board: "board_of b' =
      fold (\<lambda>m. board_step (decodeCommand (am_Command m))) (applied_by es1 @ applied_by es2) (board_of b)"
    by (rule proposal_applied [OF assms(1-5) p])
  have "am_Command m = encode_command ?c" using m(2) by (auto simp: delivers_own_def)
  then have "decodeCommand (am_Command m) = command_fields ?c" using cmds.decode_encode [of ?c] assms(6) by simp
  then have on: "uuid \<in> fst ` set (?B b')"
    using applied_in_board [of m "applied_by es1 @ applied_by es2" ?c] m(1) by (simp add: set_applied_by board)
  have ext: "board_extends (board_of b') (board_of (broker_run es b'))"
    using ok by (intro board_extends_run) (simp add: broker_ok_def)
  then have "uuid \<in> fst ` set (?B (broker_run es b'))" using on by (auto simp: board_extends_def)
  then have order: "uuid \<in> set (bs_submittedOrder (broker_run es b'))" by (auto simp: board_of_def)
  have "(uuid, sq_Payload req) \<in> set (?B (broker_run es b'))"
    if new: "uuid \<notin> set (bs_submittedOrder b)" and
      only: "\<forall>m \<in> set (applied_by es1 @ applied_by es2). \<forall>x. decodeCommand (am_Command m) = (''submit'', uuid, x) \<longrightarrow> x = sq_Payload req"
  proof -
    from on obtain x where x: "(uuid, x) \<in> set (?B b')" by auto
    have "x = sq_Payload req"
      using x unfolding board by (rule first_payload [rotated 2]) (use new only in \<open>auto simp: board_of_def\<close>)
    then show ?thesis using x ext by (auto simp: board_extends_def)
  qed
  then show ?thesis using id m order by blast
qed

theorem submit_durable_witness:
  "\<exists>b' resp. Submit (broker_run []) (broker_run [BApply (demo_answer (encodeSubmit ''t9'' ''p''))]) False ''t9''
     \<lparr>sq_Payload = ''p''\<rparr> demo_node_server = Inr (b', resp) \<and> sr_Ok resp \<and>
     delivers_own demo_cfg demo_state 0 (encodeSubmit ''t9'' ''p'') (demo_answer (encodeSubmit ''t9'' ''p'')) \<and>
     (''t9'', ''p'') \<in> set (tb_tasks (board_of (broker_run [BRefresh False] b')))"
proof -
  let ?c = "encodeSubmit ''t9'' ''p''" and ?req = "\<lparr>sq_Payload = ''p''\<rparr>"
  obtain b' where p: "proposeAndWait (broker_run []) (broker_run [BApply (demo_answer ?c)]) False ?c demo_node_server =
      Inr (b', True)" using demo_proposal by blast
  then have sub: "Submit (broker_run []) (broker_run [BApply (demo_answer ?c)]) False ''t9'' ?req demo_node_server =
      Inr (b', \<lparr>sr_TaskId = ''t9'', sr_Ok = True, sr_RedirectAddr = ''''\<rparr>)" by (simp add: Submit_def)
  have served: "served_by_cluster demo_cfg demo_state 0 (encodeSubmit ''t9'' (sq_Payload ?req)) [BApply (demo_answer ?c)]"
    using demo_served [of ?c] by simp
  have dec: "decodeCommand ?c = (''submit'', ''t9'', ''p'')" using cmds.decode_encode [of "CSubmit ''t9'' ''p''"] by simp
  have "''t9'' \<notin> set (bs_submittedOrder demo_node_server)"
    by (simp add: demo_node_server_def demo_server_def server_defs)
  with submit_durable [OF demo_reach _ demo_node_ok(2,1) served _ sub, of "[BRefresh False]"] sub dec
  show ?thesis by (simp add: demo_ids demo_answer_def del: broker_run_simps)
qed

text \<open>An acknowledged completion is durable: when \<open>Complete\<close> answers \<open>ok\<close>, the completion has
  been committed by the cluster and applied by this broker, and \<open>GetResult\<close> for that task
  reports it as done ever after.\<close>

lemma complete_durable:
  assumes "cluster_reach cfg s" and "i \<in> node_ids cfg" and "bs_rf b = cl_nodes s i" and "broker_ok b"
    and "served_by_cluster cfg s i (encodeComplete (cq_TaskId req) (cq_Error req)) es2"
    and "CHR '':'' \<notin> set (cq_TaskId req)"
    and "Complete (broker_run es1) (broker_run es2) timedOut req b = Inr (b', resp)" and "cr_Ok resp"
  shows "gr_Done (GetResult \<lparr>gq_TaskId = cq_TaskId req\<rparr> (broker_run es b'))"
proof -
  from assms(7,8) have p: "proposeAndWait (broker_run es1) (broker_run es2) timedOut
      (encodeComplete (cq_TaskId req) (cq_Error req)) b = Inr (b', True)"
    by (auto simp: Complete_def go_bind_Inr_iff split: if_splits)
  obtain m where m: "BApply m \<in> set es2" "delivers_own cfg s i (encodeComplete (cq_TaskId req) (cq_Error req)) m"
    and ok: "broker_ok b'" and board: "board_of b' =
      fold (\<lambda>m. board_step (decodeCommand (am_Command m))) (applied_by es1 @ applied_by es2) (board_of b)"
    by (rule proposal_applied [OF assms(1-5) p])
  let ?c = "CComplete (cq_TaskId req) (cq_Error req)"
  have "am_Command m = encode_command ?c" using m(2) by (auto simp: delivers_own_def)
  then have "decodeCommand (am_Command m) = command_fields ?c" using cmds.decode_encode [of ?c] assms(6) by simp
  then have on: "cq_TaskId req \<in> dom (tb_results (board_of b'))"
    using applied_in_board [of m "applied_by es1 @ applied_by es2" ?c] m(1) by (simp add: set_applied_by board)
  have "board_extends (board_of b') (board_of (broker_run es b'))"
    using ok by (intro board_extends_run) (simp add: broker_ok_def)
  then have "cq_TaskId req \<in> dom (tb_results (board_of (broker_run es b')))" using on by (auto simp: board_extends_def)
  then show ?thesis by (auto simp: GetResult_def board_of_def split: if_splits)
qed


end
